(* ===== verification/Cbeam_Prelude.thy ===== *)
theory Cbeam_Prelude
  imports Main "HOL-Library.Word" "HOL-Library.Char_ord" "HOL-Library.List_Lexorder"
    "HOL-Library.Multiset"
begin

text \<open>
  Shared ground of the Cbeam development.

  \<^item> the types every component uses: bytes, addresses, sizes;
  \<^item> failures: every exception of \<^verbatim>\<open>include/cbeam/error\<close> the modelled code throws, and the
    undefined behaviours of C++ that the modelled code can run into, as values of one datatype;
  \<^item> \<open>std::size_t\<close> arithmetic: sizes are natural numbers and every place where the code may
    wrap writes \<open>wrap64\<close>;
  \<^item> little-endian byte images of machine integers and their inverse;
  \<^item> the named collections the component theories fill: \<open>codec_simps\<close> (the equations of
    the byte codecs) and \<open>heap_simps\<close> (the equations of the C heap).
\<close>

named_theorems codec_simps \<open>round-trip equations of the byte codecs\<close>
named_theorems heap_simps \<open>equations of the C heap operations\<close>

section \<open>Types and failures\<close>

type_synonym byte = "8 word"
type_synonym addr = "64 word"
type_synonym bytes = "byte list"

abbreviation nullptr :: addr where "nullptr \<equiv> 0"

text \<open>Undefined behaviour of the C++ abstract machine, made explicit.\<close>

datatype ub =
    invalid_free
  | use_after_free
  | out_of_bounds
  | realloc_zero_size
  | null_dereference
  | signed_overflow
  | division_by_zero
  | unlock_not_owned
  | invalid_value
  | reentrant_modification
  | invalid_mutex

text \<open>The exception classes of \<^verbatim>\<open>cbeam::error\<close> with their message, the exceptions of the
  standard library that the code lets escape, and undefined behaviour. \<open>model_out_of_fuel\<close> is no
  behaviour of the code: a recursive reader modelled with fuel returns it when the fuel ends, and
  lemmas show how much fuel is enough.\<close>

datatype failure =
    runtime_error string
  | logic_error string
  | out_of_range string
  | overflow_error string
  | system_error string
  | bad_alloc
  | std_bad_alloc
  | bad_function_call
  | length_error
  | model_out_of_fuel
  | undefined_behaviour ub

type_synonym 'a result = "failure + 'a"

fun is_undefined :: "failure \<Rightarrow> bool" where
  "is_undefined (undefined_behaviour u) = True"
| "is_undefined _ = False"

section \<open>Sizes\<close>

text \<open>\<open>std::size_t\<close> has 64 bits; its range is kept behind a constant.\<close>

definition size_limit :: nat where
  "size_limit = 2 ^ 64"

definition wrap64 :: "nat \<Rightarrow> nat" where
  "wrap64 n = n mod size_limit"

lemma size_limit_pos [simp]: "0 < size_limit"
  by (simp add: size_limit_def)

lemma wrap64_small [simp]: "n < size_limit \<Longrightarrow> wrap64 n = n"
  by (simp add: wrap64_def)

lemma wrap64_less [simp]: "wrap64 n < size_limit"
  by (simp add: wrap64_def)

text \<open>For evaluation, \<open>wrap64\<close> goes through the 64-bit word type.\<close>

lemma wrap64_code [code]: "wrap64 n = unat (of_nat n :: 64 word)"
  by (simp add: wrap64_def size_limit_def unat_of_nat)

section \<open>Little-endian byte images\<close>

fun le_bytes :: "nat \<Rightarrow> nat \<Rightarrow> bytes" where
  "le_bytes 0 x = []"
| "le_bytes (Suc n) x = of_nat (x mod 256) # le_bytes n (x div 256)"

fun le_nat :: "bytes \<Rightarrow> nat" where
  "le_nat [] = 0"
| "le_nat (b # bs) = unat b + 256 * le_nat bs"

lemma byte_less: "unat (b :: byte) < 256"
  using unsigned_less [of b, where 'a = nat] by simp

lemma length_le_bytes [simp]: "length (le_bytes n x) = n"
  by (induction n arbitrary: x) auto

lemma le_bytes_eq_Nil [simp]: "le_bytes n x = [] \<longleftrightarrow> n = 0"
  by (cases n) auto

lemma le_bytes_zero: "le_bytes n 0 = replicate n 0"
  by (induction n) auto

lemma unat_byte_of_nat [simp]: "unat (of_nat (x mod 256) :: byte) = x mod 256"
  by (simp add: unat_of_nat)

lemma le_nat_le_bytes: "le_nat (le_bytes n x) = x mod 256 ^ n"
proof (induction n arbitrary: x)
  case 0
  then show ?case by simp
next
  case (Suc n)
  have "le_nat (le_bytes (Suc n) x) = x mod 256 + 256 * ((x div 256) mod 256 ^ n)"
    by (simp add: Suc.IH)
  also have "\<dots> = x mod (256 * 256 ^ n)"
    by (simp add: mod_mult2_eq)
  finally show ?case by simp
qed

lemma le_nat_less: "le_nat bs < 256 ^ length bs"
proof (induction bs)
  case Nil
  then show ?case by simp
next
  case (Cons b bs)
  with byte_less [of b] Cons.IH show ?case by simp
qed

lemma le_bytes_le_nat: "le_bytes (length bs) (le_nat bs) = bs"
proof (induction bs)
  case Nil
  then show ?case by simp
next
  case (Cons b bs)
  have "(unat b + 256 * le_nat bs) mod 256 = unat b"
    and "(unat b + 256 * le_nat bs) div 256 = le_nat bs"
    using byte_less [of b] by simp_all
  with Cons.IH show ?case by simp
qed

section \<open>Characters and bytes\<close>

definition byte_of_char :: "char \<Rightarrow> byte" where
  "byte_of_char c = of_nat (of_char c)"

definition char_of_byte :: "byte \<Rightarrow> char" where
  "char_of_byte b = char_of (unat b)"

lemma of_char_less_256 [simp]: "(of_char c :: nat) < 256"
  by (cases c) (simp add: of_char_def horner_sum_simps)

lemma unat_byte_of_char [simp]: "unat (byte_of_char c) = of_char c"
  by (simp add: byte_of_char_def unat_of_nat)

lemma char_of_byte_of_char [simp]: "char_of_byte (byte_of_char c) = c"
  by (simp add: char_of_byte_def)

lemma byte_of_char_of_byte [simp]: "byte_of_char (char_of_byte b) = b"
proof -
  show ?thesis
    using byte_less [of b] by (simp add: char_of_byte_def byte_of_char_def)
qed

end
