(* ===== verification/Std_Map.thy ===== *)
theory Std_Map
  imports Cbeam_Prelude
begin

text \<open>
  \<open>std::map<Key, Value>\<close> as the code uses it: the list of its entries in iteration order, which
  is ascending by key. The operations are the library calls of the modelled code
  (\<open>operator[]\<close> with an assignment, \<open>insert\<close>, \<open>erase\<close>, \<open>find\<close>, \<open>count\<close>, \<open>at\<close>).
  \<open>map_of m\<close> is the abstract map of \<open>m\<close>; \<open>smap_ok\<close> is the representation invariant.
\<close>

type_synonym ('k, 'v) smap = "('k \<times> 'v) list"

definition smap_ok :: "('k::linorder, 'v) smap \<Rightarrow> bool" where
  "smap_ok m \<longleftrightarrow> sorted_wrt (<) (map fst m)"

definition smap_assign :: "'k::linorder \<Rightarrow> 'v \<Rightarrow> ('k, 'v) smap \<Rightarrow> ('k, 'v) smap" where
  "smap_assign k v m = filter (\<lambda>e. fst e < k) m @ (k, v) # filter (\<lambda>e. k < fst e) m"

definition smap_count :: "'k \<Rightarrow> ('k, 'v) smap \<Rightarrow> nat" where
  "smap_count k m = (if map_of m k = None then 0 else 1)"

definition smap_insert :: "'k::linorder \<Rightarrow> 'v \<Rightarrow> ('k, 'v) smap \<Rightarrow> ('k, 'v) smap" where
  "smap_insert k v m = (if map_of m k = None then smap_assign k v m else m)"

definition smap_erase :: "'k \<Rightarrow> ('k, 'v) smap \<Rightarrow> ('k, 'v) smap" where
  "smap_erase k m = filter (\<lambda>e. fst e \<noteq> k) m"

lemma smap_ok_Nil [simp]: "smap_ok []"
  by (simp add: smap_ok_def)

lemma smap_ok_Cons: "smap_ok (e # m) \<longleftrightarrow> (\<forall>x\<in>set m. fst e < fst x) \<and> smap_ok m"
  by (auto simp: smap_ok_def)

lemma smap_ok_filter: "smap_ok m \<Longrightarrow> smap_ok (filter P m)"
  by (induction m) (auto simp: smap_ok_Cons)

lemma smap_ok_append:
  "smap_ok (m @ n) \<longleftrightarrow> smap_ok m \<and> smap_ok n \<and> (\<forall>x\<in>set m. \<forall>y\<in>set n. fst x < fst y)"
  by (auto simp: smap_ok_def sorted_wrt_append)

lemma smap_ok_assign [simp]: "smap_ok m \<Longrightarrow> smap_ok (smap_assign k v m)"
  by (auto simp: smap_assign_def smap_ok_append smap_ok_Cons smap_ok_filter intro: less_trans)

lemma smap_ok_insert [simp]: "smap_ok m \<Longrightarrow> smap_ok (smap_insert k v m)"
  by (simp add: smap_insert_def)

lemma smap_ok_erase [simp]: "smap_ok m \<Longrightarrow> smap_ok (smap_erase k m)"
  by (simp add: smap_erase_def smap_ok_filter)

lemma map_of_filter_key: "map_of (filter (\<lambda>e. P (fst e)) m) k = (if P k then map_of m k else None)"
  by (induction m) auto

lemma map_of_smap_assign [simp]: "map_of (smap_assign k v m) = (map_of m)(k \<mapsto> v)"
proof
  fix x
  show "map_of (smap_assign k v m) x = ((map_of m)(k \<mapsto> v)) x"
    by (cases x k rule: linorder_cases)
      (auto simp: smap_assign_def map_add_def map_of_filter_key [of "\<lambda>y. y < k"]
        map_of_filter_key [of "\<lambda>y. k < y"] split: option.splits)
qed

lemma map_of_smap_insert [simp]:
  "map_of (smap_insert k v m) = (if map_of m k = None then (map_of m)(k \<mapsto> v) else map_of m)"
  by (simp add: smap_insert_def)

lemma map_of_smap_erase [simp]: "map_of (smap_erase k m) = (map_of m)(k := None)"
  by (rule ext) (simp add: smap_erase_def map_of_filter_key [of "\<lambda>y. y \<noteq> k"])

lemma smap_ok_distinct: "smap_ok m \<Longrightarrow> distinct (map fst m)"
  by (simp add: smap_ok_def strict_sorted_iff)

text \<open>The representation is canonical: equal abstract maps have equal entry lists.\<close>

lemma smap_ok_unique:
  assumes "smap_ok m" and "smap_ok n" and "map_of m = map_of n"
  shows "m = n"
proof -
  have keys: "map fst m = map fst n"
  proof (rule strict_sorted_equal)
    show "sorted_wrt (<) (map fst m)" and "sorted_wrt (<) (map fst n)"
      using assms by (simp_all add: smap_ok_def)
    show "set (map fst m) = set (map fst n)"
      using assms(3) by (metis dom_map_of_conv_image_fst set_map)
  qed
  have "map snd m = map snd n"
  proof (rule nth_equalityI)
    show "length (map snd m) = length (map snd n)"
      using keys map_eq_imp_length_eq by fastforce
  next
    fix i
    assume i: "i < length (map snd m)"
    then have i': "i < length n"
      using keys map_eq_imp_length_eq by fastforce
    have "map_of m (fst (m ! i)) = Some (snd (m ! i))"
      using i smap_ok_distinct [OF assms(1)] by (simp add: map_of_is_SomeI)
    moreover have "map_of n (fst (n ! i)) = Some (snd (n ! i))"
      using i' smap_ok_distinct [OF assms(2)] by (simp add: map_of_is_SomeI)
    moreover have "fst (m ! i) = fst (n ! i)"
      using keys i i' by (metis length_map nth_map)
    ultimately show "map snd m ! i = map snd n ! i"
      using assms(3) i i' by simp
  qed
  with keys show ?thesis
    by (metis zip_map_fst_snd)
qed

lemma smap_insert_snoc:
  assumes "\<forall>x\<in>set m. fst x < k"
  shows "smap_insert k v m = m @ [(k, v)]"
proof -
  have "map_of m k = None"
    using assms by (auto simp: map_of_eq_None_iff)
  moreover have "filter (\<lambda>e. fst e < k) m = m" and "filter (\<lambda>e. k < fst e) m = []"
    using assms by (auto simp: filter_id_conv filter_empty_conv)
  ultimately show ?thesis
    by (simp add: smap_insert_def smap_assign_def)
qed

lemma length_smap_assign_le: "length (smap_assign k v m) \<le> Suc (length m)"
proof -
  have "length (filter (\<lambda>e. fst e < k) m) + length (filter (\<lambda>e. k < fst e) m) \<le> length m"
    by (induction m) auto
  then show ?thesis
    by (simp add: smap_assign_def)
qed

lemma smap_assign_same_length:
  assumes "smap_ok m" and "map_of m k \<noteq> None"
  shows "length (smap_assign k v m) = length m"
proof -
  have "dom (map_of (smap_assign k v m)) = dom (map_of m)"
    using assms(2) by auto
  then have "set (map fst (smap_assign k v m)) = set (map fst m)"
    by (metis dom_map_of_conv_image_fst set_map)
  moreover have "distinct (map fst (smap_assign k v m))" and "distinct (map fst m)"
    using assms(1) by (simp_all add: smap_ok_distinct)
  ultimately show ?thesis
    by (metis distinct_card length_map)
qed

lemma length_smap_erase_le: "length (smap_erase k m) \<le> length m"
  by (simp add: smap_erase_def)

end
