(* ===== verification/Convert_String.thy ===== *)
theory Convert_String
  imports Cbeam_Prelude
begin

text \<open>
  \<^verbatim>\<open>convert/string.hpp\<close>: indentation, lower-casing, escaping and unescaping, the hexadecimal
  form of pointers and its parser (\<open>from_string<void*>\<close>, the stream extraction of a pointer).
  The results used elsewhere: unescaping inverts escaping for every escape character and every
  set of escaped characters, and parsing inverts printing for every pointer.
\<close>

definition tab_char :: char where
  "tab_char = CHR 0x09"

definition newline_char :: char where
  "newline_char = CHR 0x0A"

text \<open>\<open>std::string(n, c)\<close> takes a \<open>size_t\<close>: a negative \<open>int\<close> becomes a length no string can have.\<close>

definition indent :: "int \<Rightarrow> string result" where
  "indent n = (if n < 0 then Inl length_error else Inr (replicate (nat n) tab_char))"

definition to_lower_char :: "char \<Rightarrow> char" where
  "to_lower_char c =
     (if 65 \<le> (of_char c :: nat) \<and> (of_char c :: nat) \<le> 90 then char_of ((of_char c :: nat) + 32) else c)"

definition to_lower :: "string \<Rightarrow> string" where
  "to_lower s = map to_lower_char s"

fun escape_string :: "string \<Rightarrow> char \<Rightarrow> string \<Rightarrow> string" where
  "escape_string [] e cs = []"
| "escape_string (ch # s) e cs = (if ch \<in> set cs then [e] else []) @ ch # escape_string s e cs"

fun unescape_string :: "string \<Rightarrow> char \<Rightarrow> string \<Rightarrow> string" where
  "unescape_string [] e cs = []"
| "unescape_string [c] e cs = [c]"
| "unescape_string (c # d # s) e cs =
     (if c = e \<and> d \<in> set cs then d # unescape_string s e cs
      else c # unescape_string (d # s) e cs)"

section \<open>Pointers as hexadecimal strings\<close>

definition hex_digit :: "nat \<Rightarrow> char" where
  "hex_digit d = (if d < 10 then char_of (48 + d) else char_of (87 + d))"

fun hex_nat :: "nat \<Rightarrow> string" where
  "hex_nat n = (if n < 16 then [hex_digit n] else hex_nat (n div 16) @ [hex_digit (n mod 16)])"

declare hex_nat.simps [simp del]

text \<open>\<open>std::hex << std::showbase\<close>: the base prefix is printed for every value but zero.\<close>

definition ptr_to_string :: "addr \<Rightarrow> string" where
  "ptr_to_string p = (if p = 0 then ''0'' else ''0x'' @ hex_nat (unat p))"

definition hex_value :: "char \<Rightarrow> nat option" where
  "hex_value ch =
     (let c = (of_char ch :: nat)
      in if 48 \<le> c \<and> c \<le> 57 then Some (c - 48)
         else if 97 \<le> c \<and> c \<le> 102 then Some (c - 87)
         else if 65 \<le> c \<and> c \<le> 70 then Some (c - 55)
         else None)"

definition is_space :: "char \<Rightarrow> bool" where
  "is_space c \<longleftrightarrow> (of_char c :: nat) \<in> {9, 10, 11, 12, 13, 32}"

fun hex_prefix :: "char list \<Rightarrow> nat \<Rightarrow> nat" where
  "hex_prefix [] acc = acc"
| "hex_prefix (c # s) acc = (case hex_value c of None \<Rightarrow> acc | Some d \<Rightarrow> hex_prefix s (16 * acc + d))"

fun skip_base :: "string \<Rightarrow> string" where
  "skip_base (c # d # s) = (if c = CHR ''0'' \<and> (d = CHR ''x'' \<or> d = CHR ''X'') then s else c # d # s)"
| "skip_base s = s"

fun skip_sign :: "string \<Rightarrow> bool \<times> string" where
  "skip_sign (c # s) = (if c = CHR ''-'' then (True, s) else if c = CHR ''+'' then (False, s) else (False, c # s))"
| "skip_sign [] = (False, [])"

text \<open>Extraction skips white space and leaves the result untouched, that is uninitialised, when nothing
  follows. Otherwise it takes an optional sign and an optional base prefix, reads hexadecimal digits as
  far as they go, and stores the largest value on overflow and zero when there is no digit.\<close>

definition ptr_from_string :: "string \<Rightarrow> addr result" where
  "ptr_from_string s =
     (case dropWhile is_space s of
        [] \<Rightarrow> Inl (undefined_behaviour invalid_value)
      | t \<Rightarrow>
          (let (neg, u) = skip_sign t; n = hex_prefix (skip_base u) 0
           in Inr (if n < 2 ^ 64 then (if neg then - of_nat n else of_nat n) else - 1)))"

lemma hex_value_digit: "d < 16 \<Longrightarrow> hex_value (hex_digit d) = Some d"
  by (auto simp: hex_value_def hex_digit_def of_char_of)

lemma hex_prefix_append:
  "\<forall>c\<in>set s. hex_value c \<noteq> None \<Longrightarrow> hex_prefix (s @ t) acc = hex_prefix t (hex_prefix s acc)"
  by (induction s arbitrary: acc) (auto split: option.splits)

lemma hex_nat_digits: "\<forall>c\<in>set (hex_nat n). hex_value c \<noteq> None"
proof (induction n rule: hex_nat.induct)
  case (1 n)
  have "n mod 16 < 16" by simp
  with 1 show ?case
    by (subst hex_nat.simps) (auto simp: hex_value_digit)
qed

lemma hex_prefix_hex_nat: "hex_prefix (hex_nat n) 0 = n"
proof (induction n rule: hex_nat.induct)
  case (1 n)
  show ?case
  proof (cases "n < 16")
    case True
    then show ?thesis
      by (subst hex_nat.simps) (simp add: hex_value_digit)
  next
    case False
    with 1 have "hex_prefix (hex_nat (n div 16)) 0 = n div 16" by simp
    moreover have "n mod 16 < 16" by simp
    ultimately show ?thesis
      using False hex_prefix_append [OF hex_nat_digits]
      by (subst hex_nat.simps) (simp add: hex_value_digit)
  qed
qed

lemma length_hex_nat_le: "length (hex_nat n) \<le> Suc (n div 16)"
proof (induction n rule: hex_nat.induct)
  case (1 n)
  show ?case
  proof (cases "n < 16")
    case True
    then show ?thesis by (subst hex_nat.simps) simp
  next
    case False
    with 1 have "length (hex_nat (n div 16)) \<le> Suc (n div 16 div 16)" by simp
    moreover have "Suc (n div 16 div 16) \<le> n div 16"
      using False by linarith
    ultimately show ?thesis
      using False by (subst hex_nat.simps) simp
  qed
qed

lemma length_ptr_to_string: "length (ptr_to_string p) < size_limit"
proof -
  have "unat p < 2 ^ 64"
    using unsigned_less [of p, where 'a = nat] by simp
  then have "Suc (unat p div 16) + 2 < 2 ^ 64" by simp
  with length_hex_nat_le [of "unat p"] show ?thesis
    by (simp add: ptr_to_string_def size_limit_def)
qed

lemma ptr_from_string_to_string [codec_simps]: "ptr_from_string (ptr_to_string p) = Inr p"
proof (cases "p = 0")
  case True
  then show ?thesis
    by (simp add: ptr_from_string_def ptr_to_string_def is_space_def hex_value_def)
next
  case False
  have "unat p < 2 ^ 64"
    using unsigned_less [of p, where 'a = nat] by simp
  with False show ?thesis
    by (simp add: ptr_from_string_def ptr_to_string_def is_space_def hex_prefix_hex_nat)
qed

section \<open>Escaping\<close>

lemma unescape_plain:
  assumes "\<And>d t. c = e \<Longrightarrow> s = d # t \<Longrightarrow> d \<notin> set cs"
  shows "unescape_string (c # s) e cs = c # unescape_string s e cs"
  using assms by (cases s) auto

lemma escape_string_head: "escape_string s e cs = d # t \<Longrightarrow> d \<in> set cs \<Longrightarrow> d = e"
  by (cases s) (auto split: if_splits)

lemma unescape_escape: "unescape_string (escape_string s e cs) e cs = s"
proof (induction s)
  case Nil
  then show ?case by simp
next
  case (Cons ch s)
  show ?case
  proof (cases "ch \<in> set cs")
    case True
    with Cons show ?thesis by simp
  next
    case False
    then have "unescape_string (ch # escape_string s e cs) e cs = ch # unescape_string (escape_string s e cs) e cs"
      using escape_string_head by (intro unescape_plain) blast
    with False Cons show ?thesis by simp
  qed
qed

lemma length_escape_le: "length (escape_string s e cs) \<le> 2 * length s"
  by (induction s) auto

text \<open>Escaping. For every text, every escape character and every set of escaped characters, \<open>unescape_string\<close>
  gives back the text that \<open>escape_string\<close> was given, also when the escape character is not itself escaped.\<close>

lemma escape_roundtrip: "unescape_string (escape_string input e cs) e cs = input"
  by (rule unescape_escape)

text \<open>Pointers as strings. Parsing the printed form of a pointer gives the pointer, so two pointers with the same
  printed form are equal.\<close>

lemma pointer_string_roundtrip:
  "ptr_from_string (ptr_to_string p) = Inr p \<and> (ptr_to_string p = ptr_to_string q \<longleftrightarrow> p = q)"
  by (metis ptr_from_string_to_string sum.inject(2))

end
