(* ===== verification/Xpod.thy ===== *)
theory Xpod
  imports Std_Map Convert_String
begin

text \<open>
  \<^verbatim>\<open>container/xpod.hpp\<close>: the variant of plain values, with its type indices and its insertion
  operator; \<^verbatim>\<open>container/find.hpp\<close>: reading a variant by type index with a default, and looking
  up a key; \<^verbatim>\<open>convert/xpod.hpp\<close>: a variant as a string.

  A \<open>long long\<close> is a 64 bit word in two's complement, a \<open>double\<close> the 64 bit pattern of its IEEE
  value, a \<open>memory::pointer\<close> the address it compares by. How the standard library
  prints a \<open>double\<close> is the argument \<open>show_double\<close>.
\<close>

datatype xpod =
    Integer "64 word"
  | Number "64 word"
  | Boolean bool
  | Pointer addr
  | Str string

fun xpod_index :: "xpod \<Rightarrow> nat" where
  "xpod_index (Integer _) = 0"
| "xpod_index (Number _) = 1"
| "xpod_index (Boolean _) = 2"
| "xpod_index (Pointer _) = 3"
| "xpod_index (Str _) = 4"

text \<open>\<open>target_type{}\<close> of the alternative at a type index; there is none beyond 4.\<close>

definition xpod_default :: "nat \<Rightarrow> xpod" where
  "xpod_default i =
     (if i = 0 then Integer 0 else if i = 1 then Number 0 else if i = 2 then Boolean False
      else if i = 3 then Pointer nullptr else Str [])"

text \<open>\<open>std::get_if\<close>: the value when the alternative is the active one.\<close>

definition xpod_get_if :: "nat \<Rightarrow> xpod \<Rightarrow> xpod option" where
  "xpod_get_if i v = (if xpod_index v = i then Some v else None)"

definition get_value_or_default :: "nat \<Rightarrow> xpod \<Rightarrow> xpod" where
  "get_value_or_default i v = (case xpod_get_if i v of Some x \<Rightarrow> x | None \<Rightarrow> xpod_default i)"

definition key_exists :: "('k, 'v) smap \<Rightarrow> 'k \<Rightarrow> bool" where
  "key_exists t k \<longleftrightarrow> map_of t k \<noteq> None"

section \<open>As a string\<close>

fun dec_nat :: "nat \<Rightarrow> string" where
  "dec_nat n = (if n < 10 then [char_of (48 + n)] else dec_nat (n div 10) @ [char_of (48 + n mod 10)])"

declare dec_nat.simps [simp del]

definition dec_int :: "int \<Rightarrow> string" where
  "dec_int i = (if i < 0 then CHR ''-'' # dec_nat (nat (- i)) else dec_nat (nat i))"

text \<open>Without \<open>std::boolalpha\<close> a \<open>bool\<close> prints as 0 or 1.\<close>

fun xpod_to_string :: "(64 word \<Rightarrow> string) \<Rightarrow> xpod \<Rightarrow> string" where
  "xpod_to_string show_double (Integer w) = dec_int (sint w)"
| "xpod_to_string show_double (Number d) = show_double d"
| "xpod_to_string show_double (Boolean b) = (if b then ''1'' else ''0'')"
| "xpod_to_string show_double (Pointer p) = ptr_to_string p"
| "xpod_to_string show_double (Str s) = s"

lemma xpod_index_less: "xpod_index v < 5"
  by (cases v) auto

lemma xpod_index_default: "i < 5 \<Longrightarrow> xpod_index (xpod_default i) = i"
  by (auto simp: xpod_default_def)

lemma get_value_or_default_index: "i < 5 \<Longrightarrow> xpod_index (get_value_or_default i v) = i"
  by (simp add: get_value_or_default_def xpod_get_if_def xpod_index_default)

section \<open>Decimal printing is faithful\<close>

fun dec_parse :: "string \<Rightarrow> nat" where
  "dec_parse s = foldl (\<lambda>a c. 10 * a + ((of_char c :: nat) - 48)) 0 s"

lemma dec_parse_dec_nat: "dec_parse (dec_nat n) = n"
proof (induction n rule: dec_nat.induct)
  case (1 n)
  have "n mod 10 < 10" by simp
  with 1 show ?case
    by (subst dec_nat.simps) (auto simp: of_char_of)
qed

lemma dec_nat_inject: "dec_nat m = dec_nat n \<Longrightarrow> m = n"
  by (metis dec_parse_dec_nat)

lemma dec_nat_first: "\<exists>c s. dec_nat n = c # s \<and> c \<noteq> CHR ''-''"
proof (induction n rule: dec_nat.induct)
  case (1 n)
  have "char_of (48 + k) \<noteq> CHR ''-''" if "k < 10" for k :: nat
  proof
    assume "char_of (48 + k) = CHR ''-''"
    then have "(of_char (char_of (48 + k)) :: nat) = of_char (CHR ''-'')" by simp
    with that show False by (simp add: of_char_of)
  qed
  with 1 show ?case
    by (subst dec_nat.simps) auto
qed

lemma dec_int_inject: "dec_int i = dec_int j \<Longrightarrow> i = j"
  using dec_nat_first [of "nat i"] dec_nat_first [of "nat j"]
    dec_nat_inject [of "nat i" "nat j"] dec_nat_inject [of "nat (- i)" "nat (- j)"]
  by (cases "i < 0"; cases "j < 0") (force simp: dec_int_def)+

end
