(* ===== verification/Nested_Map.thy ===== *)
theory Nested_Map
  imports Xpod
begin

text \<open>
  \<^verbatim>\<open>container/nested_map.hpp\<close>: a table of values plus named sub tables. The members are two
  \<open>std::map\<close>s; \<open>nested_ok\<close> says that both are well-formed on every level. Where the code reads a
  \<open>std::variant\<close> value by type, the value type is \<open>xpod\<close>.
\<close>

datatype ('k, 'v) nested_map =
  Nested_Map (table_data: "('k \<times> 'v) list") (sub_tables: "('k \<times> ('k, 'v) nested_map) list")

definition nested_default :: "('k, 'v) nested_map" where
  "nested_default = Nested_Map [] []"

definition nested_init :: "('k::linorder \<times> 'v) list \<Rightarrow> ('k, 'v) nested_map" where
  "nested_init entries = Nested_Map (fold (\<lambda>(k, v). smap_assign k v) entries []) []"

definition nested_clear :: "('k, 'v) nested_map \<Rightarrow> ('k, 'v) nested_map" where
  "nested_clear m = Nested_Map [] []"

text \<open>\<open>operator=\<close> clears and merges, and the merge assigns every sub table with \<open>operator=\<close> again: the
  copy is rebuilt level by level. What the assigned object held before is cleared first.\<close>

primrec nested_assign :: "('k::linorder, 'v) nested_map \<Rightarrow> ('k, 'v) nested_map" where
  "nested_assign (Nested_Map d s) =
     Nested_Map (fold (\<lambda>(k, v). smap_assign k v) d [])
       (fold (\<lambda>(k, t). smap_assign k t) (map (map_prod id nested_assign) s) [])"

definition nested_merge ::
  "('k::linorder, 'v) nested_map \<Rightarrow> ('k, 'v) nested_map \<Rightarrow> ('k, 'v) nested_map" where
  "nested_merge m other =
     Nested_Map (fold (\<lambda>(k, v). smap_assign k v) (table_data other) (table_data m))
       (fold (\<lambda>(k, t). smap_assign k (nested_assign t)) (sub_tables other) (sub_tables m))"

primrec nested_ok :: "('k::linorder, 'v) nested_map \<Rightarrow> bool" where
  "nested_ok (Nested_Map d s) \<longleftrightarrow>
     smap_ok d \<and> smap_ok s \<and> list_all (\<lambda>e. snd e) (map (map_prod id nested_ok) s)"

section \<open>Lookup\<close>

definition get_mapped_value_or_default :: "'v \<Rightarrow> ('k, 'v) nested_map \<Rightarrow> 'k \<Rightarrow> 'v" where
  "get_mapped_value_or_default dflt m key =
     (case map_of (table_data m) key of None \<Rightarrow> dflt | Some v \<Rightarrow> v)"

definition get_mapped_variant_or_default :: "nat \<Rightarrow> ('k, xpod) nested_map \<Rightarrow> 'k \<Rightarrow> xpod" where
  "get_mapped_variant_or_default i m key =
     (case map_of (table_data m) key of None \<Rightarrow> xpod_default i | Some v \<Rightarrow> get_value_or_default i v)"

definition mapped_error :: "string \<Rightarrow> string \<Rightarrow> failure" where
  "mapped_error error_msg dflt = runtime_error (if error_msg = [] then dflt else error_msg)"

definition get_mapped_value_or_throw :: "('k, 'v) nested_map \<Rightarrow> 'k \<Rightarrow> string \<Rightarrow> 'v result" where
  "get_mapped_value_or_throw m key error_msg =
     (case map_of (table_data m) key of
        Some v \<Rightarrow> Inr v
      | None \<Rightarrow> Inl (mapped_error error_msg ''get_mapped_value_or_throw: missing value''))"

definition get_mapped_variant_or_throw :: "nat \<Rightarrow> ('k, xpod) nested_map \<Rightarrow> 'k \<Rightarrow> string \<Rightarrow> xpod result" where
  "get_mapped_variant_or_throw i m key error_msg =
     (case map_of (table_data m) key of
        Some v \<Rightarrow>
          (case xpod_get_if i v of
             Some x \<Rightarrow> Inr x
           | None \<Rightarrow> Inl (mapped_error error_msg ''get_mapped_value_or_throw: wrong type of value''))
      | None \<Rightarrow> Inl (mapped_error error_msg ''get_mapped_value_or_throw: missing value''))"

section \<open>Assignment and merging\<close>

lemma fold_assign_snoc:
  "smap_ok (acc @ m) \<Longrightarrow> fold (\<lambda>(k, v). smap_assign k v) m acc = acc @ m"
proof (induction m arbitrary: acc)
  case Nil
  then show ?case by simp
next
  case (Cons e m)
  have "smap_assign (fst e) (snd e) acc = acc @ [e]"
  proof -
    have "\<forall>x\<in>set acc. fst x < fst e"
      using Cons.prems by (simp add: smap_ok_append)
    moreover from this have "map_of acc (fst e) = None"
      by (auto simp: map_of_eq_None_iff)
    ultimately show ?thesis
      using smap_insert_snoc [of acc "fst e" "snd e"] by (simp add: smap_insert_def)
  qed
  with Cons.IH [of "acc @ [e]"] Cons.prems show ?case
    by (simp add: case_prod_beta)
qed

lemma nested_assign_id: "nested_ok m \<Longrightarrow> nested_assign m = m"
proof (induction m)
  case (Nested_Map d s)
  have "map (map_prod id nested_assign) s = s"
    using Nested_Map by (intro map_idI) (auto simp: list_all_iff)
  with Nested_Map.prems show ?case
    using fold_assign_snoc [of "[]" d] fold_assign_snoc [of "[]" s] by simp
qed

lemma map_of_fold_assign:
  "smap_ok n \<Longrightarrow> map_of (fold (\<lambda>(k, v). smap_assign k v) n m) = map_of m ++ map_of n"
proof (induction n arbitrary: m)
  case Nil
  then show ?case by simp
next
  case (Cons e n)
  have "map_of n (fst e) = None"
    using Cons.prems by (auto simp: map_of_eq_None_iff smap_ok_Cons)
  then have "(map_of m)(fst e \<mapsto> snd e) ++ map_of n = map_of m ++ (map_of n)(fst e \<mapsto> snd e)"
    by (auto simp: fun_eq_iff map_add_def split: option.splits)
  with Cons show ?case
    by (simp add: case_prod_beta smap_ok_Cons fun_upd_def del: map_add_upd)
qed

lemma nested_merge_data:
  "nested_ok other \<Longrightarrow> map_of (table_data (nested_merge m other)) = map_of (table_data m) ++ map_of (table_data other)"
  by (cases other) (simp add: nested_merge_def map_of_fold_assign)

lemma nested_merge_sub_tables:
  assumes "nested_ok other"
  shows "map_of (sub_tables (nested_merge m other)) = map_of (sub_tables m) ++ map_of (sub_tables other)"
proof (cases other)
  case (Nested_Map d s)
  have "fold (\<lambda>(k, t). smap_assign k (nested_assign t)) s (sub_tables m) =
      fold (\<lambda>(k, t). smap_assign k t) s (sub_tables m)"
    using assms Nested_Map
    by (intro fold_cong) (auto simp: list_all_iff nested_assign_id)
  then show ?thesis
    using assms Nested_Map by (simp add: nested_merge_def map_of_fold_assign)
qed

lemma smap_ok_fold_assign:
  "smap_ok m \<Longrightarrow> smap_ok (fold (\<lambda>(k, v). smap_assign k (f v)) n m)"
  by (induction n arbitrary: m) auto

lemma nested_ok_iff:
  "nested_ok m \<longleftrightarrow> smap_ok (table_data m) \<and> smap_ok (sub_tables m) \<and> (\<forall>e\<in>set (sub_tables m). nested_ok (snd e))"
  by (cases m) (auto simp: list_all_iff)

lemma set_fold_assign:
  "set (fold (\<lambda>(k, v). smap_assign k (f v)) n m) \<subseteq> set m \<union> (\<lambda>(k, v). (k, f v)) ` set n"
proof (induction n arbitrary: m)
  case Nil
  then show ?case by simp
next
  case (Cons e n)
  have "set (smap_assign (fst e) (f (snd e)) m) \<subseteq> insert (fst e, f (snd e)) (set m)"
    by (auto simp: smap_assign_def)
  with Cons [of "smap_assign (fst e) (f (snd e)) m"] show ?case
    by (auto simp: split_beta)
qed

lemma nested_merge_ok:
  assumes "nested_ok m" and "nested_ok other"
  shows "nested_ok (nested_merge m other)"
proof -
  have "nested_ok (snd e)" if "e \<in> set (sub_tables (nested_merge m other))" for e
  proof -
    have "e \<in> set (sub_tables m) \<union> (\<lambda>(k, t). (k, nested_assign t)) ` set (sub_tables other)"
      using that set_fold_assign [of nested_assign "sub_tables other" "sub_tables m"]
      by (auto simp: nested_merge_def)
    then show ?thesis
      using assms by (auto simp: nested_ok_iff [of m] nested_ok_iff [of other] nested_assign_id)
  qed
  moreover have "smap_ok (table_data (nested_merge m other))" and "smap_ok (sub_tables (nested_merge m other))"
    using assms smap_ok_fold_assign [of "table_data m" "\<lambda>v. v" "table_data other"]
      smap_ok_fold_assign [of "sub_tables m" nested_assign "sub_tables other"]
    by (simp_all add: nested_ok_iff [of m] nested_merge_def)
  ultimately show ?thesis
    by (simp add: nested_ok_iff [of "nested_merge m other"])
qed

text \<open>C23. Merging nested maps. \<open>merge\<close> keeps the invariant, takes every value and every sub table of the argument,
  and keeps of this map what the argument has no entry for. A sub table that both maps have is replaced as a whole,
  not merged: its own entries are lost.\<close>

theorem nested_merge_correct:
  assumes "nested_ok m" and "nested_ok other"
  shows "nested_ok (nested_merge m other) \<and>
    map_of (table_data (nested_merge m other)) = map_of (table_data m) ++ map_of (table_data other) \<and>
    map_of (sub_tables (nested_merge m other)) = map_of (sub_tables m) ++ map_of (sub_tables other)"
  using nested_merge_ok [OF assms] nested_merge_data [OF assms(2)] nested_merge_sub_tables [OF assms(2)] by simp

theorem nested_merge_correct_witness:
  "map_of (sub_tables (nested_merge (Nested_Map [] [(1 :: nat, Nested_Map [(5, ''a'')] [])])
      (Nested_Map [] [(1, Nested_Map [(6, ''b'')] [])]))) 1 = Some (Nested_Map [(6, ''b'')] [])"
  using nested_merge_correct [of "Nested_Map [] [(1 :: nat, Nested_Map [(5, ''a'')] [])]"
      "Nested_Map [] [(1, Nested_Map [(6, ''b'')] [])]"]
  by (simp add: smap_ok_def)

text \<open>Assignment of nested maps. \<open>operator=\<close>, which clears and then merges and so assigns every sub table
  by \<open>operator=\<close> again, makes an exact copy of a well-formed map at every depth.\<close>

lemma nested_assign_copies:
  assumes "nested_ok m"
  shows "nested_assign m = m \<and> nested_merge (nested_clear old) m = m"
proof -
  have "nested_merge (nested_clear old) m = nested_assign m"
    by (cases m) (simp add: nested_merge_def nested_clear_def fold_map comp_def case_prod_unfold)
  with nested_assign_id [OF assms] show ?thesis by simp
qed

lemma nested_assign_copies_witness:
  "nested_merge (nested_clear (Nested_Map [(9, True)] [])) (Nested_Map [(1 :: nat, False)] [(2, Nested_Map [] [])])
   = Nested_Map [(1, False)] [(2, Nested_Map [] [])]"
  using nested_assign_copies [of "Nested_Map [(1 :: nat, False)] [(2, Nested_Map [] [])]" "Nested_Map [(9, True)] []"]
  by (simp add: smap_ok_def)

end
