(* ===== verification/C_Heap.thy ===== *)
theory C_Heap
  imports Cbeam_Prelude
begin

text \<open>
  The C heap as \<^verbatim>\<open>container/buffer.hpp\<close> and \<^verbatim>\<open>container/stable_reference_buffer.hpp\<close> use it:
  \<open>malloc\<close>, \<open>realloc\<close>, \<open>free\<close> and \<open>memcpy\<close> on blocks of bytes.

  A heap maps the start address of every live block to its bytes. What \<open>malloc\<close> and
  \<open>realloc\<close> decide for themselves (the address, the indeterminate bytes of new memory, failing) is
  a \<open>choice\<close> argument: an address that is null or occupied makes the call return null, every other
  address is handed out. So a statement over all choices covers every behaviour of the allocator,
  and no allocator property is assumed. Misuse (a second \<open>free\<close>, a copy past the end of
  a block, \<open>realloc\<close> of a block to size 0, undefined since C23) is an explicit failure.
\<close>

type_synonym heap = "addr \<rightharpoonup> bytes"
type_synonym choice = "addr \<times> (nat \<Rightarrow> byte)"

definition heap_malloc :: "choice \<Rightarrow> nat \<Rightarrow> heap \<Rightarrow> addr \<times> heap" where
  "heap_malloc c n h =
     (if fst c = nullptr \<or> h (fst c) \<noteq> None then (nullptr, h)
      else (fst c, h(fst c \<mapsto> map (snd c) [0..<n])))"

definition heap_free :: "addr \<Rightarrow> heap \<Rightarrow> unit result \<times> heap" where
  "heap_free p h =
     (if p = nullptr then (Inr (), h)
      else if h p = None then (Inl (undefined_behaviour invalid_free), h)
      else (Inr (), h(p := None)))"

definition heap_realloc :: "choice \<Rightarrow> addr \<Rightarrow> nat \<Rightarrow> heap \<Rightarrow> addr result \<times> heap" where
  "heap_realloc c p n h =
     (if p = nullptr then (case heap_malloc c n h of (q, h') \<Rightarrow> (Inr q, h'))
      else if n = 0 then (Inl (undefined_behaviour realloc_zero_size), h)
      else (case h p of
          None \<Rightarrow> (Inl (undefined_behaviour use_after_free), h)
        | Some old \<Rightarrow>
            (let new = take n old @ map (snd c) [length old..<n]
             in if fst c = p then (Inr p, h(p \<mapsto> new))
                else if fst c = nullptr \<or> h (fst c) \<noteq> None then (Inr nullptr, h)
                else (Inr (fst c), h(p := None, fst c \<mapsto> new)))))"

text \<open>\<open>memcpy\<close> of \<open>d\<close> to offset \<open>off\<close> of the block at \<open>p\<close>.\<close>

definition heap_write :: "addr \<Rightarrow> nat \<Rightarrow> bytes \<Rightarrow> heap \<Rightarrow> unit result \<times> heap" where
  "heap_write p off d h =
     (case h p of
        None \<Rightarrow> (Inl (undefined_behaviour use_after_free), h)
      | Some b \<Rightarrow>
          if off + length d > length b then (Inl (undefined_behaviour out_of_bounds), h)
          else (Inr (), h(p \<mapsto> take off b @ d @ drop (off + length d) b)))"

text \<open>The first \<open>n\<close> bytes of the block at \<open>p\<close>, the source of a \<open>memcpy\<close>.\<close>

definition heap_read :: "addr \<Rightarrow> nat \<Rightarrow> heap \<Rightarrow> bytes result" where
  "heap_read p n h =
     (case h p of
        None \<Rightarrow> Inl (undefined_behaviour use_after_free)
      | Some b \<Rightarrow> if n > length b then Inl (undefined_behaviour out_of_bounds) else Inr (take n b))"

lemma heap_malloc_null [heap_simps]: "heap_malloc c n h = (nullptr, h') \<Longrightarrow> h' = h"
  by (auto simp: heap_malloc_def split: if_splits)

lemma heap_malloc_block:
  assumes "heap_malloc c n h = (p, h')" and "p \<noteq> nullptr"
  shows "h p = None" and "h' = h(p \<mapsto> map (snd c) [0..<n])" and "p = fst c"
  using assms by (auto simp: heap_malloc_def split: if_splits)

lemma heap_free_live [heap_simps]: "p \<noteq> nullptr \<Longrightarrow> h p = Some b \<Longrightarrow> heap_free p h = (Inr (), h(p := None))"
  by (simp add: heap_free_def)

lemma heap_free_null [heap_simps]: "heap_free nullptr h = (Inr (), h)"
  by (simp add: heap_free_def)

text \<open>No block starts at the null address.\<close>

definition heap_ok :: "heap \<Rightarrow> bool" where
  "heap_ok h \<longleftrightarrow> h nullptr = None"

lemma heap_ok_drop_null [simp]: "heap_ok h \<Longrightarrow> h(nullptr := None) = h"
  by (auto simp: heap_ok_def fun_eq_iff)

lemma heap_ok_upd [simp]: "heap_ok h \<Longrightarrow> p \<noteq> nullptr \<Longrightarrow> heap_ok (h(p := b))"
  by (simp add: heap_ok_def)

text \<open>What \<open>realloc\<close> to a positive size does with a live block (or with null): nothing on
  failure, otherwise a block of the new size that starts with the old bytes.\<close>

lemma heap_realloc_cases:
  assumes "heap_ok h" and "p \<noteq> nullptr \<Longrightarrow> h p = Some old" and "p = nullptr \<Longrightarrow> old = []"
    and "p \<noteq> nullptr \<Longrightarrow> 0 < n"
  obtains (fail) "heap_realloc c p n h = (Inr nullptr, h)" and "fst c = nullptr \<or> h (fst c) \<noteq> None"
  | (block) q tail where "heap_realloc c p n h = (Inr q, h(p := None, q \<mapsto> take n old @ tail))"
      and "q \<noteq> nullptr" and "q = p \<or> h q = None" and "q = fst c" and "length tail = n - length old"
proof (cases "p = nullptr")
  case True
  show thesis
  proof (cases "fst c = nullptr \<or> h (fst c) \<noteq> None")
    case null: True
    show thesis
      by (rule fail) (use True null in \<open>simp_all add: heap_realloc_def heap_malloc_def\<close>)
  next
    case False
    show thesis
      by (rule block [of "fst c" "map (snd c) [0..<n]"])
        (use False True assms in \<open>auto simp: heap_realloc_def heap_malloc_def\<close>)
  qed
next
  case False
  with assms have p: "h p = Some old" "0 < n" by auto
  show thesis
  proof (cases "fst c = p")
    case True
    show thesis
      by (rule block [of p "map (snd c) [length old..<n]"])
        (use False True p in \<open>auto simp: heap_realloc_def Let_def\<close>)
  next
    case moved: False
    show thesis
    proof (cases "fst c = nullptr \<or> h (fst c) \<noteq> None")
      case True
      show thesis
        by (rule fail) (use False moved True p in \<open>simp_all add: heap_realloc_def Let_def\<close>)
    next
      case ok: False
      show thesis
        by (rule block [of "fst c" "map (snd c) [length old..<n]"])
          (use False moved ok p in \<open>auto simp: heap_realloc_def Let_def\<close>)
    qed
  qed
qed

lemma heap_write_in_bounds [heap_simps]:
  "h p = Some b \<Longrightarrow> off + length d \<le> length b \<Longrightarrow>
   heap_write p off d h = (Inr (), h(p \<mapsto> take off b @ d @ drop (off + length d) b))"
  by (simp add: heap_write_def)

lemma heap_read_block [heap_simps]: "h p = Some b \<Longrightarrow> n \<le> length b \<Longrightarrow> heap_read p n h = Inr (take n b)"
  by (simp add: heap_read_def)

end
