(* ===== verification/Buffer.thy ===== *)
theory Buffer
  imports C_Heap
begin

text \<open>
  \<^verbatim>\<open>container/buffer.hpp\<close>: the growable byte buffer that owns one heap block, and
  \<^verbatim>\<open>convert/buffer.hpp\<close>, which reads it as a string.

  An object is a record of its two members. Every operation takes the object and the heap and
  returns them with its result, since an exception leaves both behind. A \<open>const void*\<close> argument with a
  length is the list of the bytes it points to; they lie outside the block of the object itself.

  The locale \<open>byte_sink\<close> is the interface the serializers write to (\<open>append\<close> is virtual):
  a sequence of \<open>append\<close> calls, one chunk of bytes each.
\<close>

record buffer =
  buf_size :: nat
  buf_ptr :: addr

definition buffer_default :: buffer where
  "buffer_default = \<lparr>buf_size = 0, buf_ptr = nullptr\<rparr>"

definition buffer_ctor :: "choice \<Rightarrow> nat \<Rightarrow> nat \<Rightarrow> heap \<Rightarrow> buffer result \<times> heap" where
  "buffer_ctor c n size_of_type h =
     (let sz = wrap64 (n * size_of_type)
      in case heap_malloc c sz h of (p, h') \<Rightarrow>
           if p = nullptr then (Inl std_bad_alloc, h')
           else (Inr \<lparr>buf_size = sz, buf_ptr = p\<rparr>, h'))"

definition buffer_from_memory :: "choice \<Rightarrow> bytes \<Rightarrow> heap \<Rightarrow> buffer result \<times> heap" where
  "buffer_from_memory c address h =
     (case heap_realloc c (buf_ptr buffer_default) (length address) h of
        (Inl e, h1) \<Rightarrow> (Inl e, h1)
      | (Inr p, h1) \<Rightarrow>
          if p = nullptr then (Inl std_bad_alloc, h1)
          else (case heap_write p 0 address h1 of
                  (Inl e, h2) \<Rightarrow> (Inl e, h2)
                | (Inr _, h2) \<Rightarrow> (Inr \<lparr>buf_size = length address, buf_ptr = p\<rparr>, h2)))"

definition buffer_append :: "choice \<Rightarrow> bytes \<Rightarrow> buffer \<times> heap \<Rightarrow> unit result \<times> buffer \<times> heap" where
  "buffer_append c d s =
     (case s of (b, h) \<Rightarrow>
       (case heap_realloc c (buf_ptr b) (wrap64 (buf_size b + length d)) h of
          (Inl e, h1) \<Rightarrow> (Inl e, b, h1)
        | (Inr p, h1) \<Rightarrow>
            if p = nullptr then (Inl std_bad_alloc, b, h1)
            else (let b1 = b\<lparr>buf_ptr := p\<rparr>
                  in case heap_write p (buf_size b1) d h1 of
                       (Inl e, h2) \<Rightarrow> (Inl e, b1, h2)
                     | (Inr _, h2) \<Rightarrow>
                         (Inr (), b1\<lparr>buf_size := wrap64 (buf_size b1 + length d)\<rparr>, h2))))"

definition buffer_assign ::
  "choice \<Rightarrow> bool \<Rightarrow> buffer \<Rightarrow> buffer \<times> heap \<Rightarrow> unit result \<times> buffer \<times> heap" where
  "buffer_assign c is_self other s =
     (case s of (b, h) \<Rightarrow>
       if is_self then (Inr (), b, h)
       else if buf_ptr other = nullptr then
         (Inl (runtime_error ''cbeam::container::buffer copy assignment operator has been passed a default constructed (therefore invalid) instance''), b, h)
       else (case heap_realloc c (buf_ptr b) (buf_size other) h of
          (Inl e, h1) \<Rightarrow> (Inl e, b, h1)
        | (Inr p, h1) \<Rightarrow>
            if p = nullptr then (Inl std_bad_alloc, b, h1)
            else (let b1 = b\<lparr>buf_ptr := p\<rparr>
                  in case heap_read (buf_ptr other) (buf_size other) h1 of
                       Inl e \<Rightarrow> (Inl e, b1, h1)
                     | Inr d \<Rightarrow>
                         (case heap_write p 0 d h1 of
                            (Inl e, h2) \<Rightarrow> (Inl e, b1, h2)
                          | (Inr _, h2) \<Rightarrow> (Inr (), b1\<lparr>buf_size := buf_size other\<rparr>, h2)))))"

definition buffer_copy_ctor :: "choice \<Rightarrow> buffer \<Rightarrow> heap \<Rightarrow> buffer result \<times> heap" where
  "buffer_copy_ctor c other h =
     (case buffer_assign c False other (buffer_default, h) of
        (Inl e, _, h') \<Rightarrow> (Inl e, h')
      | (Inr _, b, h') \<Rightarrow> (Inr b, h'))"

definition buffer_reset :: "buffer \<times> heap \<Rightarrow> unit result \<times> buffer \<times> heap" where
  "buffer_reset s =
     (case s of (b, h) \<Rightarrow>
       (case heap_free (buf_ptr b) h of
          (Inl e, h') \<Rightarrow> (Inl e, b, h')
        | (Inr _, h') \<Rightarrow> (Inr (), b\<lparr>buf_ptr := nullptr, buf_size := 0\<rparr>, h')))"

definition buffer_dtor :: "buffer \<times> heap \<Rightarrow> unit result \<times> heap" where
  "buffer_dtor s = (case buffer_reset s of (r, _, h') \<Rightarrow> (r, h'))"

definition buffer_swap :: "buffer \<Rightarrow> buffer \<Rightarrow> buffer \<times> buffer" where
  "buffer_swap a b =
     (a\<lparr>buf_ptr := buf_ptr b, buf_size := buf_size b\<rparr>, b\<lparr>buf_ptr := buf_ptr a, buf_size := buf_size a\<rparr>)"

definition buffer_to_string :: "buffer \<Rightarrow> heap \<Rightarrow> string result" where
  "buffer_to_string b h =
     (if buf_ptr b = nullptr \<and> buf_size b = 0 then Inr []
      else (case heap_read (buf_ptr b) (buf_size b) h of
              Inl e \<Rightarrow> Inl e
            | Inr d \<Rightarrow> Inr (map char_of_byte d)))"

section \<open>Invariant and contents\<close>

definition buffer_ok :: "buffer \<times> heap \<Rightarrow> bool" where
  "buffer_ok s \<longleftrightarrow>
     (case s of (b, h) \<Rightarrow>
       heap_ok h \<and> buf_size b < size_limit \<and>
       (if buf_ptr b = nullptr then buf_size b = 0
        else (case h (buf_ptr b) of None \<Rightarrow> False | Some d \<Rightarrow> length d = buf_size b)))"

definition buffer_bytes :: "buffer \<times> heap \<Rightarrow> bytes" where
  "buffer_bytes s =
     (case s of (b, h) \<Rightarrow> if buf_ptr b = nullptr then [] else (case h (buf_ptr b) of None \<Rightarrow> [] | Some d \<Rightarrow> d))"

lemma buffer_ok_default [simp]: "buffer_ok (buffer_default, h) \<longleftrightarrow> heap_ok h"
  by (simp add: buffer_ok_def buffer_default_def)

lemma buffer_bytes_default [simp]: "buffer_bytes (buffer_default, h) = []"
  by (simp add: buffer_bytes_def buffer_default_def)

lemma buffer_ok_block:
  assumes "buffer_ok (b, h)"
  shows "heap_ok h" and "buf_size b < size_limit" and "length (buffer_bytes (b, h)) = buf_size b"
    and "buffer_bytes (b, h) \<noteq> [] \<longleftrightarrow> 0 < buf_size b"
    and "buf_ptr b \<noteq> nullptr \<Longrightarrow> h (buf_ptr b) = Some (buffer_bytes (b, h))"
    and "buf_ptr b = nullptr \<Longrightarrow> buffer_bytes (b, h) = []"
  using assms
  by (auto simp: buffer_ok_def buffer_bytes_def simp flip: length_greater_0_conv
      split: if_splits option.splits)

section \<open>Append\<close>

text \<open>The two outcomes of \<open>append\<close> on a well-formed buffer: no memory, with nothing changed, or
  the bytes added at the end. No other block of the heap changes.\<close>

lemma buffer_append_cases:
  assumes ok: "buffer_ok (b, h)" and small: "buf_size b + length d < size_limit"
    and pos: "buf_ptr b = nullptr \<or> 0 < buf_size b + length d"
  obtains (oom) "buffer_append c d (b, h) = (Inl std_bad_alloc, b, h)" and "fst c = nullptr \<or> h (fst c) \<noteq> None"
  | (grown) q where "q \<noteq> nullptr" and "q = buf_ptr b \<or> h q = None" and "q = fst c"
      and "buffer_append c d (b, h) =
         (Inr (), \<lparr>buf_size = buf_size b + length d, buf_ptr = q\<rparr>,
          h(buf_ptr b := None, q \<mapsto> buffer_bytes (b, h) @ d))"
proof -
  note facts = buffer_ok_block [OF ok]
  let ?n = "buf_size b + length d"
  show thesis
  proof (rule heap_realloc_cases [of h "buf_ptr b" "buffer_bytes (b, h)" ?n c])
    assume "heap_realloc c (buf_ptr b) ?n h = (Inr nullptr, h)" and "fst c = nullptr \<or> h (fst c) \<noteq> None"
    then show thesis
      using small by (intro oom) (simp_all add: buffer_append_def)
  next
    fix q tail
    assume r: "heap_realloc c (buf_ptr b) ?n h =
        (Inr q, h(buf_ptr b := None, q \<mapsto> take ?n (buffer_bytes (b, h)) @ tail))"
      and q: "q \<noteq> nullptr" "q = buf_ptr b \<or> h q = None" "q = fst c"
      and tail: "length tail = ?n - length (buffer_bytes (b, h))"
    have "heap_write q (buf_size b) d (h(buf_ptr b := None, q \<mapsto> buffer_bytes (b, h) @ tail))
        = (Inr (), h(buf_ptr b := None, q \<mapsto> buffer_bytes (b, h) @ d))"
      using tail facts(3) by (subst heap_write_in_bounds) auto
    then show thesis
      using r q small facts(3) by (intro grown [of q]) (auto simp: buffer_append_def)
  qed (use facts pos in auto)
qed

lemma buffer_append_ok:
  assumes "buffer_ok (b, h)" and "buf_size b + length d < size_limit"
    and "buf_ptr b = nullptr \<or> 0 < buf_size b + length d"
    and "buffer_append c d (b, h) = (r, s')"
  shows "buffer_ok s' \<and>
    buffer_bytes s' = buffer_bytes (b, h) @ (if r = Inr () then d else []) \<and>
    (r = Inr () \<or> r = Inl std_bad_alloc \<and> s' = (b, h))"
proof (cases rule: buffer_append_cases [OF assms(1,2,3), where c = c])
  case 1
  with assms show ?thesis by auto
next
  case (2 q)
  then show ?thesis
    using assms buffer_ok_block [OF assms(1)] by (auto simp: buffer_ok_def buffer_bytes_def)
qed

lemma buffer_append_frame:
  assumes "buffer_ok (b, h)" and "buf_size b + length d < size_limit"
    and "buf_ptr b = nullptr \<or> 0 < buf_size b + length d"
    and "buffer_append c d (b, h) = (r, b', h')" and "h p = Some x" and "p \<noteq> buf_ptr b"
  shows "h' p = Some x"
  using assms(4-) by (cases rule: buffer_append_cases [OF assms(1,2,3), where c = c]) auto

section \<open>The interface of the serializers: a sequence of appends\<close>

fun append_all ::
  "('c \<Rightarrow> bytes \<Rightarrow> 's \<Rightarrow> unit result \<times> 's) \<Rightarrow> (nat \<Rightarrow> 'c) \<Rightarrow> bytes list \<Rightarrow> 's \<Rightarrow> unit result \<times> 's" where
  "append_all app cs [] s = (Inr (), s)"
| "append_all app cs (d # ds) s =
     (case app (cs 0) d s of
        (Inl e, s') \<Rightarrow> (Inl e, s')
      | (Inr _, s') \<Rightarrow> append_all app (\<lambda>i. cs (Suc i)) ds s')"

text \<open>An empty chunk is only ever appended after a non-empty one.\<close>

fun chunks_ok :: "bool \<Rightarrow> bytes list \<Rightarrow> bool" where
  "chunks_ok started [] = True"
| "chunks_ok started (d # ds) = ((started \<or> d \<noteq> []) \<and> chunks_ok True ds)"

lemma chunks_ok_started [simp]: "chunks_ok True ds"
  by (induction ds) auto

lemma chunks_ok_append: "chunks_ok st ds \<Longrightarrow> ds \<noteq> [] \<Longrightarrow> chunks_ok st (ds @ es)"
  by (cases ds) auto

locale byte_sink =
  fixes append :: "'c \<Rightarrow> bytes \<Rightarrow> 's \<Rightarrow> unit result \<times> 's"
    and content :: "'s \<Rightarrow> bytes"
    and ok :: "'s \<Rightarrow> bool"
  assumes append_ok: "ok s \<Longrightarrow> length (content s) + length d < size_limit \<Longrightarrow> d \<noteq> [] \<or> content s \<noteq> [] \<Longrightarrow>
      append c d s = (Inr u, s') \<Longrightarrow> ok s' \<and> content s' = content s @ d"
    and append_throws: "ok s \<Longrightarrow> length (content s) + length d < size_limit \<Longrightarrow> d \<noteq> [] \<or> content s \<noteq> [] \<Longrightarrow>
      append c d s = (Inl e, s') \<Longrightarrow> ok s' \<and> content s' = content s \<and> \<not> is_undefined e"
begin

lemma append_all_content:
  assumes "ok s" and "length (content s) + length (concat ds) < size_limit"
    and "chunks_ok (content s \<noteq> []) ds" and "append_all append cs ds s = (Inr u, s')"
  shows "ok s' \<and> content s' = content s @ concat ds"
  using assms
proof (induction ds arbitrary: s cs)
  case Nil
  then show ?case by simp
next
  case (Cons d ds)
  obtain r s1 where s1: "append (cs 0) d s = (r, s1)" by force
  with Cons.prems obtain v where r: "r = Inr v"
    by (cases r) auto
  from append_ok [OF Cons.prems(1) _ _ s1 [unfolded r]] Cons.prems
  have "ok s1" and c1: "content s1 = content s @ d" by auto
  moreover have "append_all append (\<lambda>i. cs (Suc i)) ds s1 = (Inr u, s')"
    using Cons.prems(4) s1 r by simp
  moreover have "chunks_ok (content s1 \<noteq> []) ds"
    using c1 Cons.prems(3) by auto
  ultimately show ?case
    using Cons.IH [of s1] Cons.prems(2) by simp
qed

lemma append_all_throws:
  assumes "ok s" and "length (content s) + length (concat ds) < size_limit"
    and "chunks_ok (content s \<noteq> []) ds" and "append_all append cs ds s = (Inl e, s')"
  shows "ok s' \<and> \<not> is_undefined e \<and> (\<exists>k < length ds. content s' = content s @ concat (take k ds))"
  using assms
proof (induction ds arbitrary: s cs)
  case Nil
  then show ?case by simp
next
  case (Cons d ds)
  obtain r s1 where s1: "append (cs 0) d s = (r, s1)" by force
  show ?case
  proof (cases r)
    case (Inl e')
    with Cons.prems s1 have "e' = e" and "s1 = s'" by auto
    with append_throws [OF Cons.prems(1) _ _ s1 [unfolded Inl]] Cons.prems(2,3)
    show ?thesis by auto
  next
    case (Inr v)
    from append_ok [OF Cons.prems(1) _ _ s1 [unfolded Inr]] Cons.prems
    have "ok s1" and c1: "content s1 = content s @ d" by auto
    moreover have "append_all append (\<lambda>i. cs (Suc i)) ds s1 = (Inl e, s')"
      using Cons.prems(4) s1 Inr by simp
    moreover have "chunks_ok (content s1 \<noteq> []) ds"
      using c1 Cons.prems(3) by auto
    ultimately have "ok s' \<and> \<not> is_undefined e \<and> (\<exists>k < length ds. content s' = content s1 @ concat (take k ds))"
      using Cons.IH [of s1] Cons.prems(2) by simp
    then show ?thesis
      using c1 by (auto intro: exI [of _ "Suc _"])
  qed
qed

end

interpretation buffer_sink: byte_sink buffer_append buffer_bytes buffer_ok
proof
  fix s d c u s'
  assume ok: "buffer_ok s" and "length (buffer_bytes s) + length d < size_limit"
    and "d \<noteq> [] \<or> buffer_bytes s \<noteq> []" and "buffer_append c d s = (Inr u, s')"
  then show "buffer_ok s' \<and> buffer_bytes s' = buffer_bytes s @ d"
    using buffer_append_ok [of "fst s" "snd s" d c "Inr u" s'] buffer_ok_block [of "fst s" "snd s"]
    by (cases s) auto
next
  fix s d c e s'
  assume "buffer_ok s" and "length (buffer_bytes s) + length d < size_limit"
    and "d \<noteq> [] \<or> buffer_bytes s \<noteq> []" and "buffer_append c d s = (Inl e, s')"
  then show "buffer_ok s' \<and> buffer_bytes s' = buffer_bytes s \<and> \<not> is_undefined e"
    using buffer_append_ok [of "fst s" "snd s" d c "Inl e" s'] buffer_ok_block [of "fst s" "snd s"]
    by (cases s) auto
qed

section \<open>Construction, copying, destruction\<close>

lemma buffer_ctor_ok:
  assumes "heap_ok h" and "buffer_ctor c n w h = (Inr b, h')"
  shows "buffer_ok (b, h')" and "buf_size b = wrap64 (n * w)" and "h (buf_ptr b) = None"
  using assms by (auto simp: buffer_ctor_def heap_malloc_def Let_def buffer_ok_def split: if_splits)

text \<open>Deep copy: afterwards both buffers hold the bytes of \<open>other\<close>, in different blocks.\<close>

lemma buffer_assign_ok:
  assumes ok: "buffer_ok (b, h)" and other: "buffer_ok (ob, h)" and live: "buf_ptr ob \<noteq> nullptr"
    and apart: "buf_ptr b \<noteq> buf_ptr ob" and pos: "0 < buf_size ob"
    and run: "buffer_assign c False ob (b, h) = (Inr u, b', h')"
  shows "buffer_ok (b', h')" and "buffer_ok (ob, h')"
    and "buffer_bytes (b', h') = buffer_bytes (ob, h)"
    and "buffer_bytes (ob, h') = buffer_bytes (ob, h)" and "buf_ptr b' \<noteq> buf_ptr ob"
proof -
  note fb = buffer_ok_block [OF ok] and fo = buffer_ok_block [OF other]
  obtain D where D: "h (buf_ptr ob) = Some D" "buffer_bytes (ob, h) = D"
    using fo(5) [OF live] by blast
  have "buffer_ok (b', h') \<and> buffer_ok (ob, h') \<and> buffer_bytes (b', h') = buffer_bytes (ob, h) \<and>
    buffer_bytes (ob, h') = buffer_bytes (ob, h) \<and> buf_ptr b' \<noteq> buf_ptr ob"
  proof (rule heap_realloc_cases [of h "buf_ptr b" "buffer_bytes (b, h)" "buf_size ob" c])
    assume "heap_realloc c (buf_ptr b) (buf_size ob) h = (Inr nullptr, h)"
    with run live show ?thesis by (simp add: buffer_assign_def)
  next
    fix q tail
    let ?new = "take (buf_size ob) (buffer_bytes (b, h)) @ tail"
    let ?h1 = "h(buf_ptr b := None, q \<mapsto> ?new)"
    assume r: "heap_realloc c (buf_ptr b) (buf_size ob) h = (Inr q, ?h1)"
      and q: "q \<noteq> nullptr" "q = buf_ptr b \<or> h q = None"
      and tail: "length tail = buf_size ob - length (buffer_bytes (b, h))"
    have qo: "q \<noteq> buf_ptr ob" using q apart D(1) by auto
    have "?h1 (buf_ptr ob) = Some (buffer_bytes (ob, h))"
      using qo apart D by simp
    then have rd: "heap_read (buf_ptr ob) (buf_size ob) ?h1 = Inr (buffer_bytes (ob, h))"
      using fo(3) by (subst heap_read_block) auto
    have "length ?new = buf_size ob"
      using tail by simp
    then have "heap_write q 0 (buffer_bytes (ob, h)) ?h1 = (Inr (), ?h1(q \<mapsto> buffer_bytes (ob, h)))"
      using fo(3) by (subst heap_write_in_bounds) auto
    with run r rd q live have "b' = b\<lparr>buf_ptr := q, buf_size := buf_size ob\<rparr>"
      and "h' = h(buf_ptr b := None, q \<mapsto> buffer_bytes (ob, h))"
      by (auto simp: buffer_assign_def)
    moreover have "length (buffer_bytes (ob, h)) = buf_size ob" and "heap_ok h"
      and "buf_size ob < size_limit"
      by (fact fo(3), fact fo(1), fact fo(2))
    moreover have "heap_ok (h(buf_ptr b := None))"
      using fo(1) by (simp add: heap_ok_def)
    ultimately show ?thesis
      using q(1) qo apart live D by (simp add: buffer_ok_def buffer_bytes_def)
  qed (use fb pos in auto)
  then show "buffer_ok (b', h')" "buffer_ok (ob, h')"
    "buffer_bytes (b', h') = buffer_bytes (ob, h)"
    "buffer_bytes (ob, h') = buffer_bytes (ob, h)" "buf_ptr b' \<noteq> buf_ptr ob"
    by auto
qed

lemma buffer_reset_ok:
  assumes "buffer_ok (b, h)"
  shows "buffer_reset (b, h) = (Inr (), buffer_default, h(buf_ptr b := None))"
  using assms
  by (auto simp: buffer_reset_def buffer_default_def buffer_ok_def heap_free_def
      split: if_splits option.splits)

lemma buffer_to_string_ok:
  assumes "buffer_ok (b, h)"
  shows "buffer_to_string b h = Inr (map char_of_byte (buffer_bytes (b, h)))"
  using assms
  by (auto simp: buffer_to_string_def buffer_ok_def buffer_bytes_def heap_read_def
      split: if_splits option.splits)



text \<open>Deep copy. A buffer that has been assigned another one owns its own block with the same bytes, and the
  assigned one is as before: writing to one cannot be seen through the other.\<close>

lemma buffer_assign_deep_copy:
  assumes "buffer_ok (b, h)" and "buffer_ok (other, h)" and "buf_ptr other \<noteq> nullptr"
    and "buf_ptr b \<noteq> buf_ptr other" and "0 < buf_size other"
    and "buffer_assign c False other (b, h) = (Inr u, b', h')"
  shows "buffer_ok (b', h') \<and> buffer_bytes (b', h') = buffer_bytes (other, h) \<and> buf_ptr b' \<noteq> buf_ptr other \<and>
    buffer_ok (other, h') \<and> buffer_bytes (other, h') = buffer_bytes (other, h)"
  using buffer_assign_ok [OF assms] by blast

lemma buffer_assign_deep_copy_witness:
  "buf_ptr (fst (snd (buffer_assign (48, \<lambda>_. 0) False \<lparr>buf_size = 1, buf_ptr = 32\<rparr>
     (\<lparr>buf_size = 2, buf_ptr = 16\<rparr>, [16 \<mapsto> [1, 2], 32 \<mapsto> [7]])))) \<noteq> 32"
proof -
  have "buffer_assign (48, \<lambda>_. 0) False \<lparr>buf_size = 1, buf_ptr = 32\<rparr> (\<lparr>buf_size = 2, buf_ptr = 16\<rparr>, [16 \<mapsto> [1, 2], 32 \<mapsto> [7]])
      = (Inr (), \<lparr>buf_size = 1, buf_ptr = 48\<rparr>, [32 \<mapsto> [7], 48 \<mapsto> [7]])"
    by (simp add: buffer_assign_def heap_realloc_def heap_write_def heap_read_def size_limit_def fun_eq_iff)
  then show ?thesis
    using buffer_assign_deep_copy [of "\<lparr>buf_size = 2, buf_ptr = 16\<rparr>" "[16 \<mapsto> [1, 2], 32 \<mapsto> [7]]"
        "\<lparr>buf_size = 1, buf_ptr = 32\<rparr>" "(48, \<lambda>_. 0)" "()" "\<lparr>buf_size = 1, buf_ptr = 48\<rparr>" "[32 \<mapsto> [7], 48 \<mapsto> [7]]"]
    by (simp add: buffer_ok_def heap_ok_def size_limit_def)
qed

end
