(* ===== verification/Serialization.thy ===== *)
theory Serialization
  imports Nested_Map Buffer
begin

text \<open>
  \<^verbatim>\<open>include/cbeam/serialization\<close>: the binary format. A serializer is the list of the byte chunks
  it passes to \<open>append\<close>, in order; a deserializer takes the memory from its
  iterator on and returns the object with the memory from the advanced iterator on. Reading past
  the end of the memory is undefined behaviour, as the code checks no bound.

  The locale \<open>codec\<close> is the contract of a \<open>traits<T>\<close> specialization; \<open>map_codec\<close> derives
  the contract of \<open>traits<std::map<K, V>>\<close> from those of its key and value.
\<close>

section \<open>Plain types\<close>

definition traits_serialize :: "nat \<Rightarrow> nat \<Rightarrow> bytes list" where
  "traits_serialize sizeof_val val = [le_bytes sizeof_val val]"

definition traits_deserialize :: "nat \<Rightarrow> bytes \<Rightarrow> (nat \<times> bytes) result" where
  "traits_deserialize sizeof_val it =
     (if length it < sizeof_val then Inl (undefined_behaviour out_of_bounds)
      else Inr (le_nat (take sizeof_val it), drop sizeof_val it))"

lemma traits_deserialize_le_bytes [codec_simps]:
  "traits_deserialize n (le_bytes n x @ rest) = Inr (x mod 256 ^ n, rest)"
  by (simp add: traits_deserialize_def le_nat_le_bytes)

text \<open>The instances the library uses: \<open>std::size_t\<close> and pointers (8 bytes), \<open>int\<close> (4 bytes), \<open>char\<close>.\<close>

definition ser_size :: "nat \<Rightarrow> bytes list" where
  "ser_size n = traits_serialize 8 n"

definition deser_size :: "bytes \<Rightarrow> (nat \<times> bytes) result" where
  "deser_size it = traits_deserialize 8 it"

definition ser_ptr :: "addr \<Rightarrow> bytes list" where
  "ser_ptr p = traits_serialize 8 (unat p)"

definition deser_ptr :: "bytes \<Rightarrow> (addr \<times> bytes) result" where
  "deser_ptr it = (case traits_deserialize 8 it of Inl e \<Rightarrow> Inl e | Inr (n, r) \<Rightarrow> Inr (of_nat n, r))"

definition ser_int :: "32 word \<Rightarrow> bytes list" where
  "ser_int w = traits_serialize 4 (unat w)"

definition deser_int :: "bytes \<Rightarrow> (32 word \<times> bytes) result" where
  "deser_int it = (case traits_deserialize 4 it of Inl e \<Rightarrow> Inl e | Inr (n, r) \<Rightarrow> Inr (of_nat n, r))"

definition ser_char :: "char \<Rightarrow> bytes list" where
  "ser_char c = traits_serialize 1 (of_char c)"

section \<open>The contract of a traits specialization\<close>

locale codec =
  fixes ser :: "'a \<Rightarrow> bytes list"
    and deser :: "bytes \<Rightarrow> ('a \<times> bytes) result"
    and valid :: "'a \<Rightarrow> bool"
  assumes roundtrip: "valid x \<Longrightarrow> deser (concat (ser x) @ rest) = Inr (x, rest)"
    and chunks: "ser x \<noteq> []" "chunks_ok False (ser x)"
begin

lemma ser_inject:
  assumes "valid x" and "valid y" and "concat (ser x) = concat (ser y)"
  shows "x = y"
proof -
  have "Inr (x, []) = deser (concat (ser x) @ [])"
    using assms(1) by (simp only: roundtrip)
  also have "\<dots> = deser (concat (ser y) @ [])"
    by (simp add: assms(3))
  also have "\<dots> = Inr (y, [])"
    using assms(2) by (simp only: roundtrip)
  finally show ?thesis by simp
qed

text \<open>No serialized object is a proper prefix of another: objects can be stored back to back.\<close>

lemma ser_prefix_free:
  assumes "valid x" and "valid y" and "concat (ser x) @ r = concat (ser y) @ r'"
  shows "x = y \<and> r = r'"
proof -
  have "Inr (x, r) = deser (concat (ser x) @ r)"
    using assms(1) by (simp only: roundtrip)
  also have "\<dots> = Inr (y, r')"
    using assms(2,3) by (simp only: roundtrip)
  finally show ?thesis by simp
qed

end

lemma mod_256_small:
  "n < size_limit \<Longrightarrow> n mod 256 ^ 8 = n"
  "unat (p :: addr) mod 256 ^ 8 = unat p"
  "unat (w :: 32 word) mod 256 ^ 4 = unat w"
  using unsigned_less [of p, where 'a = nat] unsigned_less [of w, where 'a = nat]
  by (simp_all add: size_limit_def)

lemmas plain_codec_simps =
  traits_serialize_def traits_deserialize_le_bytes mod_256_small [simplified]

interpretation size_codec: codec ser_size deser_size "\<lambda>n. n < size_limit"
  by unfold_locales (simp_all add: ser_size_def deser_size_def plain_codec_simps)

interpretation ptr_codec: codec ser_ptr deser_ptr "\<lambda>_. True"
  by unfold_locales (simp_all add: ser_ptr_def deser_ptr_def plain_codec_simps)

interpretation int_codec: codec ser_int deser_int "\<lambda>_. True"
  by unfold_locales (simp_all add: ser_int_def deser_int_def plain_codec_simps)

section \<open>Strings\<close>

definition ser_string :: "string \<Rightarrow> bytes list" where
  "ser_string str = ser_size (length str) @ concat (map ser_char str)"

definition deser_string :: "bytes \<Rightarrow> (string \<times> bytes) result" where
  "deser_string it =
     (case deser_size it of
        Inl e \<Rightarrow> Inl e
      | Inr (n, localIt) \<Rightarrow>
          if length localIt < n then Inl (undefined_behaviour out_of_bounds)
          else Inr (map char_of_byte (take n localIt), drop n localIt))"

lemma concat_ser_char [simp]: "concat (concat (map ser_char str)) = map byte_of_char str"
  by (induction str) (simp_all add: ser_char_def traits_serialize_def byte_of_char_def)

lemma char_of_byte_map [simp]: "map char_of_byte (map byte_of_char s) = s"
  by (simp add: comp_def)

lemma deser_size_le_bytes [codec_simps]:
  "n < size_limit \<Longrightarrow> deser_size (le_bytes 8 n @ rest) = Inr (n, rest)"
  by (simp add: deser_size_def plain_codec_simps)

interpretation string_codec: codec ser_string deser_string "\<lambda>s. length s < size_limit"
proof
  fix s :: string and rest
  assume "length s < size_limit"
  then show "deser_string (concat (ser_string s) @ rest) = Inr (s, rest)"
    by (simp add: ser_string_def deser_string_def ser_size_def traits_serialize_def codec_simps
        del: map_map)
qed (simp_all add: ser_string_def ser_size_def traits_serialize_def)

section \<open>Maps\<close>

definition ser_map :: "('k \<Rightarrow> bytes list) \<Rightarrow> ('v \<Rightarrow> bytes list) \<Rightarrow> ('k, 'v) smap \<Rightarrow> bytes list" where
  "ser_map serk serv m = ser_size (length m) @ concat (map (\<lambda>(k, v). serk k @ serv v) m)"

fun deser_entries ::
  "(bytes \<Rightarrow> ('k::linorder \<times> bytes) result) \<Rightarrow> (bytes \<Rightarrow> ('v \<times> bytes) result) \<Rightarrow> nat \<Rightarrow>
   ('k, 'v) smap \<Rightarrow> bytes \<Rightarrow> (('k, 'v) smap \<times> bytes) result" where
  "deser_entries deserk deserv 0 m it = Inr (m, it)"
| "deser_entries deserk deserv (Suc n) m it =
     (case deserk it of
        Inl e \<Rightarrow> Inl e
      | Inr (k, it1) \<Rightarrow>
          (case deserv it1 of
             Inl e \<Rightarrow> Inl e
           | Inr (v, it2) \<Rightarrow> deser_entries deserk deserv n (smap_insert k v m) it2))"

definition deser_map ::
  "(bytes \<Rightarrow> ('k::linorder \<times> bytes) result) \<Rightarrow> (bytes \<Rightarrow> ('v \<times> bytes) result) \<Rightarrow>
   bytes \<Rightarrow> (('k, 'v) smap \<times> bytes) result" where
  "deser_map deserk deserv it =
     (case deser_size it of
        Inl e \<Rightarrow> Inl e
      | Inr (n, it1) \<Rightarrow> deser_entries deserk deserv n [] it1)"

definition valid_map :: "('k::linorder \<Rightarrow> bool) \<Rightarrow> ('v \<Rightarrow> bool) \<Rightarrow> ('k, 'v) smap \<Rightarrow> bool" where
  "valid_map vk vv m \<longleftrightarrow> smap_ok m \<and> length m < size_limit \<and> list_all (\<lambda>(k, v). vk k \<and> vv v) m"

lemma deser_entries_ok:
  assumes "\<And>k rest. k \<in> fst ` set m \<Longrightarrow> deserk (concat (serk k) @ rest) = Inr (k, rest)"
    and "\<And>v rest. v \<in> snd ` set m \<Longrightarrow> deserv (concat (serv v) @ rest) = Inr (v, rest)"
    and "smap_ok (acc @ m)"
  shows "deser_entries deserk deserv (length m) acc
      (concat (concat (map (\<lambda>(k, v). serk k @ serv v) m)) @ rest) = Inr (acc @ m, rest)"
  using assms
proof (induction m arbitrary: acc)
  case Nil
  then show ?case by simp
next
  case (Cons e m)
  obtain k v where e: "e = (k, v)" by force
  have "smap_insert k v acc = acc @ [e]"
    unfolding e using Cons.prems(3) e by (intro smap_insert_snoc) (auto simp: smap_ok_append)
  moreover have "deser_entries deserk deserv (length m) (acc @ [e])
      (concat (concat (map (\<lambda>(k, v). serk k @ serv v) m)) @ rest) = Inr ((acc @ [e]) @ m, rest)"
    by (rule Cons.IH) (use Cons.prems in auto)
  ultimately show ?case
    using Cons.prems(1) [of k] Cons.prems(2) [of v] by (simp add: e)
qed

lemma deser_map_ok:
  assumes "\<And>k rest. k \<in> fst ` set m \<Longrightarrow> deserk (concat (serk k) @ rest) = Inr (k, rest)"
    and "\<And>v rest. v \<in> snd ` set m \<Longrightarrow> deserv (concat (serv v) @ rest) = Inr (v, rest)"
    and "smap_ok m" and "length m < size_limit"
  shows "deser_map deserk deserv (concat (ser_map serk serv m) @ rest) = Inr (m, rest)"
  using deser_entries_ok [of m deserk serk deserv serv "[]" rest] assms
  by (simp add: ser_map_def deser_map_def ser_size_def traits_serialize_def codec_simps)

lemma ser_map_chunks: "ser_map serk serv m \<noteq> []" "chunks_ok False (ser_map serk serv m)"
  by (simp_all add: ser_map_def ser_size_def traits_serialize_def)

locale map_codec = key: codec serk deserk validk + val: codec serv deserv validv
  for serk :: "'k::linorder \<Rightarrow> bytes list" and deserk validk
    and serv :: "'v \<Rightarrow> bytes list" and deserv validv
begin

sublocale entries: codec "ser_map serk serv" "deser_map deserk deserv" "valid_map validk validv"
proof
  fix m :: "('k, 'v) smap" and rest
  assume "valid_map validk validv m"
  then show "deser_map deserk deserv (concat (ser_map serk serv m) @ rest) = Inr (m, rest)"
    by (intro deser_map_ok) (auto simp: valid_map_def list_all_iff intro!: key.roundtrip val.roundtrip)
qed (rule ser_map_chunks)+

end

interpretation use_count_codec: map_codec ser_ptr deser_ptr "\<lambda>_. True" ser_int deser_int "\<lambda>_. True"
  by unfold_locales

interpretation string_map_codec: map_codec ser_string deser_string "\<lambda>s. length s < size_limit"
  ser_string deser_string "\<lambda>s. length s < size_limit"
  by unfold_locales

section \<open>Nested maps\<close>

primrec ser_nested ::
  "('k \<Rightarrow> bytes list) \<Rightarrow> ('v \<Rightarrow> bytes list) \<Rightarrow> ('k, 'v) nested_map \<Rightarrow> bytes list" where
  "ser_nested serk serv (Nested_Map d s) =
     ser_map serk serv d @ ser_map serk (\<lambda>sub. sub) (map (map_prod id (ser_nested serk serv)) s)"

text \<open>The reader recurses once per nesting level; the fuel bounds the depth it follows.\<close>

primrec deser_nested_fuel ::
  "(bytes \<Rightarrow> ('k::linorder \<times> bytes) result) \<Rightarrow> (bytes \<Rightarrow> ('v \<times> bytes) result) \<Rightarrow> nat \<Rightarrow>
   bytes \<Rightarrow> (('k, 'v) nested_map \<times> bytes) result" where
  "deser_nested_fuel deserk deserv 0 it = Inl model_out_of_fuel"
| "deser_nested_fuel deserk deserv (Suc fuel) it =
     (case deser_map deserk deserv it of
        Inl e \<Rightarrow> Inl e
      | Inr (d, it1) \<Rightarrow>
          (case deser_map deserk (deser_nested_fuel deserk deserv fuel) it1 of
             Inl e \<Rightarrow> Inl e
           | Inr (s, it2) \<Rightarrow> Inr (Nested_Map d s, it2)))"

text \<open>Every level occupies at least the two element counts, so a fuel of the number of
  bytes is enough.\<close>

definition deser_nested ::
  "(bytes \<Rightarrow> ('k::linorder \<times> bytes) result) \<Rightarrow> (bytes \<Rightarrow> ('v \<times> bytes) result) \<Rightarrow>
   bytes \<Rightarrow> (('k, 'v) nested_map \<times> bytes) result" where
  "deser_nested deserk deserv it = deser_nested_fuel deserk deserv (Suc (length it)) it"

primrec valid_nested ::
  "('k::linorder \<Rightarrow> bool) \<Rightarrow> ('v \<Rightarrow> bool) \<Rightarrow> ('k, 'v) nested_map \<Rightarrow> bool" where
  "valid_nested vk vv (Nested_Map d s) \<longleftrightarrow>
     valid_map vk vv d \<and> valid_map vk (\<lambda>b. b) (map (map_prod id (valid_nested vk vv)) s)"

lemma ser_map_map_snd: "ser_map serk serv (map (map_prod id f) s) = ser_map serk (serv \<circ> f) s"
  by (simp add: ser_map_def case_prod_unfold comp_def)

lemma valid_map_map_snd: "valid_map vk vv (map (map_prod id f) s) = valid_map vk (vv \<circ> f) s"
  by (simp add: valid_map_def smap_ok_def list_all_iff case_prod_unfold comp_def)

lemma length_concat_ge: "x \<in> set xs \<Longrightarrow> length x \<le> length (concat xs)"
  by (induction xs) auto

lemma length_concat_concat_ge: "x \<in> set xs \<Longrightarrow> length (concat x) \<le> length (concat (concat xs))"
  by (induction xs) auto

lemma length_ser_map_ge: "8 \<le> length (concat (ser_map serk serv m))"
  by (simp add: ser_map_def ser_size_def traits_serialize_def)

lemma length_ser_map_value:
  assumes "v \<in> snd ` set m"
  shows "8 + length (concat (serv v)) \<le> length (concat (ser_map serk serv m))"
proof -
  from assms obtain k where "(k, v) \<in> set m" by force
  then have "serk k @ serv v \<in> set (map (\<lambda>(k, v). serk k @ serv v) m)" by force
  from length_concat_concat_ge [OF this] show ?thesis
    by (simp add: ser_map_def ser_size_def traits_serialize_def)
qed

lemma deser_nested_fuel_ok:
  assumes rk: "\<And>k rest. vk k \<Longrightarrow> deserk (concat (serk k) @ rest) = Inr (k, rest)"
    and rv: "\<And>v rest. vv v \<Longrightarrow> deserv (concat (serv v) @ rest) = Inr (v, rest)"
  shows "valid_nested vk vv m \<Longrightarrow> length (concat (ser_nested serk serv m)) \<le> fuel \<Longrightarrow>
    deser_nested_fuel deserk deserv fuel (concat (ser_nested serk serv m) @ rest) = Inr (m, rest)"
proof (induction m arbitrary: fuel rest)
  case (Nested_Map d s)
  let ?subs = "ser_map serk (ser_nested serk serv) s"
  have ser: "concat (ser_nested serk serv (Nested_Map d s)) = concat (ser_map serk serv d) @ concat ?subs"
    by (simp add: ser_map_map_snd comp_def)
  have vd: "valid_map vk vv d" and vs: "valid_map vk (valid_nested vk vv) s"
    using Nested_Map.prems(1) by (simp_all add: valid_map_map_snd comp_def)
  have "8 + length (concat ?subs) \<le> fuel"
    using Nested_Map.prems(2) length_ser_map_ge [of serk serv d] unfolding ser length_append
    by linarith
  then have "fuel = Suc (fuel - 1)" and "length (concat ?subs) \<le> fuel - 1"
    by linarith+
  then obtain f where f: "fuel = Suc f" and subs: "length (concat ?subs) \<le> f"
    by blast
  have "deser_map deserk deserv (concat (ser_map serk serv d) @ concat ?subs @ rest) = Inr (d, concat ?subs @ rest)"
    using vd by (intro deser_map_ok) (auto simp: valid_map_def list_all_iff intro!: rk rv)
  moreover have "deser_map deserk (deser_nested_fuel deserk deserv f) (concat ?subs @ rest) = Inr (s, rest)"
  proof (rule deser_map_ok)
    fix t rest
    assume t: "t \<in> snd ` set s"
    then obtain k where "(k, t) \<in> set s" by force
    moreover have "length (concat (ser_nested serk serv t)) \<le> f"
      using length_ser_map_value [OF t, of "ser_nested serk serv" serk] subs by linarith
    moreover have "valid_nested vk vv t"
      using vs t by (auto simp: valid_map_def list_all_iff)
    ultimately show "deser_nested_fuel deserk deserv f (concat (ser_nested serk serv t) @ rest) = Inr (t, rest)"
      by (intro Nested_Map.IH) auto
  qed (use vs in \<open>auto simp: valid_map_def list_all_iff intro!: rk\<close>)
  ultimately show ?case
    by (simp only: ser f deser_nested_fuel.simps append_assoc) simp
qed

locale nested_codec = key: codec serk deserk validk + val: codec serv deserv validv
  for serk :: "'k::linorder \<Rightarrow> bytes list" and deserk validk
    and serv :: "'v \<Rightarrow> bytes list" and deserv validv
begin

sublocale nested: codec "ser_nested serk serv" "deser_nested deserk deserv" "valid_nested validk validv"
proof
  fix m :: "('k, 'v) nested_map" and rest
  assume "valid_nested validk validv m"
  then show "deser_nested deserk deserv (concat (ser_nested serk serv m) @ rest) = Inr (m, rest)"
    unfolding deser_nested_def
    by (intro deser_nested_fuel_ok [of validk _ _ validv]) (simp_all add: key.roundtrip val.roundtrip)
next
  show "ser_nested serk serv m \<noteq> []" for m :: "('k, 'v) nested_map"
    using ser_map_chunks by (cases m) auto
  show "chunks_ok False (ser_nested serk serv m)" for m :: "('k, 'v) nested_map"
    by (cases m) (auto intro!: chunks_ok_append ser_map_chunks)
qed

end

section \<open>The xpod variant\<close>

definition ser_text :: "string \<Rightarrow> bytes list" where
  "ser_text s = [le_bytes 8 (length s), map byte_of_char s]"

definition ser_xpod :: "xpod \<Rightarrow> bytes list" where
  "ser_xpod v = [of_nat (xpod_index v)] #
     (case v of
        Integer w \<Rightarrow> [le_bytes 8 (unat w)]
      | Number d \<Rightarrow> [le_bytes 8 (unat d)]
      | Boolean b \<Rightarrow> [le_bytes 1 (if b then 1 else 0)]
      | Pointer p \<Rightarrow> ser_text (ptr_to_string p)
      | Str s \<Rightarrow> ser_text s)"

definition deser_text :: "bytes \<Rightarrow> (string \<times> bytes) result" where
  "deser_text localIt =
     (case deser_size localIt of
        Inl e \<Rightarrow> Inl e
      | Inr (strLen, r) \<Rightarrow>
          if length r < strLen then Inl (undefined_behaviour out_of_bounds)
          else Inr (map char_of_byte (take strLen r), drop strLen r))"

definition deser_xpod :: "bytes \<Rightarrow> (xpod \<times> bytes) result" where
  "deser_xpod it =
     (case it of
        [] \<Rightarrow> Inl (undefined_behaviour out_of_bounds)
      | i # localIt \<Rightarrow>
          if i = 0 then
            (case traits_deserialize 8 localIt of Inl e \<Rightarrow> Inl e | Inr (n, r) \<Rightarrow> Inr (Integer (of_nat n), r))
          else if i = 1 then
            (case traits_deserialize 8 localIt of Inl e \<Rightarrow> Inl e | Inr (n, r) \<Rightarrow> Inr (Number (of_nat n), r))
          else if i = 2 then
            (case traits_deserialize 1 localIt of
               Inl e \<Rightarrow> Inl e
             | Inr (n, r) \<Rightarrow>
                 if n = 0 then Inr (Boolean False, r) else if n = 1 then Inr (Boolean True, r)
                 else Inl (undefined_behaviour invalid_value))
          else if i = 3 then
            (case deser_text localIt of
               Inl e \<Rightarrow> Inl e
             | Inr (s, r) \<Rightarrow> (case ptr_from_string s of Inl e \<Rightarrow> Inl e | Inr p \<Rightarrow> Inr (Pointer p, r)))
          else if i = 4 then
            (case deser_text localIt of Inl e \<Rightarrow> Inl e | Inr (s, r) \<Rightarrow> Inr (Str s, r))
          else Inl (runtime_error ''cbeam::serialization::deserialize: invalid ByteStream''))"

fun valid_xpod :: "xpod \<Rightarrow> bool" where
  "valid_xpod (Str s) = (length s < size_limit)"
| "valid_xpod _ = True"

lemma deser_text_ok [codec_simps]:
  "length s < size_limit \<Longrightarrow> deser_text (concat (ser_text s) @ rest) = Inr (s, rest)"
  by (simp add: deser_text_def ser_text_def codec_simps del: map_map)

lemma deser_bool_byte [codec_simps]:
  "traits_deserialize (Suc 0) (b # rest) = Inr (unat b, rest)"
  by (simp add: traits_deserialize_def)

lemma deser_xpod_ok:
  assumes "valid_xpod v"
  shows "deser_xpod (concat (ser_xpod v) @ rest) = Inr (v, rest)"
  using assms
  by (cases v)
    (simp_all add: ser_xpod_def deser_xpod_def plain_codec_simps deser_text_ok deser_bool_byte
      ptr_from_string_to_string length_ptr_to_string)

interpretation xpod_codec: codec ser_xpod deser_xpod valid_xpod
  by unfold_locales (simp_all add: deser_xpod_ok, simp_all add: ser_xpod_def)

interpretation xpod_table_codec: nested_codec ser_string deser_string "\<lambda>s. length s < size_limit"
  ser_xpod deser_xpod valid_xpod
  by unfold_locales

section \<open>Direct deserialization\<close>

text \<open>\<^verbatim>\<open>serialization/direct.hpp\<close>: the overload for a \<open>serialized_object&\<close> advances its
  iterator, the one for a \<open>const serialized_object&\<close> works on a copy. Where the iterator of the first one
  stands after an exception is not modelled.\<close>

definition deserialize_advance :: "(bytes \<Rightarrow> ('a \<times> bytes) result) \<Rightarrow> bytes \<Rightarrow> ('a \<times> bytes) result" where
  "deserialize_advance deser it = (case deser it of Inl e \<Rightarrow> Inl e | Inr (result, it') \<Rightarrow> Inr (result, it'))"

definition deserialize_const :: "(bytes \<Rightarrow> ('a \<times> bytes) result) \<Rightarrow> bytes \<Rightarrow> 'a result \<times> bytes" where
  "deserialize_const deser it = (case deser it of Inl e \<Rightarrow> (Inl e, it) | Inr (x, it2) \<Rightarrow> (Inr x, it))"

end
