(* ===== verification/Interprocess_Map.thy ===== *)
theory Interprocess_Map
  imports Serialization
begin

text \<open>
  \<^verbatim>\<open>container/stable_interprocess_container.hpp\<close> and \<^verbatim>\<open>container/stable_interprocess_map.hpp\<close>:
  a container kept in a shared memory segment of fixed size, as the bytes of its serialization.

  The state is the segment. Every operation of the code runs under the lock of the segment, so it is
  one step here: it deserializes the segment, works on the local copy, and serializes the
  copy back where it writes. \<open>traits<Key>\<close> and \<open>traits<Value>\<close> are the fields of \<open>kv_traits\<close>.

  The temporary \<open>container::buffer\<close> that \<open>serialize\<close> fills is left out of the operations and put
  back in \<open>container_serialize_heap\<close>, which the last section relates to them.

  The locale \<open>kv_table\<close> is what \<^verbatim>\<open>stable_reference_buffer\<close> needs of its reference count table.
\<close>

record shm =
  shm_bytes :: bytes

record ('k, 'v) kv_traits =
  key_ser :: "'k \<Rightarrow> bytes list"
  key_deser :: "bytes \<Rightarrow> ('k \<times> bytes) result"
  val_ser :: "'v \<Rightarrow> bytes list"
  val_deser :: "bytes \<Rightarrow> ('v \<times> bytes) result"

definition shm_create :: "nat \<Rightarrow> shm" where
  "shm_create n = \<lparr>shm_bytes = replicate n 0\<rparr>"

definition capacity :: "shm \<Rightarrow> nat" where
  "capacity m = length (shm_bytes m)"

section \<open>The container\<close>

definition capacity_error :: "nat \<Rightarrow> shm \<Rightarrow> failure" where
  "capacity_error n m =
     runtime_error (''cbeam::stable_interprocess_container::serialize: size of serialized container ('' @
       dec_nat n @ '' bytes) exceeds shared memory size ('' @ dec_nat (capacity m) @
       '' bytes). Set environment variable CBEAM_SRB_MAP_BYTES to configure a higher value.'')"

definition container_serialize :: "('a \<Rightarrow> bytes list) \<Rightarrow> 'a \<Rightarrow> shm \<Rightarrow> unit result \<times> shm" where
  "container_serialize ser x m =
     (let buf = concat (ser x)
      in if length buf > capacity m then (Inl (capacity_error (length buf) m), m)
         else (Inr (), m\<lparr>shm_bytes := buf @ drop (length buf) (shm_bytes m)\<rparr>))"

definition container_deserialize :: "(bytes \<Rightarrow> ('a \<times> bytes) result) \<Rightarrow> shm \<Rightarrow> 'a result" where
  "container_deserialize deser m =
     (case deser (shm_bytes m) of Inl e \<Rightarrow> Inl e | Inr (x, _) \<Rightarrow> Inr x)"

text \<open>\<open>foreach\<close> deserializes once and calls \<open>func\<close> on the local copy, outside the lock, until \<open>func\<close>
  returns false. The calls thread the state of the closure.\<close>

fun foreach_items :: "('e \<Rightarrow> 's \<Rightarrow> bool \<times> 's) \<Rightarrow> 'e list \<Rightarrow> 's \<Rightarrow> 's" where
  "foreach_items func [] s = s"
| "foreach_items func (item # items) s =
     (case func item s of (continue, s') \<Rightarrow> if continue then foreach_items func items s' else s')"

definition ipm_load :: "('k::linorder, 'v) kv_traits \<Rightarrow> shm \<Rightarrow> ('k, 'v) smap result" where
  "ipm_load T m = container_deserialize (deser_map (key_deser T) (val_deser T)) m"

definition ipm_store :: "('k, 'v) kv_traits \<Rightarrow> ('k, 'v) smap \<Rightarrow> shm \<Rightarrow> unit result \<times> shm" where
  "ipm_store T x m = container_serialize (ser_map (key_ser T) (val_ser T)) x m"

definition ipm_clear :: "('k, 'v) kv_traits \<Rightarrow> shm \<Rightarrow> unit result \<times> shm" where
  "ipm_clear T m = ipm_store T [] m"

definition ipm_empty :: "('k::linorder, 'v) kv_traits \<Rightarrow> shm \<Rightarrow> bool result" where
  "ipm_empty T m = (case ipm_load T m of Inl e \<Rightarrow> Inl e | Inr x \<Rightarrow> Inr (x = []))"

definition ipm_size :: "('k::linorder, 'v) kv_traits \<Rightarrow> shm \<Rightarrow> nat result" where
  "ipm_size T m = (case ipm_load T m of Inl e \<Rightarrow> Inl e | Inr x \<Rightarrow> Inr (length x))"

definition ipm_foreach ::
  "('k::linorder, 'v) kv_traits \<Rightarrow> ('k \<times> 'v \<Rightarrow> 's \<Rightarrow> bool \<times> 's) \<Rightarrow> 's \<Rightarrow> shm \<Rightarrow> 's result" where
  "ipm_foreach T func s m =
     (case ipm_load T m of Inl e \<Rightarrow> Inl e | Inr x \<Rightarrow> Inr (foreach_items func x s))"

section \<open>The map\<close>

definition ipm_assign_list :: "('k::linorder, 'v) kv_traits \<Rightarrow> ('k \<times> 'v) list \<Rightarrow> shm \<Rightarrow> unit result \<times> shm" where
  "ipm_assign_list T items m = ipm_store T (fold (\<lambda>(k, v). smap_assign k v) items []) m"

definition ipm_at :: "('k::linorder, 'v) kv_traits \<Rightarrow> 'k \<Rightarrow> shm \<Rightarrow> 'v result" where
  "ipm_at T key m =
     (case ipm_load T m of
        Inl e \<Rightarrow> Inl e
      | Inr x \<Rightarrow> (case map_of x key of Some v \<Rightarrow> Inr v | None \<Rightarrow> Inl (out_of_range ''map::at'')))"

definition ipm_at_or_default :: "('k::linorder, 'v) kv_traits \<Rightarrow> 'k \<Rightarrow> 'v \<Rightarrow> shm \<Rightarrow> 'v result" where
  "ipm_at_or_default T key dflt m =
     (case ipm_load T m of
        Inl e \<Rightarrow> Inl e
      | Inr x \<Rightarrow> Inr (case map_of x key of Some v \<Rightarrow> v | None \<Rightarrow> dflt))"

definition ipm_insert :: "('k::linorder, 'v) kv_traits \<Rightarrow> 'k \<Rightarrow> 'v \<Rightarrow> shm \<Rightarrow> unit result \<times> shm" where
  "ipm_insert T key v m =
     (case ipm_load T m of
        Inl e \<Rightarrow> (Inl e, m)
      | Inr x \<Rightarrow> ipm_store T (smap_assign key v x) m)"

definition ipm_erase :: "('k::linorder, 'v) kv_traits \<Rightarrow> 'k \<Rightarrow> shm \<Rightarrow> unit result \<times> shm" where
  "ipm_erase T key m =
     (case ipm_load T m of
        Inl e \<Rightarrow> (Inl e, m)
      | Inr x \<Rightarrow> ipm_store T (smap_erase key x) m)"

definition ipm_count :: "('k::linorder, 'v) kv_traits \<Rightarrow> 'k \<Rightarrow> shm \<Rightarrow> nat result" where
  "ipm_count T key m = (case ipm_load T m of Inl e \<Rightarrow> Inl e | Inr x \<Rightarrow> Inr (smap_count key x))"

text \<open>An updater changes the value in place and may fail (a count can overflow).\<close>

definition ipm_update_or_insert ::
  "('k::linorder, 'v) kv_traits \<Rightarrow> 'k \<Rightarrow> ('v \<Rightarrow> 'v result) \<Rightarrow> 'v \<Rightarrow> shm \<Rightarrow> unit result \<times> shm" where
  "ipm_update_or_insert T key updater dflt m =
     (case ipm_load T m of
        Inl e \<Rightarrow> (Inl e, m)
      | Inr x \<Rightarrow>
          (case map_of x key of
             Some v \<Rightarrow> (case updater v of Inl e \<Rightarrow> (Inl e, m) | Inr v' \<Rightarrow> ipm_store T (smap_assign key v' x) m)
           | None \<Rightarrow> ipm_store T (smap_assign key dflt x) m))"

definition ipm_update ::
  "('k::linorder, 'v) kv_traits \<Rightarrow> 'k \<Rightarrow> ('v \<Rightarrow> 'v result) \<Rightarrow> string \<Rightarrow> shm \<Rightarrow> 'v result \<times> shm" where
  "ipm_update T key updater error_string m =
     (case ipm_load T m of
        Inl e \<Rightarrow> (Inl e, m)
      | Inr x \<Rightarrow>
          (case map_of x key of
             None \<Rightarrow> (Inl (runtime_error error_string), m)
           | Some v \<Rightarrow>
               (case updater v of
                  Inl e \<Rightarrow> (Inl e, m)
                | Inr v' \<Rightarrow>
                    (case ipm_store T (smap_assign key v' x) m of
                       (Inl e, m') \<Rightarrow> (Inl e, m')
                     | (Inr _, m') \<Rightarrow> (Inr v', m')))))"

section \<open>The map refines \<open>std::map\<close>\<close>

lemma capacity_store:
  "ipm_store T x m = (r, m') \<Longrightarrow> capacity m' = capacity m"
  by (auto simp: ipm_store_def container_serialize_def capacity_def Let_def split: if_splits)

lemma ipm_store_cases:
  "ipm_store T x m =
     (if length (concat (ser_map (key_ser T) (val_ser T) x)) > capacity m
      then (Inl (capacity_error (length (concat (ser_map (key_ser T) (val_ser T) x))) m), m)
      else (Inr (), m\<lparr>shm_bytes := concat (ser_map (key_ser T) (val_ser T) x) @
        drop (length (concat (ser_map (key_ser T) (val_ser T) x))) (shm_bytes m)\<rparr>))"
  by (simp add: ipm_store_def container_serialize_def Let_def)

context map_codec
begin

abbreviation T :: "('k, 'v) kv_traits" where
  "T \<equiv> \<lparr>key_ser = serk, key_deser = deserk, val_ser = serv, val_deser = deserv\<rparr>"

lemma load_store:
  assumes "valid_map validk validv x" and "ipm_store T x m = (Inr u, m')"
  shows "ipm_load T m' = Inr x"
proof -
  have "shm_bytes m' = concat (ser_map serk serv x) @ drop (length (concat (ser_map serk serv x))) (shm_bytes m)"
    using assms(2) by (auto simp: ipm_store_cases split: if_splits)
  then show ?thesis
    using entries.roundtrip [OF assms(1)] by (simp add: ipm_load_def container_deserialize_def)
qed

text \<open>Each writing operation either has the effect of the \<open>std::map\<close> operation on the stored
  map, or throws because the segment is too small and leaves the segment as it is.\<close>

lemma insert_refines:
  assumes "ipm_load T m = Inr x" and "valid_map validk validv (smap_assign k v x)"
    and "ipm_insert T k v m = (r, m')"
  shows "(r = Inr () \<and> ipm_load T m' = Inr (smap_assign k v x)) \<or> (\<exists>n. r = Inl (capacity_error n m) \<and> m' = m)"
  using assms load_store [OF assms(2)]
  by (fastforce simp: ipm_insert_def ipm_store_cases split: if_splits)

lemma erase_refines:
  assumes "ipm_load T m = Inr x" and "valid_map validk validv (smap_erase k x)"
    and "ipm_erase T k m = (r, m')"
  shows "(r = Inr () \<and> ipm_load T m' = Inr (smap_erase k x)) \<or> (\<exists>n. r = Inl (capacity_error n m) \<and> m' = m)"
  using assms load_store [OF assms(2)]
  by (fastforce simp: ipm_erase_def ipm_store_cases split: if_splits)

end

section \<open>The reference count table\<close>

text \<open>\<open>stable_interprocess_map<uint8_t*, int>\<close>: 8 bytes per key and 4 per value.\<close>

definition uc_traits :: "(addr, 32 word) kv_traits" where
  "uc_traits = \<lparr>key_ser = ser_ptr, key_deser = deser_ptr, val_ser = ser_int, val_deser = deser_int\<rparr>"

lemma length_ser_uc: "length (concat (ser_map ser_ptr ser_int x)) = 8 + 12 * length x"
proof -
  have "length (concat (concat (map (\<lambda>(k, v). ser_ptr k @ ser_int v) x))) = 12 * length x"
    by (induction x) (auto simp: ser_ptr_def ser_int_def traits_serialize_def)
  then show ?thesis
    by (simp add: ser_map_def ser_size_def traits_serialize_def)
qed

definition uc_ok :: "shm \<Rightarrow> bool" where
  "uc_ok m \<longleftrightarrow> capacity m < size_limit \<and>
     (case ipm_load uc_traits m of
        Inl _ \<Rightarrow> False
      | Inr x \<Rightarrow> smap_ok x \<and> 8 + 12 * length x \<le> capacity m)"

definition uc_view :: "shm \<Rightarrow> addr \<rightharpoonup> 32 word" where
  "uc_view m k = (case ipm_load uc_traits m of Inl _ \<Rightarrow> None | Inr x \<Rightarrow> map_of x k)"

definition uc_limit :: "shm \<Rightarrow> nat" where
  "uc_limit m = (capacity m - 8) div 12"

lemma uc_okE:
  assumes "uc_ok m"
  obtains x where "ipm_load uc_traits m = Inr x" and "smap_ok x" and "8 + 12 * length x \<le> capacity m"
    and "uc_view m = map_of x" and "capacity m < size_limit" and "card (dom (uc_view m)) = length x"
proof -
  from assms obtain x where x: "ipm_load uc_traits m = Inr x" "smap_ok x" "8 + 12 * length x \<le> capacity m"
    "capacity m < size_limit"
    by (auto simp: uc_ok_def split: sum.splits)
  have view: "uc_view m = map_of x"
    using x(1) by (simp add: uc_view_def fun_eq_iff)
  have "card (dom (uc_view m)) = length x"
    unfolding view dom_map_of_conv_image_fst
    using distinct_card [OF smap_ok_distinct [OF x(2)]] by simp
  from that [OF x(1-3) view x(4) this] show thesis .
qed

lemma uc_store:
  assumes "uc_ok m" and "smap_ok x" and "length x \<le> uc_limit m"
  shows "\<exists>m'. ipm_store uc_traits x m = (Inr (), m') \<and> uc_ok m' \<and> uc_view m' = map_of x \<and>
    uc_limit m' = uc_limit m"
proof -
  obtain y :: "(addr, 32 word) smap" where y: "8 + 12 * length y \<le> capacity m" "capacity m < size_limit"
    using assms(1) by (elim uc_okE) blast
  have fits: "8 + 12 * length x \<le> capacity m"
    using assms(3) y(1) by (simp add: uc_limit_def)
  then obtain m' where m': "ipm_store uc_traits x m = (Inr (), m')"
    by (simp add: ipm_store_cases uc_traits_def length_ser_uc)
  have "valid_map (\<lambda>_. True) (\<lambda>_. True) x"
    using assms(2) fits y(2) by (simp add: valid_map_def list_all_iff split_beta)
  then have load: "ipm_load uc_traits m' = Inr x"
    using use_count_codec.load_store m' by (simp add: uc_traits_def)
  have cap: "capacity m' = capacity m"
    using m' by (rule capacity_store)
  from load cap assms(2) fits y(2) m' show ?thesis
    by (auto simp: uc_ok_def uc_view_def uc_limit_def fun_eq_iff)
qed

lemma uc_store_full:
  assumes "uc_ok m" and "uc_limit m < length x"
  shows "ipm_store uc_traits x m = (Inl (capacity_error (8 + 12 * length x) m), m)"
  using assms by (auto simp: ipm_store_cases uc_traits_def length_ser_uc uc_limit_def)

locale kv_table =
  fixes ok :: "'m \<Rightarrow> bool"
    and view :: "'m \<Rightarrow> 'k \<rightharpoonup> 'v"
    and limit :: "'m \<Rightarrow> nat"
    and get :: "'k \<Rightarrow> 'v \<Rightarrow> 'm \<Rightarrow> 'v result"
    and put :: "'k \<Rightarrow> 'v \<Rightarrow> 'm \<Rightarrow> unit result \<times> 'm"
    and del :: "'k \<Rightarrow> 'm \<Rightarrow> unit result \<times> 'm"
    and upd :: "'k \<Rightarrow> ('v \<Rightarrow> 'v result) \<Rightarrow> string \<Rightarrow> 'm \<Rightarrow> 'v result \<times> 'm"
  assumes finite_view: "ok m \<Longrightarrow> finite (dom (view m)) \<and> card (dom (view m)) \<le> limit m"
    and get_view: "ok m \<Longrightarrow> get k d m = Inr (case view m k of None \<Rightarrow> d | Some v \<Rightarrow> v)"
    and put_view: "ok m \<Longrightarrow> view m k \<noteq> None \<or> card (dom (view m)) < limit m \<Longrightarrow>
      \<exists>m'. put k v m = (Inr (), m') \<and> ok m' \<and> view m' = (view m)(k \<mapsto> v) \<and> limit m' = limit m"
    and put_full: "ok m \<Longrightarrow> view m k = None \<Longrightarrow> limit m \<le> card (dom (view m)) \<Longrightarrow>
      \<exists>e. put k v m = (Inl e, m) \<and> \<not> is_undefined e"
    and del_view: "ok m \<Longrightarrow>
      \<exists>m'. del k m = (Inr (), m') \<and> ok m' \<and> view m' = (view m)(k := None) \<and> limit m' = limit m"
    and upd_missing: "ok m \<Longrightarrow> view m k = None \<Longrightarrow> upd k f msg m = (Inl (runtime_error msg), m)"
    and upd_throws: "ok m \<Longrightarrow> view m k = Some v \<Longrightarrow> f v = Inl e \<Longrightarrow> upd k f msg m = (Inl e, m)"
    and upd_view: "ok m \<Longrightarrow> view m k = Some v \<Longrightarrow> f v = Inr v' \<Longrightarrow>
      \<exists>m'. upd k f msg m = (Inr v', m') \<and> ok m' \<and> view m' = (view m)(k \<mapsto> v') \<and> limit m' = limit m"
begin

lemma put_get:
  assumes "ok m" and "put k v m = (Inr u, m')"
  shows "get k d m' = Inr v" and "j \<noteq> k \<Longrightarrow> get j d m' = get j d m"
proof -
  have "ok m' \<and> view m' = (view m)(k \<mapsto> v)"
    using put_view [OF assms(1), of k v] put_full [OF assms(1), of k v] assms(2)
    by (cases "view m k = None \<and> limit m \<le> card (dom (view m))") (auto simp: not_le)
  then show "get k d m' = Inr v" and "j \<noteq> k \<Longrightarrow> get j d m' = get j d m"
    using assms(1) by (simp_all add: get_view)
qed

text \<open>Moving an entry to a new key, as \<open>append\<close> does when a block moves.\<close>

lemma move_entry:
  assumes "ok m" and "view m old = Some v" and "view m new = None" and "card (dom (view m)) < limit m"
  shows "\<exists>m1 m2. put new w m = (Inr (), m1) \<and> del old m1 = (Inr (), m2) \<and> ok m2 \<and>
    view m2 = (view m)(old := None, new \<mapsto> w) \<and> limit m2 = limit m"
proof -
  obtain m1 where m1: "put new w m = (Inr (), m1)" "ok m1" "view m1 = (view m)(new \<mapsto> w)" "limit m1 = limit m"
    using put_view [OF assms(1)] assms(4) by blast
  obtain m2 where "del old m1 = (Inr (), m2)" "ok m2" "view m2 = (view m1)(old := None)" "limit m2 = limit m1"
    using del_view [OF m1(2)] by blast
  moreover have "old \<noteq> new"
    using assms(2,3) by auto
  ultimately show ?thesis
    using m1 by (auto simp: fun_upd_twist)
qed

end

interpretation use_count_table: kv_table uc_ok uc_view uc_limit
  "ipm_at_or_default uc_traits" "ipm_insert uc_traits" "ipm_erase uc_traits" "ipm_update uc_traits"
proof (unfold_locales, goal_cases)
  case (1 m)
  then show ?case
    by (elim uc_okE) (auto simp: uc_limit_def finite_dom_map_of)
next
  case (2 m k d)
  then show ?case
    by (elim uc_okE) (simp add: ipm_at_or_default_def option.case_eq_if)
next
  case (3 m k v)
  then show ?case
  proof (elim uc_okE)
    fix x
    assume x: "ipm_load uc_traits m = Inr x" "smap_ok x" "8 + 12 * length x \<le> capacity m"
      "uc_view m = map_of x" "card (dom (uc_view m)) = length x"
    have "length (smap_assign k v x) \<le> uc_limit m"
    proof (cases "uc_view m k = None")
      case True
      with 3 x show ?thesis
        using length_smap_assign_le [of k v x] by simp
    next
      case False
      with x show ?thesis
        using smap_assign_same_length [of x k v] by (simp add: uc_limit_def)
    qed
    with uc_store [OF 3(1), of "smap_assign k v x"] x show ?thesis
      by (simp add: ipm_insert_def)
  qed
next
  case (4 m k v)
  then show ?case
  proof (elim uc_okE)
    fix x
    assume x: "ipm_load uc_traits m = Inr x" "smap_ok x"
      "uc_view m = map_of x" "card (dom (uc_view m)) = length x"
    have "card (dom (map_of (smap_assign k v x))) = Suc (length x)"
      using 4 x by (simp add: domIff finite_dom_map_of)
    moreover have "card (dom (map_of (smap_assign k v x))) = length (smap_assign k v x)"
      using distinct_card [OF smap_ok_distinct, of "smap_assign k v x"] x(2)
      by (simp only: dom_map_of_conv_image_fst) simp
    ultimately have "uc_limit m < length (smap_assign k v x)"
      using 4(3) x(4) by simp
    from uc_store_full [OF 4(1) this] x show ?thesis
      by (simp add: ipm_insert_def capacity_error_def)
  qed
next
  case (5 m k)
  then show ?case
  proof (elim uc_okE)
    fix x
    assume x: "ipm_load uc_traits m = Inr x" "smap_ok x" "8 + 12 * length x \<le> capacity m"
      "uc_view m = map_of x"
    have "length (smap_erase k x) \<le> uc_limit m"
      using length_smap_erase_le [of k x] x(3) by (simp add: uc_limit_def)
    with uc_store [OF 5(1), of "smap_erase k x"] x show ?thesis
      by (simp add: ipm_erase_def)
  qed
next
  case (6 m k f msg)
  then show ?case
    by (elim uc_okE) (simp add: ipm_update_def)
next
  case (7 m k v f e msg)
  then show ?case
    by (elim uc_okE) (simp add: ipm_update_def)
next
  case (8 m k v f v' msg)
  then show ?case
  proof (elim uc_okE)
    fix x
    assume x: "ipm_load uc_traits m = Inr x" "smap_ok x" "8 + 12 * length x \<le> capacity m"
      "uc_view m = map_of x"
    have "length (smap_assign k v' x) \<le> uc_limit m"
      using smap_assign_same_length [of x k v'] x 8(2) by (simp add: uc_limit_def)
    with uc_store [OF 8(1), of "smap_assign k v' x"] x 8 show ?thesis
      by (force simp: ipm_update_def)
  qed
qed

text \<open>A new segment holds the empty table.\<close>

lemma shm_create_view:
  assumes "8 \<le> n" and "n < size_limit"
  shows "uc_ok (shm_create n)" and "uc_view (shm_create n) = Map.empty" and "uc_limit (shm_create n) = (n - 8) div 12"
proof -
  have "replicate n 0 = replicate 8 0 @ replicate (n - 8) (0 :: byte)"
    using assms(1) by (simp flip: replicate_add)
  also have "\<dots> = concat (ser_map ser_ptr ser_int []) @ replicate (n - 8) 0"
    by (simp add: ser_map_def ser_size_def traits_serialize_def le_bytes_zero)
  finally have "deser_map deser_ptr deser_int (replicate n 0) = Inr ([], replicate (n - 8) 0)"
    using use_count_codec.entries.roundtrip [of "[]"] by (simp add: valid_map_def)
  then have "ipm_load uc_traits (shm_create n) = Inr []"
    by (simp add: ipm_load_def container_deserialize_def shm_create_def uc_traits_def)
  then show "uc_ok (shm_create n)" and "uc_view (shm_create n) = Map.empty"
    and "uc_limit (shm_create n) = (n - 8) div 12"
    using assms by (simp_all add: uc_ok_def uc_view_def uc_limit_def capacity_def fun_eq_iff)
      (simp_all add: shm_create_def)
qed

section \<open>The temporary buffer of \<open>serialize\<close>\<close>

text \<open>\<open>serialize\<close> with its local \<open>container::buffer\<close>: the chunks of the serializer are appended to
  it, it is copied into the segment, and its destructor runs on every way out.\<close>

definition container_serialize_heap ::
  "(nat \<Rightarrow> choice) \<Rightarrow> ('a \<Rightarrow> bytes list) \<Rightarrow> 'a \<Rightarrow> shm \<Rightarrow> heap \<Rightarrow> unit result \<times> shm \<times> heap" where
  "container_serialize_heap cs ser x m h =
     (case append_all buffer_append cs (ser x) (buffer_default, h) of
        (Inl e, b, h1) \<Rightarrow> (case buffer_dtor (b, h1) of (_, h2) \<Rightarrow> (Inl e, m, h2))
      | (Inr _, b, h1) \<Rightarrow>
          if buf_size b > capacity m
          then (case buffer_dtor (b, h1) of (_, h2) \<Rightarrow> (Inl (capacity_error (buf_size b) m), m, h2))
          else (case heap_read (buf_ptr b) (buf_size b) h1 of
                  Inl e \<Rightarrow> (Inl e, m, h1)
                | Inr d \<Rightarrow>
                    (case buffer_dtor (b, h1) of
                       (Inl e, h2) \<Rightarrow> (Inl e, m, h2)
                     | (Inr _, h2) \<Rightarrow> (Inr (), m\<lparr>shm_bytes := d @ drop (length d) (shm_bytes m)\<rparr>, h2))))"

lemma buffer_dtor_ok: "buffer_ok (b, h) \<Longrightarrow> buffer_dtor (b, h) = (Inr (), h(buf_ptr b := None))"
  by (simp add: buffer_dtor_def buffer_reset_ok)

text \<open>The blocks other than the one of the buffer stay as they are while chunks are appended,
  so once the buffer is destroyed the heap is the one before.\<close>

lemma append_all_buffer_frame:
  assumes "buffer_ok (b, h)" and "buf_size b + length (concat ds) < size_limit"
    and "chunks_ok (0 < buf_size b) ds"
    and "append_all buffer_append cs ds (b, h) = (r, b', h')"
  shows "h'(buf_ptr b' := None) = h(buf_ptr b := None) \<and> (\<forall>e. r = Inl e \<longrightarrow> e = std_bad_alloc)"
  using assms
proof (induction ds arbitrary: b h cs)
  case Nil
  then show ?case by auto
next
  case (Cons d ds)
  have "buf_size b + length d < size_limit" and "buf_ptr b = nullptr \<or> 0 < buf_size b + length d"
    using Cons.prems by auto
  from buffer_append_cases [OF Cons.prems(1) this, where c = "cs 0"]
  show ?case
  proof cases
    case 1
    with Cons.prems(4) show ?thesis by auto
  next
    case (2 q)
    define b1 where "b1 = \<lparr>buf_size = buf_size b + length d, buf_ptr = q\<rparr>"
    define h1 where "h1 = h(buf_ptr b := None, q \<mapsto> buffer_bytes (b, h) @ d)"
    have step: "buffer_append (cs 0) d (b, h) = (Inr (), b1, h1)"
      using 2(4) by (simp add: b1_def h1_def)
    have "buffer_ok (b1, h1)"
      using buffer_append_ok [OF Cons.prems(1) _ _ step] Cons.prems by auto
    moreover have "buf_size b1 + length (concat ds) < size_limit" and "chunks_ok (0 < buf_size b1) ds"
      using Cons.prems(2,3) by (auto simp: b1_def)
    moreover have "append_all buffer_append (\<lambda>i. cs (Suc i)) ds (b1, h1) = (r, b', h')"
      using Cons.prems(4) step by simp
    ultimately have "h'(buf_ptr b' := None) = h1(buf_ptr b1 := None) \<and> (\<forall>e. r = Inl e \<longrightarrow> e = std_bad_alloc)"
      by (rule Cons.IH)
    moreover have "h1(buf_ptr b1 := None) = h(buf_ptr b := None)"
      using 2(2) by (auto simp: fun_eq_iff b1_def h1_def)
    ultimately show ?thesis by simp
  qed
qed

lemma container_serialize_heap_refines:
  assumes "heap_ok h" and "chunks_ok False (ser x)" and "ser x \<noteq> []"
    and "length (concat (ser x)) < size_limit"
    and "container_serialize_heap cs ser x m h = (r, m', h')"
  shows "h' = h \<and> (r = Inl std_bad_alloc \<and> m' = m \<or> (r, m') = container_serialize ser x m)"
proof -
  obtain r1 b h1 where run: "append_all buffer_append cs (ser x) (buffer_default, h) = (r1, b, h1)"
    by (metis prod_cases3)
  have start: "buffer_ok (buffer_default, h)"
    using assms(1) by simp
  have frame: "h1(buf_ptr b := None) = h" and oom: "\<forall>e. r1 = Inl e \<longrightarrow> e = std_bad_alloc"
    using append_all_buffer_frame [OF start _ _ run] assms(1-4) by (simp_all add: buffer_default_def)
  show ?thesis
  proof (cases r1)
    case (Inl e)
    from buffer_sink.append_all_throws [OF start _ _ run [unfolded Inl]] assms
    have "buffer_ok (b, h1)" by simp
    then show ?thesis
      using assms(5) run Inl frame oom by (auto simp: container_serialize_heap_def buffer_dtor_ok)
  next
    case (Inr u)
    from buffer_sink.append_all_content [OF start _ _ run [unfolded Inr]] assms
    have ok: "buffer_ok (b, h1)" and bytes: "buffer_bytes (b, h1) = concat (ser x)" by auto
    have "concat (ser x) \<noteq> []"
      using assms(2,3) by (cases "ser x") auto
    then have "h1 (buf_ptr b) = Some (concat (ser x))" and "buf_size b = length (concat (ser x))"
      using buffer_ok_block [OF ok] bytes by auto
    then show ?thesis
      using assms(5) run Inr frame
      by (auto simp: container_serialize_heap_def container_serialize_def buffer_dtor_ok [OF ok]
          heap_read_block Let_def split: if_splits)
  qed
qed

section \<open>Properties\<close>

text \<open>C18. The shared map behaves as a map. Whatever key and value types the map is instantiated with, provided that their
  \<open>traits\<close> read back what they write: after \<open>insert\<close> the segment holds the map with the entry set, so \<open>at\<close> returns
  the new value at the key and the old value everywhere else; or the segment is too small, and
  \<open>insert\<close> throws with the segment as it was.\<close>

theorem shared_map_insert:
  assumes "map_codec serk deserk validk serv deserv validv"
    and "T = \<lparr>key_ser = serk, key_deser = deserk, val_ser = serv, val_deser = deserv\<rparr>"
    and "ipm_load T m = Inr x" and "valid_map validk validv (smap_assign k v x)"
    and "ipm_insert T k v m = (r, m')"
  shows "r = Inr () \<and> ipm_at T k m' = Inr v \<and> (\<forall>j. j \<noteq> k \<longrightarrow> ipm_at T j m' = ipm_at T j m) \<or>
    (\<exists>n. r = Inl (capacity_error n m) \<and> m' = m)"
  using map_codec.insert_refines [OF assms(1) assms(3) [unfolded assms(2)] assms(4) assms(5) [unfolded assms(2)]]
  by (auto simp: assms(3) ipm_at_def simp flip: assms(2))

definition string_traits :: "(string, string) kv_traits" where
  "string_traits = \<lparr>key_ser = ser_string, key_deser = deser_string, val_ser = ser_string, val_deser = deser_string\<rparr>"

theorem shared_map_insert_witness:
  "ipm_at string_traits ''k'' (snd (ipm_insert string_traits ''k'' ''v'' (shm_create 64))) = Inr ''v''"
proof -
  have load: "ipm_load string_traits (shm_create 64) = Inr []"
    by code_simp
  have valid: "valid_map (\<lambda>s. length s < size_limit) (\<lambda>s. length s < size_limit) (smap_assign ''k'' ''v'' [])"
    by (simp add: valid_map_def smap_assign_def smap_ok_def size_limit_def)
  have run: "fst (ipm_insert string_traits ''k'' ''v'' (shm_create 64)) = Inr ()"
    by code_simp
  obtain m' where m': "ipm_insert string_traits ''k'' ''v'' (shm_create 64) = (Inr (), m')"
    using run by (metis prod.collapse)
  from shared_map_insert [OF string_map_codec.map_codec_axioms string_traits_def load valid m'] m'
  show ?thesis by auto
qed

text \<open>Writing the segment leaks nothing. \<open>serialize\<close> with its temporary heap buffer leaves the heap exactly as it
  was on every way out, and either has written the container, or thrown for lack of room in the segment, or
  thrown \<open>std::bad_alloc\<close> with the segment as it was.\<close>

lemma container_serialize_no_leak:
  assumes "codec ser deser valid" and "heap_ok h" and "length (concat (ser x)) < size_limit"
    and "container_serialize_heap cs ser x m h = (r, m', h')"
  shows "h' = h \<and> (r = Inl std_bad_alloc \<and> m' = m \<or> (r, m') = container_serialize ser x m)"
  using container_serialize_heap_refines [OF assms(2) _ _ assms(3,4)] codec.chunks [OF assms(1)] by blast

lemma container_serialize_no_leak_witness:
  "snd (snd (container_serialize_heap (\<lambda>_. (16, \<lambda>_. 0)) ser_string ''ab'' (shm_create 32) [64 \<mapsto> [1]])) = [64 \<mapsto> [1]]"
proof -
  have "heap_ok [64 \<mapsto> [1]]" and "length (concat (ser_string ''ab'')) < size_limit"
    by (simp_all add: heap_ok_def size_limit_def ser_string_def ser_size_def traits_serialize_def ser_char_def)
  from container_serialize_no_leak [OF string_codec.codec_axioms this, of "\<lambda>_. (16, \<lambda>_. 0)" "shm_create 32"]
  show ?thesis
    by (metis prod.collapse)
qed

end
