(* ===== verification/Stable_Reference_Buffer.thy ===== *)
theory Stable_Reference_Buffer
  imports Interprocess_Map
begin

text \<open>
  \<^verbatim>\<open>container/stable_reference_buffer.hpp\<close> and \<open>serialize\<close> of \<^verbatim>\<open>serialization/direct.hpp\<close>:
  buffers whose block is shared, with the reference counts of all blocks in one interprocess map.

  The state is a \<open>world\<close>: the heap and the segment that holds the counts (\<open>get_use_count()\<close>). An object is
  the record of its base class \<open>buffer\<close>; \<open>_use_count\<close> is the same singleton for every object. The
  methods hold the lock of the map while they run, so each is one step. The counts are \<open>int\<close>: \<open>++\<close> and
  \<open>--\<close> fail with \<open>signed_overflow\<close> at the end of the range. \<open>assert\<close> and the log output have no effect
  on the state.

  \<^item> the operations, destructors and exception paths included;
  \<^item> \<open>world_inv\<close>: the counts agree with the references held by objects and by delay scopes, blocks
    that are counted are live, all other blocks are those of the rest of the program;
  \<^item> what each operation does to the invariant.
\<close>

record world =
  w_heap :: heap
  w_table :: shm

lemma world_update_order [simp]: "w\<lparr>w_heap := h, w_table := t\<rparr> = w\<lparr>w_table := t, w_heap := h\<rparr>"
  by simp

section \<open>The segment of the reference counts\<close>

text \<open>\<open>get_use_count\<close> takes the size of the segment from the environment variable \<open>CBEAM_SRB_MAP_BYTES\<close>. \<open>strtoull\<close>
  skips white space, takes an optional sign and the decimal digits that follow, and gives the largest value on overflow;
  the code accepts the result when it used the whole text and the value is at least 1024.\<close>

definition is_digit :: "char \<Rightarrow> bool" where
  "is_digit c \<longleftrightarrow> 48 \<le> (of_char c :: nat) \<and> (of_char c :: nat) \<le> 57"

definition strtoull10 :: "string \<Rightarrow> nat \<times> string" where
  "strtoull10 s =
     (let (neg, t) = skip_sign (dropWhile is_space s); ds = takeWhile is_digit t; v = dec_parse ds
      in if ds = [] then (0, s)
         else (if v \<ge> size_limit then size_limit - 1 else if neg then wrap64 (size_limit - v) else v,
               dropWhile is_digit t))"

definition use_count_bytes :: "string option \<Rightarrow> nat" where
  "use_count_bytes env =
     (case env of
        None \<Rightarrow> 65536
      | Some text \<Rightarrow>
          (case strtoull10 text of (v, rest) \<Rightarrow> if rest = [] \<and> v \<ge> 1024 then v else 65536))"

definition get_use_count :: "string option \<Rightarrow> shm" where
  "get_use_count env = shm_create (use_count_bytes env)"

section \<open>The reference counts\<close>

definition incr :: "32 word \<Rightarrow> 32 word result" where
  "incr n = (if n = 0x7FFFFFFF then Inl (undefined_behaviour signed_overflow) else Inr (n + 1))"

definition decr :: "32 word \<Rightarrow> 32 word result" where
  "decr n = (if n = 0x80000000 then Inl (undefined_behaviour signed_overflow) else Inr (n - 1))"

definition update_default_error :: string where
  "update_default_error = ''cbeam::stable_interprocess_map::update: key not found''"

definition get_initial_use_count :: "world \<Rightarrow> 32 word result" where
  "get_initial_use_count w = ipm_at_or_default uc_traits nullptr 1 (w_table w)"

definition srb_is_known :: "addr \<Rightarrow> world \<Rightarrow> bool result" where
  "srb_is_known address w =
     (if address = nullptr then Inr False
      else (case ipm_count uc_traits address (w_table w) of Inl e \<Rightarrow> Inl e | Inr n \<Rightarrow> Inr (n = 1)))"

definition srb_use_count :: "buffer \<Rightarrow> world \<Rightarrow> addr result" where
  "srb_use_count b w =
     (if buf_ptr b = nullptr then Inr 0
      else (case ipm_at_or_default uc_traits (buf_ptr b) 0 (w_table w) of
              Inl e \<Rightarrow> Inl e
            | Inr n \<Rightarrow> Inr (signed n)))"

definition srb_safe_get :: "buffer \<Rightarrow> world \<Rightarrow> addr result" where
  "srb_safe_get b w =
     (case srb_use_count b w of Inl e \<Rightarrow> Inl e | Inr n \<Rightarrow> Inr (if n \<le> 1 then nullptr else buf_ptr b))"

section \<open>Construction\<close>

text \<open>An exception in a constructor body destroys the base class object: \<open>~buffer\<close> frees
  whatever \<open>_buffer\<close> holds then.\<close>

definition srb_unwind :: "failure \<Rightarrow> buffer \<Rightarrow> world \<Rightarrow> buffer result \<times> world" where
  "srb_unwind e b w =
     (case buffer_dtor (b, w_heap w) of
        (Inl e', h) \<Rightarrow> (Inl e', w\<lparr>w_heap := h\<rparr>)
      | (Inr _, h) \<Rightarrow> (Inl e, w\<lparr>w_heap := h\<rparr>))"

text \<open>The body shared by the two constructors that own a new block.\<close>

definition srb_register :: "buffer \<Rightarrow> world \<Rightarrow> buffer result \<times> world" where
  "srb_register b w =
     (case get_initial_use_count w of
        Inl e \<Rightarrow> srb_unwind e b w
      | Inr initial \<Rightarrow>
          (case ipm_update_or_insert uc_traits (buf_ptr b) incr initial (w_table w) of
             (Inl e, t) \<Rightarrow> srb_unwind e b (w\<lparr>w_table := t\<rparr>)
           | (Inr _, t) \<Rightarrow> (Inr b, w\<lparr>w_table := t\<rparr>)))"

definition srb_ctor :: "choice \<Rightarrow> nat \<Rightarrow> nat \<Rightarrow> world \<Rightarrow> buffer result \<times> world" where
  "srb_ctor c n size_of_type w =
     (case buffer_ctor c n size_of_type (w_heap w) of
        (Inl e, h) \<Rightarrow> (Inl e, w\<lparr>w_heap := h\<rparr>)
      | (Inr b, h) \<Rightarrow> srb_register b (w\<lparr>w_heap := h\<rparr>))"

definition srb_from_buffer :: "choice \<Rightarrow> buffer \<Rightarrow> world \<Rightarrow> buffer result \<times> world" where
  "srb_from_buffer c base w =
     (case buffer_copy_ctor c base (w_heap w) of
        (Inl e, h) \<Rightarrow> (Inl e, w\<lparr>w_heap := h\<rparr>)
      | (Inr b, h) \<Rightarrow> srb_register b (w\<lparr>w_heap := h\<rparr>))"

definition srb_from_address :: "addr \<Rightarrow> world \<Rightarrow> buffer result \<times> world" where
  "srb_from_address address w =
     (let b = buffer_default\<lparr>buf_ptr := address\<rparr>
      in case ipm_update uc_traits (buf_ptr b) incr
             (''cbeam::container::container::stable_reference_buffer: memory address '' @
              ptr_to_string address @ '' was not created by cbeam::stable_reference_buffer'') (w_table w) of
           (Inl e, t) \<Rightarrow> srb_unwind e b (w\<lparr>w_table := t\<rparr>)
         | (Inr _, t) \<Rightarrow> (Inr b, w\<lparr>w_table := t\<rparr>))"

definition srb_copy_ctor :: "buffer \<Rightarrow> world \<Rightarrow> buffer result \<times> world" where
  "srb_copy_ctor other w =
     (if buf_ptr other = nullptr
      then srb_unwind (runtime_error ''cbeam::container::container::stable_reference_buffer: copy constructor has been passed a default constructed (therefore invalid) instance of Memory'') buffer_default w
      else (let b = \<lparr>buf_size = buf_size other, buf_ptr = buf_ptr other\<rparr>
            in case ipm_update uc_traits (buf_ptr b) incr update_default_error (w_table w) of
                 (Inl e, t) \<Rightarrow> srb_unwind e b (w\<lparr>w_table := t\<rparr>)
               | (Inr _, t) \<Rightarrow> (Inr b, w\<lparr>w_table := t\<rparr>)))"

section \<open>Append\<close>

text \<open>The copy-on-write path after the copy: drop the reference to the old block. An exception
  counts as no references left.\<close>

definition srb_drop_old :: "addr \<Rightarrow> world \<Rightarrow> unit result \<times> world" where
  "srb_drop_old old w =
     (case ipm_update uc_traits old decr update_default_error (w_table w) of
        (r, t) \<Rightarrow>
          (if (case r of Inl e \<Rightarrow> is_undefined e | Inr _ \<Rightarrow> False)
           then (Inl (projl r), w\<lparr>w_table := t\<rparr>)
           else if (case r of Inl e \<Rightarrow> True | Inr remaining \<Rightarrow> remaining = 0)
           then (case heap_free old (w_heap w) of
                   (Inl e, h) \<Rightarrow> (Inl e, w\<lparr>w_table := t, w_heap := h\<rparr>)
                 | (Inr _, h) \<Rightarrow>
                     (case ipm_erase uc_traits old t of
                        (r', t') \<Rightarrow> (r', w\<lparr>w_table := t', w_heap := h\<rparr>)))
           else (Inr (), w\<lparr>w_table := t\<rparr>)))"

definition srb_insert_count :: "addr \<Rightarrow> 32 word \<Rightarrow> world \<Rightarrow> unit result \<times> world" where
  "srb_insert_count p n w =
     (case ipm_insert uc_traits p n (w_table w) of (r, t) \<Rightarrow> (r, w\<lparr>w_table := t\<rparr>))"

definition srb_insert_initial :: "addr \<Rightarrow> world \<Rightarrow> unit result \<times> world" where
  "srb_insert_initial p w =
     (case get_initial_use_count w of
        Inl e \<Rightarrow> (Inl e, w)
      | Inr initial \<Rightarrow> srb_insert_count p initial w)"

definition srb_append_cow :: "choice \<Rightarrow> bytes \<Rightarrow> buffer \<times> world \<Rightarrow> unit result \<times> buffer \<times> world" where
  "srb_append_cow c d s =
     (case s of (b, w) \<Rightarrow>
       (let new_size = wrap64 (buf_size b + length d)
        in case heap_malloc c new_size (w_heap w) of (new_buf, h1) \<Rightarrow>
             if new_buf = nullptr then (Inl bad_alloc, b, w\<lparr>w_heap := h1\<rparr>)
             else (case heap_read (buf_ptr b) (buf_size b) h1 of
                Inl e \<Rightarrow> (Inl e, b, w\<lparr>w_heap := h1\<rparr>)
              | Inr old \<Rightarrow>
                  (case heap_write new_buf 0 old h1 of
                     (Inl e, h2) \<Rightarrow> (Inl e, b, w\<lparr>w_heap := h2\<rparr>)
                   | (Inr _, h2) \<Rightarrow>
                       (case heap_write new_buf (buf_size b) d h2 of
                          (Inl e, h3) \<Rightarrow> (Inl e, b, w\<lparr>w_heap := h3\<rparr>)
                        | (Inr _, h3) \<Rightarrow>
                            (case srb_drop_old (buf_ptr b) (w\<lparr>w_heap := h3\<rparr>) of
                               (Inl e, w1) \<Rightarrow> (Inl e, b, w1)
                             | (Inr _, w1) \<Rightarrow>
                                 (case srb_insert_initial new_buf w1 of
                                    (r, w2) \<Rightarrow> (r, \<lparr>buf_size = new_size, buf_ptr = new_buf\<rparr>, w2))))))))"

definition srb_append_exclusive :: "choice \<Rightarrow> bytes \<Rightarrow> buffer \<times> world \<Rightarrow> unit result \<times> buffer \<times> world" where
  "srb_append_exclusive c d s =
     (case s of (b, w) \<Rightarrow>
       (let old = buf_ptr b
        in case (if old = nullptr then Inr 0
                 else (case get_initial_use_count w of
                         Inl e \<Rightarrow> Inl e
                       | Inr initial \<Rightarrow> ipm_at_or_default uc_traits old initial (w_table w))) of
             Inl e \<Rightarrow> (Inl e, b, w)
           | Inr old_count \<Rightarrow>
               (case buffer_append c d (b, w_heap w) of
                  (Inl e, b1, h) \<Rightarrow> (Inl e, b1, w\<lparr>w_heap := h\<rparr>)
                | (Inr _, b1, h) \<Rightarrow>
                    (let w1 = w\<lparr>w_heap := h\<rparr>
                     in if buf_ptr b1 = old then (Inr (), b1, w1)
                        else if old \<noteq> nullptr
                        then (case srb_insert_count (buf_ptr b1) old_count w1 of
                                (Inl e, w2) \<Rightarrow> (Inl e, b1, w2)
                              | (Inr _, w2) \<Rightarrow>
                                  (case ipm_erase uc_traits old (w_table w2) of
                                     (r, t) \<Rightarrow> (r, b1, w2\<lparr>w_table := t\<rparr>)))
                        else (case srb_insert_initial (buf_ptr b1) w1 of (r, w2) \<Rightarrow> (r, b1, w2))))))"

definition srb_append :: "choice \<Rightarrow> bytes \<Rightarrow> buffer \<times> world \<Rightarrow> unit result \<times> buffer \<times> world" where
  "srb_append c d s =
     (case s of (b, w) \<Rightarrow>
       if buf_size b = 0 \<and> buf_ptr b \<noteq> nullptr
       then (Inl (logic_error ''stable_reference_buffer::append: instance was created from a raw pointer without a known size''), b, w)
       else (case (if buf_ptr b = nullptr then Inr 0 else ipm_at_or_default uc_traits (buf_ptr b) 0 (w_table w)) of
               Inl e \<Rightarrow> (Inl e, b, w)
             | Inr n \<Rightarrow> if buf_ptr b \<noteq> nullptr \<and> 1 <s n then srb_append_cow c d s else srb_append_exclusive c d s))"

section \<open>Reset, assignment, swap\<close>

text \<open>\<open>reset\<close> is \<open>noexcept\<close>: it catches every exception and then leaves the object as it is.\<close>

definition srb_reset_body :: "buffer \<times> world \<Rightarrow> unit result \<times> buffer \<times> world" where
  "srb_reset_body s =
     (case s of (b, w) \<Rightarrow>
       (case srb_is_known (buf_ptr b) w of
          Inl e \<Rightarrow> (Inl e, b, w)
        | Inr known \<Rightarrow>
            if \<not> known then (Inr (), buffer_default, w)
            else (case ipm_update uc_traits (buf_ptr b) decr update_default_error (w_table w) of
                    (Inl e, t) \<Rightarrow> (Inl e, b, w\<lparr>w_table := t\<rparr>)
                  | (Inr updated_value, t) \<Rightarrow>
                      if updated_value = 0
                      then (case ipm_erase uc_traits (buf_ptr b) t of
                              (Inl e, t') \<Rightarrow> (Inl e, b, w\<lparr>w_table := t'\<rparr>)
                            | (Inr _, t') \<Rightarrow>
                                (case buffer_reset (b, w_heap w) of
                                   (Inl e, b', h) \<Rightarrow> (Inl e, b', w\<lparr>w_table := t', w_heap := h\<rparr>)
                                 | (Inr _, b', h) \<Rightarrow> (Inr (), buffer_default, w\<lparr>w_table := t', w_heap := h\<rparr>)))
                      else (Inr (), buffer_default, w\<lparr>w_table := t\<rparr>))))"

definition srb_reset :: "buffer \<times> world \<Rightarrow> unit result \<times> buffer \<times> world" where
  "srb_reset s =
     (case srb_reset_body s of
        (Inl e, s') \<Rightarrow> (if is_undefined e then Inl e else Inr (), s')
      | (Inr _, s') \<Rightarrow> (Inr (), s'))"

text \<open>The destructor: \<open>reset\<close>, then \<open>~buffer\<close> on what \<open>reset\<close> left.\<close>

definition srb_dtor :: "buffer \<times> world \<Rightarrow> unit result \<times> world" where
  "srb_dtor s =
     (case srb_reset s of
        (Inl e, b, w) \<Rightarrow> (Inl e, w)
      | (Inr _, b, w) \<Rightarrow> (case buffer_dtor (b, w_heap w) of (r, h) \<Rightarrow> (r, w\<lparr>w_heap := h\<rparr>)))"

definition srb_assign :: "bool \<Rightarrow> buffer \<Rightarrow> buffer \<times> world \<Rightarrow> unit result \<times> buffer \<times> world" where
  "srb_assign is_self other s =
     (if is_self then (Inr (), s)
      else if buf_ptr other = nullptr
      then (Inl (runtime_error ''cbeam::container::container::stable_reference_buffer: copy assignment operator has been passed a default constructed (therefore invalid) instance of Memory''), s)
      else (case srb_reset s of
              (Inl e, s') \<Rightarrow> (Inl e, s')
            | (Inr _, b, w) \<Rightarrow>
                (case ipm_update uc_traits (buf_ptr other) incr update_default_error (w_table w) of
                   (Inl e, t) \<Rightarrow> (Inl e, b\<lparr>buf_ptr := buf_ptr other, buf_size := buf_size other\<rparr>, w\<lparr>w_table := t\<rparr>)
                 | (Inr _, t) \<Rightarrow> (Inr (), b\<lparr>buf_ptr := buf_ptr other, buf_size := buf_size other\<rparr>, w\<lparr>w_table := t\<rparr>))))"

definition srb_assign_buffer ::
  "choice \<Rightarrow> bool \<Rightarrow> buffer \<Rightarrow> buffer \<times> world \<Rightarrow> unit result \<times> buffer \<times> world" where
  "srb_assign_buffer c is_self other s =
     (if is_self then (Inr (), s)
      else (case srb_reset s of
              (Inl e, s') \<Rightarrow> (Inl e, s')
            | (Inr _, b, w) \<Rightarrow>
                (case buffer_assign c False other (b, w_heap w) of
                   (Inl e, b1, h) \<Rightarrow> (Inl e, b1, w\<lparr>w_heap := h\<rparr>)
                 | (Inr _, b1, h) \<Rightarrow>
                     (let w1 = w\<lparr>w_heap := h\<rparr>
                      in case srb_is_known (buf_ptr b1) w1 of
                           Inl e \<Rightarrow> (Inl e, b1, w1)
                         | Inr True \<Rightarrow>
                             (case ipm_at uc_traits (buf_ptr b1) (w_table w1) of
                                Inl e \<Rightarrow> (Inl e, b1, w1)
                              | Inr n \<Rightarrow>
                                  (case incr n of
                                     Inl e \<Rightarrow> (Inl e, b1, w1)
                                   | Inr n' \<Rightarrow> (case srb_insert_count (buf_ptr b1) n' w1 of (r, w2) \<Rightarrow> (r, b1, w2))))
                         | Inr False \<Rightarrow> (case srb_insert_initial (buf_ptr b1) w1 of (r, w2) \<Rightarrow> (r, b1, w2))))))"

definition srb_swap :: "buffer \<Rightarrow> buffer \<Rightarrow> buffer \<times> buffer" where
  "srb_swap a b = buffer_swap a b"

section \<open>Delay scopes\<close>

record delay_deallocation =
  old_entries :: "addr list"
  initial_on_entry :: "32 word"

definition dd_keys :: "world \<Rightarrow> addr list result" where
  "dd_keys w = ipm_foreach uc_traits (\<lambda>kv s. (True, s @ [fst kv])) [] (w_table w)"

definition dd_ctor :: "world \<Rightarrow> delay_deallocation result \<times> world" where
  "dd_ctor w =
     (case get_initial_use_count w of
        Inl e \<Rightarrow> (Inl e, w)
      | Inr initial \<Rightarrow>
          (case dd_keys w of
             Inl e \<Rightarrow> (Inl e, w)
           | Inr keys \<Rightarrow>
               (case incr initial of
                  Inl e \<Rightarrow> (Inl e, w)
                | Inr initial' \<Rightarrow>
                    (case srb_insert_count nullptr initial' w of
                       (Inl e, w') \<Rightarrow> (Inl e, w')
                     | (Inr _, w') \<Rightarrow> (Inr \<lparr>old_entries = keys, initial_on_entry = initial\<rparr>, w')))))"

text \<open>The loop over the new entries. An exception of \<open>update\<close> skips the entry; any later
  exception leaves the loop.\<close>

fun dd_release :: "addr list \<Rightarrow> world \<Rightarrow> unit result \<times> world" where
  "dd_release [] w = (Inr (), w)"
| "dd_release (ptr # ptrs) w =
     (case ipm_update uc_traits ptr decr update_default_error (w_table w) of
        (Inl e, t) \<Rightarrow> if is_undefined e then (Inl e, w\<lparr>w_table := t\<rparr>) else dd_release ptrs (w\<lparr>w_table := t\<rparr>)
      | (Inr updated, t) \<Rightarrow>
          if updated = 0
          then (case heap_free ptr (w_heap w) of
                  (Inl e, h) \<Rightarrow> (Inl e, w\<lparr>w_table := t, w_heap := h\<rparr>)
                | (Inr _, h) \<Rightarrow>
                    (case ipm_erase uc_traits ptr t of
                       (Inl e, t') \<Rightarrow> (Inl e, w\<lparr>w_table := t', w_heap := h\<rparr>)
                     | (Inr _, t') \<Rightarrow> dd_release ptrs (w\<lparr>w_table := t', w_heap := h\<rparr>)))
          else dd_release ptrs (w\<lparr>w_table := t\<rparr>))"

definition dd_dtor_body :: "delay_deallocation \<Rightarrow> world \<Rightarrow> unit result \<times> world" where
  "dd_dtor_body scope w =
     (case dd_keys w of
        Inl e \<Rightarrow> (Inl e, w)
      | Inr keys \<Rightarrow>
          (case dd_release (filter (\<lambda>ptr. ptr \<noteq> nullptr \<and> ptr \<notin> set (old_entries scope)) keys) w of
             (Inl e, w') \<Rightarrow> (Inl e, w')
           | (Inr _, w') \<Rightarrow> srb_insert_count nullptr (initial_on_entry scope) w'))"

definition dd_dtor :: "delay_deallocation \<Rightarrow> world \<Rightarrow> unit result \<times> world" where
  "dd_dtor scope w =
     (case dd_dtor_body scope w of
        (Inl e, w') \<Rightarrow> (if is_undefined e then Inl e else Inr (), w')
      | (Inr _, w') \<Rightarrow> (Inr (), w'))"

section \<open>Counts as machine integers\<close>

text \<open>A count below \<open>2 ^ 31\<close> is kept as a natural number.\<close>

lemma count_eq_iff:
  "k < 2 ^ 31 \<Longrightarrow> j < 2 ^ 32 \<Longrightarrow> of_nat k = (of_nat j :: 32 word) \<longleftrightarrow> k = j"
  by (simp add: word_of_nat_eq_iff take_bit_nat_eq_self)

lemma count_zero: "k < 2 ^ 31 \<Longrightarrow> of_nat k = (0 :: 32 word) \<longleftrightarrow> k = 0"
  using count_eq_iff [of k 0] by simp

lemma sint_count: "k < 2 ^ 31 \<Longrightarrow> sint (of_nat k :: 32 word) = int k"
  by (simp add: signed_of_nat signed_take_bit_int_eq_self)

lemma count_greater_one: "k < 2 ^ 31 \<Longrightarrow> 1 <s (of_nat k :: 32 word) \<longleftrightarrow> 1 < k"
  by (simp add: word_sless_alt sint_count)

lemma incr_count: "Suc k < 2 ^ 31 \<Longrightarrow> incr (of_nat k) = Inr (of_nat (Suc k))"
  using count_eq_iff [of k "0x7FFFFFFF"] by (simp add: incr_def)

lemma decr_count: "0 < k \<Longrightarrow> k < 2 ^ 31 \<Longrightarrow> decr (of_nat k) = Inr (of_nat (k - 1))"
  using count_eq_iff [of k "0x80000000"] by (simp add: decr_def of_nat_diff)

section \<open>The invariant\<close>

text \<open>\<open>F\<close> is the memory of the rest of the program, \<open>K p\<close> the count of the block at \<open>p\<close> (0 when
  the block is not managed) and \<open>n\<close> the number of active delay scopes. Managed blocks are live;
  every other block is as the rest of the program left it.\<close>

definition world_inv :: "heap \<Rightarrow> (addr \<Rightarrow> nat) \<Rightarrow> nat \<Rightarrow> world \<Rightarrow> bool" where
  "world_inv F K n w \<longleftrightarrow>
     heap_ok (w_heap w) \<and> uc_ok (w_table w) \<and> Suc n < 2 ^ 31 \<and>
     (case uc_view (w_table w) nullptr of None \<Rightarrow> n = 0 | Some i \<Rightarrow> i = of_nat (Suc n)) \<and>
     (\<forall>p. p \<noteq> nullptr \<longrightarrow> uc_view (w_table w) p = (if K p = 0 then None else Some (of_nat (K p)))) \<and>
     (\<forall>p. p = nullptr \<or> K p = 0 \<longrightarrow> w_heap w p = F p) \<and>
     (\<forall>p. p \<noteq> nullptr \<and> 0 < K p \<longrightarrow> (\<exists>d. w_heap w p = Some d \<and> length d < size_limit) \<and> F p = None) \<and>
     (\<forall>p. p \<noteq> nullptr \<longrightarrow> K p < 2 ^ 31)"

text \<open>The table has room for one more entry.\<close>

definition room :: "world \<Rightarrow> bool" where
  "room w \<longleftrightarrow> card (dom (uc_view (w_table w))) < uc_limit (w_table w)"

lemma world_inv_heap_ok: "world_inv F K n w \<Longrightarrow> heap_ok (w_heap w)"
  and world_inv_uc_ok: "world_inv F K n w \<Longrightarrow> uc_ok (w_table w)"
  and world_inv_view: "world_inv F K n w \<Longrightarrow> p \<noteq> nullptr \<Longrightarrow>
    uc_view (w_table w) p = (if K p = 0 then None else Some (of_nat (K p)))"
  and world_inv_bound: "world_inv F K n w \<Longrightarrow> p \<noteq> nullptr \<Longrightarrow> K p < 2 ^ 31"
  and world_inv_live: "world_inv F K n w \<Longrightarrow> p \<noteq> nullptr \<Longrightarrow> 0 < K p \<Longrightarrow>
    \<exists>d. w_heap w p = Some d \<and> length d < size_limit"
  and world_inv_unmanaged: "world_inv F K n w \<Longrightarrow> K p = 0 \<Longrightarrow> w_heap w p = F p"
  by (auto simp: world_inv_def)

lemma world_inv_free_address:
  "world_inv F K n w \<Longrightarrow> p \<noteq> nullptr \<Longrightarrow> w_heap w p = None \<Longrightarrow> K p = 0 \<and> F p = None"
  by (metis world_inv_live world_inv_unmanaged gr0I option.distinct(1))

lemma initial_use_count:
  "world_inv F K n w \<Longrightarrow> get_initial_use_count w = Inr (of_nat (Suc n))"
  using use_count_table.get_view [of "w_table w" nullptr 1]
  by (auto simp: world_inv_def get_initial_use_count_def split: option.splits)

lemma use_count_at:
  "world_inv F K n w \<Longrightarrow> p \<noteq> nullptr \<Longrightarrow>
   ipm_at_or_default uc_traits p d (w_table w) = Inr (if K p = 0 then d else of_nat (K p))"
  using use_count_table.get_view [OF world_inv_uc_ok] by (simp add: world_inv_view)

lemma use_count_eq:
  assumes "world_inv F K n w" and "buf_ptr b \<noteq> nullptr"
  shows "srb_use_count b w = Inr (of_nat (K (buf_ptr b)))"
proof -
  have "signed (of_nat k :: 32 word) = (of_nat k :: addr)" if "k < 2 ^ 31" for k
    using that by (simp add: signed_of_nat signed_take_bit_int_eq_self)
  with use_count_at [OF assms, of 0] world_inv_bound [OF assms] assms(2) show ?thesis
    by (auto simp: srb_use_count_def)
qed

lemma use_count_greater_one:
  assumes "world_inv F K n w" and "buf_ptr b \<noteq> nullptr"
  shows "(case srb_use_count b w of Inl _ \<Rightarrow> False | Inr n \<Rightarrow> 1 < n) \<longleftrightarrow> 1 < K (buf_ptr b)"
  using world_inv_bound [OF assms]
  by (simp add: use_count_eq [OF assms] word_less_nat_alt unat_of_nat)

lemma is_known_iff:
  assumes "world_inv F K n w"
  shows "srb_is_known p w = Inr (p \<noteq> nullptr \<and> 0 < K p)"
proof (cases "p = nullptr")
  case True
  then show ?thesis by (simp add: srb_is_known_def)
next
  case False
  obtain x where "ipm_load uc_traits (w_table w) = Inr x" and "uc_view (w_table w) = map_of x"
    using world_inv_uc_ok [OF assms] by (elim uc_okE)
  with False world_inv_view [OF assms False] show ?thesis
    by (auto simp: srb_is_known_def ipm_count_def smap_count_def split: if_splits)
qed

text \<open>A new managed block: its bytes are on the heap and its count goes into the table.\<close>

lemma insert_count:
  assumes "world_inv F K n w" and "p \<noteq> nullptr" and "w_heap w p = None" and "room w" and "length d < size_limit"
    and "0 < k" and "k < 2 ^ 31"
  obtains w' where "srb_insert_count p (of_nat k) (w\<lparr>w_heap := (w_heap w)(p \<mapsto> d)\<rparr>) = (Inr (), w')"
    and "w_heap w' = (w_heap w)(p \<mapsto> d)" and "world_inv F (K(p := k)) n w'"
proof -
  from use_count_table.put_view [OF world_inv_uc_ok [OF assms(1)]] assms(4)
  obtain t where t: "ipm_insert uc_traits p (of_nat k) (w_table w) = (Inr (), t)" "uc_ok t"
    "uc_view t = (uc_view (w_table w))(p \<mapsto> of_nat k)"
    unfolding room_def by blast
  have "world_inv F (K(p := k)) n (w\<lparr>w_heap := (w_heap w)(p \<mapsto> d), w_table := t\<rparr>)"
    using assms world_inv_free_address [OF assms(1-3)] t(2,3) by (auto simp: world_inv_def)
  with t(1) that show thesis
    by (auto simp: srb_insert_count_def)
qed

lemma insert_initial:
  assumes "world_inv F K n w" and "p \<noteq> nullptr" and "w_heap w p = None" and "room w" and "length d < size_limit"
  obtains w' where "srb_insert_initial p (w\<lparr>w_heap := (w_heap w)(p \<mapsto> d)\<rparr>) = (Inr (), w')"
    and "w_heap w' = (w_heap w)(p \<mapsto> d)" and "world_inv F (K(p := Suc n)) n w'"
proof -
  have "Suc n < 2 ^ 31"
    using assms(1) by (simp add: world_inv_def)
  from insert_count [OF assms _ this] obtain w' where
    "srb_insert_count p (of_nat (Suc n)) (w\<lparr>w_heap := (w_heap w)(p \<mapsto> d)\<rparr>) = (Inr (), w')"
    "w_heap w' = (w_heap w)(p \<mapsto> d)" "world_inv F (K(p := Suc n)) n w'"
    by blast
  with that initial_use_count [OF assms(1)] show thesis
    by (simp add: srb_insert_initial_def get_initial_use_count_def)
qed

text \<open>One more reference to a managed block.\<close>

lemma acquire:
  assumes "world_inv F K n w" and "p \<noteq> nullptr" and "0 < K p" and "Suc (K p) < 2 ^ 31"
  obtains t where "ipm_update uc_traits p incr msg (w_table w) = (Inr (of_nat (Suc (K p))), t)"
    and "world_inv F (K(p := Suc (K p))) n (w\<lparr>w_table := t\<rparr>)"
proof -
  have "uc_view (w_table w) p = Some (of_nat (K p))"
    using world_inv_view [OF assms(1,2)] assms(3) by simp
  from use_count_table.upd_view [where f = incr, OF world_inv_uc_ok [OF assms(1)] this incr_count [OF assms(4)]]
  obtain t where t: "ipm_update uc_traits p incr msg (w_table w) = (Inr (of_nat (Suc (K p))), t)" "uc_ok t"
    "uc_view t = (uc_view (w_table w))(p \<mapsto> of_nat (Suc (K p)))"
    by blast
  have "world_inv F (K(p := Suc (K p))) n (w\<lparr>w_table := t\<rparr>)"
    using assms t(2,3) by (auto simp: world_inv_def)
  from that [OF t(1) this] show thesis .
qed

lemma world_inv_erase:
  assumes "world_inv F K n w" and "p \<noteq> nullptr" and "0 < K p"
    and "uc_ok t" and "uc_view t = (uc_view (w_table w))(p := None)"
  shows "world_inv F (K(p := 0)) n (w\<lparr>w_table := t, w_heap := (w_heap w)(p := None)\<rparr>)"
  using assms by (auto simp: world_inv_def)

text \<open>One reference less: the count is decremented, and at 0 the block is freed and its entry erased.\<close>

lemma release:
  assumes "world_inv F K n w" and "p \<noteq> nullptr" and "0 < K p"
  obtains (shared) t where "1 < K p"
      and "ipm_update uc_traits p decr msg (w_table w) = (Inr (of_nat (K p - 1)), t)"
      and "of_nat (K p - 1) \<noteq> (0 :: 32 word)"
      and "world_inv F (K(p := K p - 1)) n (w\<lparr>w_table := t\<rparr>)"
      and "room w \<Longrightarrow> room (w\<lparr>w_table := t\<rparr>)"
  | (last) t t' where "K p = 1" and "ipm_update uc_traits p decr msg (w_table w) = (Inr 0, t)"
      and "ipm_erase uc_traits p t = (Inr (), t')"
      and "world_inv F (K(p := 0)) n (w\<lparr>w_table := t', w_heap := (w_heap w)(p := None)\<rparr>)"
      and "\<And>h. room w \<Longrightarrow> room (w\<lparr>w_table := t', w_heap := h\<rparr>)"
proof -
  have bound: "K p < 2 ^ 31"
    by (rule world_inv_bound [OF assms(1,2)])
  have at: "uc_view (w_table w) p = Some (of_nat (K p))"
    using world_inv_view [OF assms(1,2)] assms(3) by simp
  from use_count_table.upd_view [where f = decr, OF world_inv_uc_ok [OF assms(1)] this decr_count [OF assms(3) bound]]
  obtain t where t: "ipm_update uc_traits p decr msg (w_table w) = (Inr (of_nat (K p - 1)), t)" "uc_ok t"
    "uc_view t = (uc_view (w_table w))(p \<mapsto> of_nat (K p - 1))" "uc_limit t = uc_limit (w_table w)"
    by blast
  have dom: "dom (uc_view t) = dom (uc_view (w_table w))"
    using at t(3) by auto
  show thesis
  proof (cases "K p = 1")
    case True
    obtain t' where t': "ipm_erase uc_traits p t = (Inr (), t')" "uc_ok t'"
      "uc_view t' = (uc_view t)(p := None)" "uc_limit t' = uc_limit t"
      using use_count_table.del_view [OF t(2)] by blast
    have "world_inv F (K(p := 0)) n (w\<lparr>w_table := t', w_heap := (w_heap w)(p := None)\<rparr>)"
      using world_inv_erase [OF assms t'(2)] t(3) t'(3) by simp
    moreover have "room w \<Longrightarrow> room (w\<lparr>w_table := t', w_heap := h\<rparr>)" for h
      using t(4) t'(3,4) dom card_Diff1_le [of "dom (uc_view t)" p] by (simp add: room_def)
    ultimately show thesis
      using last True t(1) t'(1) by simp
  next
    case False
    with assms(3) bound have "1 < K p" and nz: "of_nat (K p - 1) \<noteq> (0 :: 32 word)"
      using count_zero [of "K p - 1"] by auto
    moreover have "world_inv F (K(p := K p - 1)) n (w\<lparr>w_table := t\<rparr>)"
      using assms t(2,3) \<open>1 < K p\<close> by (auto simp: world_inv_def)
    moreover have "room w \<Longrightarrow> room (w\<lparr>w_table := t\<rparr>)"
      using dom t(4) by (simp add: room_def)
    ultimately show thesis
      using t(1) by (intro shared)
  qed
qed

text \<open>The bytes of a managed block may change.\<close>

lemma world_inv_write:
  assumes "world_inv F K n w" and "p \<noteq> nullptr" and "0 < K p" and "length d < size_limit"
  shows "world_inv F K n (w\<lparr>w_heap := (w_heap w)(p \<mapsto> d)\<rparr>)"
  using assms by (auto simp: world_inv_def)

lemma world_inv_cong:
  assumes "\<And>p. p \<noteq> nullptr \<Longrightarrow> K p = K' p"
  shows "world_inv F K n w \<longleftrightarrow> world_inv F K' n w"
  using assms by (simp add: world_inv_def cong: conj_cong disj_cong)

lemma world_inv_null [simp]: "world_inv F (K(nullptr := k)) n w \<longleftrightarrow> world_inv F K n w"
  by (rule world_inv_cong) simp

section \<open>The effect of the operations\<close>

text \<open>An object refers to nothing, or to a live block. Its size is that of the block, or 0 when
  the object was made from a raw address.\<close>

definition obj_ok :: "buffer \<Rightarrow> heap \<Rightarrow> bool" where
  "obj_ok b h \<longleftrightarrow>
     (if buf_ptr b = nullptr then buf_size b = 0
      else (case h (buf_ptr b) of
              None \<Rightarrow> False
            | Some d \<Rightarrow> length d < size_limit \<and> (buf_size b = length d \<or> buf_size b = 0)))"

definition obj_bytes :: "buffer \<Rightarrow> heap \<Rightarrow> bytes" where
  "obj_bytes b h = (case h (buf_ptr b) of None \<Rightarrow> [] | Some d \<Rightarrow> d)"

lemma srb_reset_effect:
  assumes "world_inv F K n w" and "buf_ptr b \<noteq> nullptr \<Longrightarrow> 0 < K (buf_ptr b)"
  obtains w' where "srb_reset (b, w) = (Inr (), buffer_default, w')"
    and "world_inv F (K(buf_ptr b := K (buf_ptr b) - 1)) n w'" and "room w \<longrightarrow> room w'"
    and "w_heap w' = (if K (buf_ptr b) = 1 then (w_heap w)(buf_ptr b := None) else w_heap w)"
proof (cases "buf_ptr b = nullptr")
  case True
  have "srb_reset (b, w) = (Inr (), buffer_default, w)"
    using True is_known_iff [OF assms(1)] by (simp add: srb_reset_def srb_reset_body_def)
  with that [of w] assms(1) True show thesis
    by (simp add: world_inv_heap_ok)
next
  case False
  with assms have pos: "0 < K (buf_ptr b)" by simp
  obtain d where d: "w_heap w (buf_ptr b) = Some d"
    using world_inv_live [OF assms(1) False pos] by blast
  have known: "srb_is_known (buf_ptr b) w = Inr True"
    using is_known_iff [OF assms(1)] False pos by simp
  from release [OF assms(1) False pos, of update_default_error] show thesis
  proof cases
    case (1 t)
    then show thesis
      using that [of "w\<lparr>w_table := t\<rparr>"] known by (simp add: srb_reset_def srb_reset_body_def)
  next
    case (2 t t')
    then show thesis
      using that [of "w\<lparr>w_table := t', w_heap := (w_heap w)(buf_ptr b := None)\<rparr>"] known False d
      by (simp add: srb_reset_def srb_reset_body_def buffer_reset_def heap_free_live)
  qed
qed

lemma update_or_insert_missing:
  "uc_ok t \<Longrightarrow> uc_view t p = None \<Longrightarrow> ipm_update_or_insert uc_traits p f k t = ipm_insert uc_traits p k t"
  by (elim uc_okE) (simp add: ipm_update_or_insert_def ipm_insert_def)

lemma srb_register_effect:
  assumes "world_inv F K n w" and "buf_ptr b \<noteq> nullptr" and "w_heap w (buf_ptr b) = None" and "room w"
    and "length d < size_limit"
  obtains w' where "srb_register b (w\<lparr>w_heap := (w_heap w)(buf_ptr b \<mapsto> d)\<rparr>) = (Inr b, w')"
    and "w_heap w' = (w_heap w)(buf_ptr b \<mapsto> d)" and "world_inv F (K(buf_ptr b := Suc n)) n w'"
proof -
  have "uc_view (w_table w) (buf_ptr b) = None"
    using world_inv_free_address [OF assms(1-3)] world_inv_view [OF assms(1,2)] by simp
  then have "ipm_update_or_insert uc_traits (buf_ptr b) f k (w_table w)
      = ipm_insert uc_traits (buf_ptr b) k (w_table w)" for f k
    by (rule update_or_insert_missing [OF world_inv_uc_ok [OF assms(1)]])
  moreover obtain w' where "srb_insert_initial (buf_ptr b) (w\<lparr>w_heap := (w_heap w)(buf_ptr b \<mapsto> d)\<rparr>) = (Inr (), w')"
    "w_heap w' = (w_heap w)(buf_ptr b \<mapsto> d)" "world_inv F (K(buf_ptr b := Suc n)) n w'"
    by (rule insert_initial [OF assms])
  ultimately show thesis
    using that initial_use_count [OF assms(1)]
    by (auto simp: srb_register_def srb_insert_initial_def srb_insert_count_def get_initial_use_count_def
        split: prod.splits sum.splits)
qed

lemma obj_ok_block:
  assumes "obj_ok b h" and "buf_ptr b \<noteq> nullptr"
  shows "h (buf_ptr b) = Some (obj_bytes b h)" and "length (obj_bytes b h) < size_limit"
    and "buf_size b = length (obj_bytes b h) \<or> buf_size b = 0"
  using assms by (auto simp: obj_ok_def obj_bytes_def split: option.splits)

lemma obj_ok_buffer:
  assumes "obj_ok b h" and "heap_ok h" and "buf_size b = 0 \<Longrightarrow> buf_ptr b = nullptr"
  shows "buffer_ok (b, h)" and "buffer_bytes (b, h) = obj_bytes b h"
  using assms
  by (cases "buf_ptr b = nullptr"; auto simp: obj_ok_def obj_bytes_def buffer_ok_def buffer_bytes_def heap_ok_def
      split: option.splits)+

text \<open>Copy-on-write: the other holders keep the old block.\<close>

lemma srb_append_cow_effect:
  assumes inv: "world_inv F K n w" and ok: "obj_ok b (w_heap w)" and p: "buf_ptr b \<noteq> nullptr" "1 < K (buf_ptr b)"
    and size: "0 < buf_size b" "buf_size b + length d < size_limit" and room: "room w"
  obtains (oom) "srb_append_cow c d (b, w) = (Inl bad_alloc, b, w)"
  | (copied) q w' where "q \<noteq> nullptr" and "w_heap w q = None" and "q = fst c"
      and "srb_append_cow c d (b, w) = (Inr (), \<lparr>buf_size = buf_size b + length d, buf_ptr = q\<rparr>, w')"
      and "w_heap w' = (w_heap w)(q \<mapsto> obj_bytes b (w_heap w) @ d)"
      and "world_inv F (K(buf_ptr b := K (buf_ptr b) - 1, q := Suc n)) n w'"
proof -
  let ?h = "w_heap w" and ?p = "buf_ptr b" and ?n = "buf_size b + length d"
  define D where "D = obj_bytes b ?h"
  have D: "?h ?p = Some D" "length D = buf_size b"
    using obj_ok_block [OF ok p(1)] size(1) by (auto simp: D_def)
  show thesis
  proof (cases "fst (heap_malloc c ?n ?h) = nullptr")
    case True
    then have "srb_append_cow c d (b, w) = (Inl bad_alloc, b, w)"
      using size by (cases "heap_malloc c ?n ?h") (auto simp: srb_append_cow_def dest: heap_malloc_null)
    then show thesis by (rule oom)
  next
    case False
    define q where "q = fst c"
    define raw where "raw = map (snd c) [0..<?n]"
    have q: "q \<noteq> nullptr" "?h q = None" "heap_malloc c ?n ?h = (q, ?h(q \<mapsto> raw))"
      using False by (auto simp: heap_malloc_def q_def raw_def split: if_splits)
    have pq: "?p \<noteq> q"
      using D(1) q(2) by auto
    have rd: "heap_read ?p (buf_size b) (?h(q \<mapsto> raw)) = Inr D"
      using D pq by (simp add: heap_read_def)
    have wr1: "heap_write q 0 D (?h(q \<mapsto> raw)) = (Inr (), ?h(q \<mapsto> D @ drop (length D) raw))"
      using D(2) by (simp add: heap_write_def raw_def)
    have wr2: "heap_write q (buf_size b) d (?h(q \<mapsto> D @ drop (length D) raw)) = (Inr (), ?h(q \<mapsto> D @ d))"
      using D(2) by (simp add: heap_write_def raw_def)
    have "0 < K ?p" using p(2) by simp
    from release [OF inv p(1) this, of update_default_error] p(2) obtain t where t:
      "ipm_update uc_traits ?p decr update_default_error (w_table w) = (Inr (of_nat (K ?p - 1)), t)"
      "of_nat (K ?p - 1) \<noteq> (0 :: 32 word)"
      "world_inv F (K(?p := K ?p - 1)) n (w\<lparr>w_table := t\<rparr>)" "room (w\<lparr>w_table := t\<rparr>)"
      using room by (metis less_irrefl_nat)
    have drop: "srb_drop_old ?p (w\<lparr>w_heap := ?h(q \<mapsto> D @ d)\<rparr>) = (Inr (), w\<lparr>w_heap := ?h(q \<mapsto> D @ d), w_table := t\<rparr>)"
      using t by (simp add: srb_drop_old_def)
    obtain w' where w': "srb_insert_initial q (w\<lparr>w_table := t, w_heap := ?h(q \<mapsto> D @ d)\<rparr>) = (Inr (), w')"
      "w_heap w' = ?h(q \<mapsto> D @ d)" "world_inv F (K(?p := K ?p - 1, q := Suc n)) n w'"
      using insert_initial [OF t(3) q(1) _ t(4), of "D @ d"] q(2) D(2) size(2) by auto
    have "srb_append_cow c d (b, w) = (Inr (), \<lparr>buf_size = ?n, buf_ptr = q\<rparr>, w')"
      using q rd wr1 wr2 drop w'(1) size by (simp add: srb_append_cow_def)
    then show thesis
      using copied [of q w'] q w' by (simp add: D_def q_def)
  qed
qed

text \<open>The exclusive owner, or an object without a block.\<close>

lemma srb_append_exclusive_effect:
  assumes inv: "world_inv F K n w" and ok: "obj_ok b (w_heap w)"
    and owner: "buf_ptr b \<noteq> nullptr \<longrightarrow> K (buf_ptr b) = 1 \<and> 0 < buf_size b"
    and size: "buf_size b + length d < size_limit" and room: "room w"
  obtains (oom) "srb_append_exclusive c d (b, w) = (Inl std_bad_alloc, b, w)"
      and "fst c = nullptr \<or> w_heap w (fst c) \<noteq> None"
  | (grown) w' where "buf_ptr b \<noteq> nullptr" and "fst c = buf_ptr b"
      and "srb_append_exclusive c d (b, w) = (Inr (), \<lparr>buf_size = buf_size b + length d, buf_ptr = buf_ptr b\<rparr>, w')"
      and "w_heap w' = (w_heap w)(buf_ptr b \<mapsto> obj_bytes b (w_heap w) @ d)" and "world_inv F K n w'"
  | (moved) q w' where "buf_ptr b \<noteq> nullptr" and "q \<noteq> nullptr" and "w_heap w q = None" and "q = fst c"
      and "srb_append_exclusive c d (b, w) = (Inr (), \<lparr>buf_size = buf_size b + length d, buf_ptr = q\<rparr>, w')"
      and "w_heap w' = (w_heap w)(buf_ptr b := None, q \<mapsto> obj_bytes b (w_heap w) @ d)"
      and "world_inv F (K(buf_ptr b := 0, q := 1)) n w'"
  | (first) q w' where "buf_ptr b = nullptr" and "q \<noteq> nullptr" and "w_heap w q = None" and "q = fst c"
      and "srb_append_exclusive c d (b, w) = (Inr (), \<lparr>buf_size = length d, buf_ptr = q\<rparr>, w')"
      and "w_heap w' = (w_heap w)(q \<mapsto> d)" and "world_inv F (K(q := Suc n)) n w'"
proof -
  let ?h = "w_heap w" and ?p = "buf_ptr b"
  have p: "?p \<noteq> nullptr \<Longrightarrow> K ?p = 1" "?p \<noteq> nullptr \<Longrightarrow> 0 < buf_size b"
    using owner by auto
  have heap: "heap_ok ?h"
    by (rule world_inv_heap_ok [OF inv])
  have "buf_size b = 0 \<Longrightarrow> ?p = nullptr"
    using p(2) by fastforce
  then have buf: "buffer_ok (b, ?h)" and bytes: "buffer_bytes (b, ?h) = obj_bytes b ?h"
    using obj_ok_buffer [OF ok heap] by simp_all
  have old_count: "?p \<noteq> nullptr \<Longrightarrow> ipm_at_or_default uc_traits ?p i (w_table w) = Inr 1" for i
    using use_count_at [OF inv] p(1) by simp
  note initial = initial_use_count [OF inv]
  have "?p = nullptr \<or> 0 < buf_size b + length d" using p(2) by auto
  from buffer_append_cases [OF buf size this, of c] show thesis
  proof cases
    case 1
    then have "srb_append_exclusive c d (b, w) = (Inl std_bad_alloc, b, w)"
      using old_count initial by (auto simp: srb_append_exclusive_def Let_def)
    then show thesis
      using 1(2) by (rule oom)
  next
    case (2 q)
    show thesis
    proof (cases "?p = nullptr")
      case True
      have fresh: "?h q = None" and nil: "obj_bytes b ?h = []"
        using 2(1,2) True heap by (auto simp: obj_bytes_def heap_ok_def)
      have size0: "buf_size b = 0"
        using ok True by (simp add: obj_ok_def)
      obtain w' where w': "srb_insert_initial q (w\<lparr>w_heap := ?h(q \<mapsto> d)\<rparr>) = (Inr (), w')"
        "w_heap w' = ?h(q \<mapsto> d)" "world_inv F (K(q := Suc n)) n w'"
        by (rule insert_initial [OF inv 2(1) fresh room]) (use size in auto)
      have "srb_append_exclusive c d (b, w) = (Inr (), \<lparr>buf_size = length d, buf_ptr = q\<rparr>, w')"
        using 2 True w'(1) heap size0 bytes nil by (simp add: srb_append_exclusive_def)
      then show thesis
        using first [of q w'] True 2 fresh w' by simp
    next
      case owner: False
      have len: "length (obj_bytes b ?h @ d) < size_limit"
        using obj_ok_block [OF ok owner] p(2) [OF owner] size by auto
      show thesis
      proof (cases "q = ?p")
        case True
        have "srb_append_exclusive c d (b, w) =
            (Inr (), \<lparr>buf_size = buf_size b + length d, buf_ptr = ?p\<rparr>, w\<lparr>w_heap := ?h(?p \<mapsto> obj_bytes b ?h @ d)\<rparr>)"
          using 2(4) True owner old_count initial bytes by (simp add: srb_append_exclusive_def Let_def)
        then show thesis
          using grown owner True 2(3) world_inv_write [OF inv owner, of "obj_bytes b ?h @ d"] p(1) len by simp
      next
        case False
        have fresh: "?h q = None" using 2(2) False by simp
        obtain w1 where w1: "srb_insert_count q 1 (w\<lparr>w_heap := ?h(q \<mapsto> obj_bytes b ?h @ d)\<rparr>) = (Inr (), w1)"
          "w_heap w1 = ?h(q \<mapsto> obj_bytes b ?h @ d)" "world_inv F (K(q := 1)) n w1"
          using insert_count [OF inv 2(1) fresh room len, of 1] by auto
        define h1 where "h1 = ?h(?p := None, q \<mapsto> obj_bytes b ?h @ d)"
        have w2: "srb_insert_count q 1 (w\<lparr>w_heap := h1\<rparr>) = (Inr (), w1\<lparr>w_heap := h1\<rparr>)"
          using w1(1) by (auto simp: srb_insert_count_def split: prod.splits)
        obtain t where t: "ipm_erase uc_traits ?p (w_table w1) = (Inr (), t)" "uc_ok t"
          "uc_view t = (uc_view (w_table w1))(?p := None)"
          using use_count_table.del_view [OF world_inv_uc_ok [OF w1(3)]] by blast
        have "srb_append_exclusive c d (b, w) =
            (Inr (), \<lparr>buf_size = buf_size b + length d, buf_ptr = q\<rparr>, w1\<lparr>w_heap := h1, w_table := t\<rparr>)"
          using 2(4) False owner old_count initial bytes w2 t(1)
          by (simp add: srb_append_exclusive_def h1_def)
        moreover have "h1 = (w_heap w1)(?p := None)" and "K(?p := 0, q := 1) = K(q := 1, ?p := 0)"
          using w1(2) False by (auto simp: h1_def fun_eq_iff)
        then have "world_inv F (K(?p := 0, q := 1)) n (w1\<lparr>w_heap := h1, w_table := t\<rparr>)"
          using world_inv_erase [OF w1(3) owner _ t(2,3)] False p(1) owner by simp
        ultimately show thesis
          using moved [of q] owner 2 fresh by (simp add: h1_def)
      qed
    qed
  qed
qed

text \<open>A deep copy into an object without a block.\<close>

lemma buffer_assign_fresh:
  assumes "buf_ptr other \<noteq> nullptr" and "h (buf_ptr other) = Some D" and "buf_size other \<le> length D"
  obtains (oom) "buffer_assign c False other (buffer_default, h) = (Inl std_bad_alloc, buffer_default, h)"
  | (copied) q where "q \<noteq> nullptr" and "h q = None" and "q = fst c"
      and "buffer_assign c False other (buffer_default, h) =
        (Inr (), \<lparr>buf_size = buf_size other, buf_ptr = q\<rparr>, h(q \<mapsto> take (buf_size other) D))"
proof (cases "fst c = nullptr \<or> h (fst c) \<noteq> None")
  case True
  then have "buffer_assign c False other (buffer_default, h) = (Inl std_bad_alloc, buffer_default, h)"
    using assms(1) by (auto simp: buffer_assign_def buffer_default_def heap_realloc_def heap_malloc_def)
  then show thesis by (rule oom)
next
  case False
  let ?n = "buf_size other"
  let ?h = "h(fst c \<mapsto> map (snd c) [0..<?n])"
  have "heap_read (buf_ptr other) ?n ?h = Inr (take ?n D)"
    using assms False by (auto simp: heap_read_def)
  moreover have "heap_write (fst c) 0 (take ?n D) ?h = (Inr (), h(fst c \<mapsto> take ?n D))"
    using assms(3) by (simp add: heap_write_def)
  ultimately show thesis
    using copied [of "fst c"] assms(1) False
    by (auto simp: buffer_assign_def buffer_default_def heap_realloc_def heap_malloc_def)
qed

section \<open>The effect of delay scopes\<close>

lemma foreach_keys: "foreach_items (\<lambda>kv s. (True, s @ [fst kv])) x acc = acc @ map fst x"
  by (induction x arbitrary: acc) auto

lemma dd_keys_ok:
  assumes "world_inv F K n w"
  obtains ks where "dd_keys w = Inr ks" and "distinct ks" and "set ks = dom (uc_view (w_table w))"
proof -
  obtain x where "ipm_load uc_traits (w_table w) = Inr x" "smap_ok x" "uc_view (w_table w) = map_of x"
    using world_inv_uc_ok [OF assms] by (elim uc_okE)
  with that [of "map fst x"] show thesis
    by (simp add: dd_keys_def ipm_foreach_def foreach_keys smap_ok_distinct dom_map_of_conv_image_fst)
qed

text \<open>Leaving a scope drops one reference of each of its blocks.\<close>

lemma dd_release_effect:
  assumes "world_inv F K n w" and "distinct ps" and "\<forall>p\<in>set ps. p \<noteq> nullptr \<and> 0 < K p"
  shows "\<exists>w'. dd_release ps w = (Inr (), w') \<and>
    world_inv F (\<lambda>p. if p \<in> set ps then K p - 1 else K p) n w' \<and>
    w_heap w' = (\<lambda>p. if p \<in> set ps \<and> K p = 1 then None else w_heap w p)"
  using assms
proof (induction ps arbitrary: w K)
  case Nil
  then show ?case by simp
next
  case (Cons p ps)
  have p: "p \<noteq> nullptr" "0 < K p" using Cons.prems(3) by auto
  define K1 where "K1 = K(p := K p - 1)"
  obtain w1 where w1: "dd_release (p # ps) w = dd_release ps w1" "world_inv F K1 n w1"
    "w_heap w1 = (if K p = 1 then (w_heap w)(p := None) else w_heap w)"
    using release [OF Cons.prems(1) p, of update_default_error]
  proof cases
    case (1 t)
    with that [of "w\<lparr>w_table := t\<rparr>"] show thesis by (simp add: K1_def)
  next
    case (2 t t')
    obtain d where "w_heap w p = Some d"
      using world_inv_live [OF Cons.prems(1) p] by blast
    with 2 p(1) that [of "w\<lparr>w_table := t', w_heap := (w_heap w)(p := None)\<rparr>"] show thesis
      by (simp add: K1_def heap_free_live)
  qed
  have "\<forall>q\<in>set ps. q \<noteq> nullptr \<and> 0 < K1 q"
    using Cons.prems(2,3) by (auto simp: K1_def)
  with Cons.IH [OF w1(2)] Cons.prems(2) obtain w' where w': "dd_release ps w1 = (Inr (), w')"
    "world_inv F (\<lambda>q. if q \<in> set ps then K1 q - 1 else K1 q) n w'"
    "w_heap w' = (\<lambda>q. if q \<in> set ps \<and> K1 q = 1 then None else w_heap w1 q)"
    by auto
  have "(\<lambda>q. if q \<in> set ps then K1 q - 1 else K1 q) = (\<lambda>q. if q \<in> set (p # ps) then K q - 1 else K q)"
    using Cons.prems(2) by (auto simp: K1_def fun_eq_iff)
  moreover have "w_heap w' = (\<lambda>q. if q \<in> set (p # ps) \<and> K q = 1 then None else w_heap w q)"
    using Cons.prems(2) w'(3) w1(3) by (auto simp: K1_def fun_eq_iff)
  ultimately show ?case
    using w1(1) w'(1,2) by auto
qed

lemma dd_ctor_effect:
  assumes "world_inv F K n w" and "Suc (Suc n) < 2 ^ 31" and "room w"
  obtains scope w' where "dd_ctor w = (Inr scope, w')" and "w_heap w' = w_heap w"
    and "initial_on_entry scope = of_nat (Suc n)"
    and "set (old_entries scope) = dom (uc_view (w_table w))" and "world_inv F K (Suc n) w'"
    and "uc_view (w_table w') = (uc_view (w_table w))(nullptr \<mapsto> of_nat (Suc (Suc n)))"
    and "uc_limit (w_table w') = uc_limit (w_table w)"
proof -
  obtain ks where ks: "dd_keys w = Inr ks" "set ks = dom (uc_view (w_table w))"
    by (rule dd_keys_ok [OF assms(1)])
  from use_count_table.put_view [OF world_inv_uc_ok [OF assms(1)]] assms(3)
  obtain t where t: "ipm_insert uc_traits nullptr (of_nat (Suc (Suc n))) (w_table w) = (Inr (), t)" "uc_ok t"
    "uc_view t = (uc_view (w_table w))(nullptr \<mapsto> of_nat (Suc (Suc n)))" "uc_limit t = uc_limit (w_table w)"
    unfolding room_def by blast
  have "world_inv F K (Suc n) (w\<lparr>w_table := t\<rparr>)"
    using assms(1,2) t(2,3) by (simp add: world_inv_def)
  with that [of "\<lparr>old_entries = ks, initial_on_entry = of_nat (Suc n)\<rparr>" "w\<lparr>w_table := t\<rparr>"] ks t(1,3,4)
    initial_use_count [OF assms(1)] incr_count [OF assms(2)]
  show thesis
    by (simp add: dd_ctor_def srb_insert_count_def)
qed

lemma dd_dtor_effect:
  assumes "world_inv F K (Suc n) w" and "initial_on_entry scope = of_nat (Suc n)"
  obtains w' where "dd_dtor scope w = (Inr (), w')"
    and "world_inv F (\<lambda>p. if p \<in> set (old_entries scope) then K p else K p - 1) n w'"
    and "w_heap w' = (\<lambda>p. if p \<noteq> nullptr \<and> p \<notin> set (old_entries scope) \<and> K p = 1 then None else w_heap w p)"
proof -
  let ?old = "set (old_entries scope)"
  obtain ks where ks: "dd_keys w = Inr ks" "distinct ks" "set ks = dom (uc_view (w_table w))"
    by (rule dd_keys_ok [OF assms(1)])
  define ps where "ps = filter (\<lambda>p. p \<noteq> nullptr \<and> p \<notin> ?old) ks"
  have set_ps: "set ps = {p. p \<noteq> nullptr \<and> p \<notin> ?old \<and> 0 < K p}"
    using ks(3) world_inv_view [OF assms(1)] by (auto simp: ps_def dom_def split: if_splits)
  have "distinct ps" using ks(2) by (simp add: ps_def)
  from dd_release_effect [OF assms(1) this] set_ps obtain w1 where w1: "dd_release ps w = (Inr (), w1)"
    "world_inv F (\<lambda>p. if p \<in> set ps then K p - 1 else K p) (Suc n) w1"
    "w_heap w1 = (\<lambda>p. if p \<in> set ps \<and> K p = 1 then None else w_heap w p)"
    by auto
  have "uc_view (w_table w1) nullptr \<noteq> None"
    using w1(2) by (cases "uc_view (w_table w1) nullptr") (simp_all add: world_inv_def)
  with use_count_table.put_view [OF world_inv_uc_ok [OF w1(2)]]
  obtain t where t: "ipm_insert uc_traits nullptr (of_nat (Suc n)) (w_table w1) = (Inr (), t)" "uc_ok t"
    "uc_view t = (uc_view (w_table w1))(nullptr \<mapsto> of_nat (Suc n))"
    by blast
  let ?w' = "w1\<lparr>w_table := t\<rparr>"
  have "world_inv F (\<lambda>p. if p \<in> set ps then K p - 1 else K p) n ?w'"
    using w1(2) t(2,3) by (simp add: world_inv_def)
  moreover have "world_inv F (\<lambda>p. if p \<in> set ps then K p - 1 else K p) n ?w' \<longleftrightarrow>
      world_inv F (\<lambda>p. if p \<in> ?old then K p else K p - 1) n ?w'"
    by (rule world_inv_cong) (auto simp: set_ps)
  moreover have "dd_dtor scope w = (Inr (), ?w')"
    using ks(1) w1(1) t(1) assms(2) by (simp add: dd_dtor_def dd_dtor_body_def ps_def srb_insert_count_def)
  moreover have "w_heap ?w' = (\<lambda>p. if p \<noteq> nullptr \<and> p \<notin> ?old \<and> K p = 1 then None else w_heap w p)"
    using w1(3) set_ps by (auto simp: fun_eq_iff)
  ultimately show thesis
    using that by blast
qed

section \<open>The size of the segment\<close>

lemma use_count_bytes_bounds: "1024 \<le> use_count_bytes env \<and> use_count_bytes env < size_limit"
proof -
  have "strtoull10 s = (v, r) \<Longrightarrow> v < size_limit" for s v r
    by (auto simp: strtoull10_def Let_def split: prod.splits if_splits)
  then show ?thesis
    by (auto simp: use_count_bytes_def size_limit_def split: option.splits prod.splits if_splits)
qed

text \<open>Room for reference counts. Whatever the environment variable \<open>CBEAM_SRB_MAP_BYTES\<close> holds (nothing, a number, a negative
  or an overlong number, or no number at all), the segment starts as an empty table with room for at least 84 blocks;
  unset, for 5460.\<close>

lemma use_count_segment:
  "uc_ok (get_use_count env) \<and> uc_view (get_use_count env) = Map.empty \<and> 84 \<le> uc_limit (get_use_count env) \<and>
   uc_limit (get_use_count None) = 5460"
proof -
  have "8 \<le> use_count_bytes env" and "use_count_bytes env < size_limit" and "1016 div 12 \<le> (use_count_bytes env - 8) div 12"
    using use_count_bytes_bounds [of env] by (auto intro!: div_le_mono)
  moreover have "use_count_bytes None = 65536" and "65536 < size_limit"
    by (simp_all add: use_count_bytes_def size_limit_def)
  ultimately show ?thesis
    by (simp add: get_use_count_def shm_create_view)
qed

end
