(* ===== verification/Srb_System.thy ===== *)
theory Srb_System
  imports Stable_Reference_Buffer
begin

text \<open>
  A program that uses \<open>stable_reference_buffer\<close>: any number of objects, nested delay scopes, and any
  sequence of operations on them. The allocator chooses its addresses freely.

  \<^item> \<open>srb_exec\<close>: one operation, with the operations of \<^verbatim>\<open>stable_reference_buffer.hpp\<close>;
  \<^item> \<open>spec_exec\<close>: what the operation means when every object holds a value of its own (no sharing, no
    counts, no addresses);
  \<^item> \<open>sys_inv\<close>: the counts in the table are the references of the objects plus those of the scopes;
  \<^item> \<open>exec_refines\<close>: every operation that is \<open>srb_safe\<close> keeps the invariant, has no undefined
    behaviour and does to the values what \<open>spec_exec\<close> says, or throws;
  \<^item> the same for whole runs, and what becomes of the heap: no leak and no dangling object;
  \<^item> what happens outside \<open>srb_safe\<close>.

  A destroyed object leaves its slot empty, as a default constructed object is.
\<close>

record srb_system =
  sys_objs :: "buffer list"
  sys_scopes :: "delay_deallocation list"
  sys_world :: world

datatype srb_op =
    OpDefault
  | OpCtor choice nat nat
  | OpFromBuffer choice nat
  | OpFromAddress addr
  | OpCopy nat
  | OpAppend choice bytes nat
  | OpAssign nat nat
  | OpAssignBuffer choice nat nat
  | OpReset nat
  | OpDestroy nat
  | OpSwap nat nat
  | OpScopeBegin
  | OpScopeEnd

text \<open>The result of a constructor is a new object; a method works on the object in its slot.\<close>

definition sys_construct :: "buffer result \<times> world \<Rightarrow> srb_system \<Rightarrow> unit result \<times> srb_system" where
  "sys_construct rw S =
     (case rw of
        (Inl e, w) \<Rightarrow> (Inl e, S\<lparr>sys_world := w\<rparr>)
      | (Inr b, w) \<Rightarrow> (Inr (), S\<lparr>sys_objs := sys_objs S @ [b], sys_world := w\<rparr>))"

definition sys_method :: "nat \<Rightarrow> (buffer \<times> world \<Rightarrow> unit result \<times> buffer \<times> world) \<Rightarrow> srb_system \<Rightarrow> unit result \<times> srb_system" where
  "sys_method i m S =
     (case m (sys_objs S ! i, sys_world S) of
        (r, b, w) \<Rightarrow> (r, S\<lparr>sys_objs := (sys_objs S)[i := b], sys_world := w\<rparr>))"

definition srb_exec :: "srb_op \<Rightarrow> srb_system \<Rightarrow> unit result \<times> srb_system" where
  "srb_exec op S =
     (let objs = sys_objs S; w = sys_world S
      in case op of
        OpDefault \<Rightarrow> sys_construct (Inr buffer_default, w) S
      | OpCtor c n size_of_type \<Rightarrow> sys_construct (srb_ctor c n size_of_type w) S
      | OpFromBuffer c i \<Rightarrow> sys_construct (srb_from_buffer c (objs ! i) w) S
      | OpFromAddress a \<Rightarrow> sys_construct (srb_from_address a w) S
      | OpCopy i \<Rightarrow> sys_construct (srb_copy_ctor (objs ! i) w) S
      | OpAppend c d i \<Rightarrow> sys_method i (srb_append c d) S
      | OpAssign i j \<Rightarrow> sys_method i (srb_assign (i = j) (objs ! j)) S
      | OpAssignBuffer c i j \<Rightarrow> sys_method i (srb_assign_buffer c (i = j) (objs ! j)) S
      | OpReset i \<Rightarrow> sys_method i srb_reset S
      | OpDestroy i \<Rightarrow> sys_method i (\<lambda>s. case srb_dtor s of (r, w') \<Rightarrow> (r, buffer_default, w')) S
      | OpSwap i j \<Rightarrow>
          (case srb_swap (objs ! i) (objs ! j) of (a, b) \<Rightarrow> (Inr (), S\<lparr>sys_objs := objs[i := a, j := b]\<rparr>))
      | OpScopeBegin \<Rightarrow>
          (case dd_ctor w of
             (Inl e, w') \<Rightarrow> (Inl e, S\<lparr>sys_world := w'\<rparr>)
           | (Inr scope, w') \<Rightarrow> (Inr (), S\<lparr>sys_scopes := scope # sys_scopes S, sys_world := w'\<rparr>))
      | OpScopeEnd \<Rightarrow>
          (case dd_dtor (hd (sys_scopes S)) w of
             (r, w') \<Rightarrow> (r, S\<lparr>sys_scopes := tl (sys_scopes S), sys_world := w'\<rparr>)))"

section \<open>Conditions of use\<close>

text \<open>An address that a scope saw when it was entered must not be handed out again while the scope is active.\<close>

definition fresh_choice :: "choice \<Rightarrow> srb_system \<Rightarrow> bool" where
  "fresh_choice c S \<longleftrightarrow> (\<forall>scope\<in>set (sys_scopes S). fst c \<notin> set (old_entries scope))"

text \<open>Inside a scope, \<open>append\<close> must not move the block of an exclusive owner.\<close>

definition append_stays :: "choice \<Rightarrow> buffer \<Rightarrow> srb_system \<Rightarrow> bool" where
  "append_stays c b S \<longleftrightarrow>
     sys_scopes S = [] \<or> buf_ptr b = nullptr \<or> fst c = buf_ptr b \<or>
     (case srb_use_count b (sys_world S) of Inl _ \<Rightarrow> False | Inr n \<Rightarrow> 1 < n)"

definition srb_safe :: "srb_op \<Rightarrow> srb_system \<Rightarrow> bool" where
  "srb_safe op S \<longleftrightarrow>
     (let k = length (sys_objs S)
      in room (sys_world S) \<and> k + length (sys_scopes S) + 2 < 2 ^ 31 \<and>
         (case op of
            OpDefault \<Rightarrow> True
          | OpCtor c n size_of_type \<Rightarrow> fresh_choice c S
          | OpFromBuffer c i \<Rightarrow> i < k \<and> fresh_choice c S
          | OpFromAddress a \<Rightarrow> srb_is_known a (sys_world S) = Inr True
          | OpCopy i \<Rightarrow> i < k
          | OpAppend c d i \<Rightarrow>
              i < k \<and> buf_size (sys_objs S ! i) + length d < size_limit \<and> fresh_choice c S \<and>
              append_stays c (sys_objs S ! i) S
          | OpAssign i j \<Rightarrow> i < k \<and> j < k
          | OpAssignBuffer c i j \<Rightarrow> i < k \<and> j < k \<and> fresh_choice c S
          | OpReset i \<Rightarrow> i < k
          | OpDestroy i \<Rightarrow> i < k
          | OpSwap i j \<Rightarrow> i < k \<and> j < k
          | OpScopeBegin \<Rightarrow> True
          | OpScopeEnd \<Rightarrow> sys_scopes S \<noteq> []))"

section \<open>The values of the objects\<close>

text \<open>The value of an object: nothing, or its \<open>size()\<close> and the bytes of its block.\<close>

type_synonym val = "(nat \<times> bytes) option"

definition obj_val :: "heap \<Rightarrow> buffer \<Rightarrow> val" where
  "obj_val h b = (if buf_ptr b = nullptr then None else Some (buf_size b, obj_bytes b h))"

definition sys_vals :: "srb_system \<Rightarrow> val list" where
  "sys_vals S = map (obj_val (w_heap (sys_world S))) (sys_objs S)"

text \<open>The specification. \<open>oom\<close>: the allocator fails. \<open>mem\<close>: the bytes at a raw address. The first
  component of the result says whether the operation returns normally.\<close>

definition spec_exec :: "bool \<Rightarrow> (addr \<Rightarrow> bytes) \<Rightarrow> srb_op \<Rightarrow> val list \<Rightarrow> bool \<times> val list" where
  "spec_exec oom mem op vs =
     (case op of
        OpDefault \<Rightarrow> (True, vs @ [None])
      | OpCtor c n size_of_type \<Rightarrow>
          (if oom then (False, vs)
           else (True, vs @ [Some (wrap64 (n * size_of_type), map (snd c) [0..<wrap64 (n * size_of_type)])]))
      | OpFromBuffer c i \<Rightarrow>
          (case vs ! i of
             None \<Rightarrow> (False, vs)
           | Some (n, d) \<Rightarrow> if oom then (False, vs) else (True, vs @ [Some (n, take n d)]))
      | OpFromAddress a \<Rightarrow> (True, vs @ [Some (0, mem a)])
      | OpCopy i \<Rightarrow> (if vs ! i = None then (False, vs) else (True, vs @ [vs ! i]))
      | OpAppend c d i \<Rightarrow>
          (case vs ! i of
             None \<Rightarrow> if oom then (False, vs) else (True, vs[i := Some (length d, d)])
           | Some (n, x) \<Rightarrow> if n = 0 \<or> oom then (False, vs) else (True, vs[i := Some (n + length d, x @ d)]))
      | OpAssign i j \<Rightarrow> (if i \<noteq> j \<and> vs ! j = None then (False, vs) else (True, vs[i := vs ! j]))
      | OpAssignBuffer c i j \<Rightarrow>
          (if i = j then (True, vs)
           else (case vs ! j of
                   None \<Rightarrow> (False, vs[i := None])
                 | Some (n, d) \<Rightarrow> if oom then (False, vs[i := None]) else (True, vs[i := Some (n, take n d)])))
      | OpReset i \<Rightarrow> (True, vs[i := None])
      | OpDestroy i \<Rightarrow> (True, vs[i := None])
      | OpSwap i j \<Rightarrow> (True, vs[i := vs ! j, j := vs ! i])
      | OpScopeBegin \<Rightarrow> (True, vs)
      | OpScopeEnd \<Rightarrow> (True, vs))"

section \<open>The invariant\<close>

definition refs :: "buffer list \<Rightarrow> addr \<Rightarrow> nat" where
  "refs objs p = length (filter (\<lambda>b. buf_ptr b = p) objs)"

text \<open>The scopes that hold a reference to the block at \<open>p\<close>: those that were entered before it was made.\<close>

definition holds :: "delay_deallocation list \<Rightarrow> addr \<Rightarrow> nat" where
  "holds scopes p = length (filter (\<lambda>scope. p \<notin> set (old_entries scope)) scopes)"

fun scopes_ok :: "delay_deallocation list \<Rightarrow> bool" where
  "scopes_ok [] = True"
| "scopes_ok (scope # scopes) = (initial_on_entry scope = of_nat (Suc (length scopes)) \<and> scopes_ok scopes)"

definition counts_ok :: "buffer list \<Rightarrow> delay_deallocation list \<Rightarrow> (addr \<Rightarrow> nat) \<Rightarrow> bool" where
  "counts_ok objs scopes K \<longleftrightarrow>
     (\<forall>p. p \<noteq> nullptr \<longrightarrow> (if K p = 0 then refs objs p = 0 else K p = refs objs p + holds scopes p))"

definition sys_inv :: "heap \<Rightarrow> srb_system \<Rightarrow> bool" where
  "sys_inv F S \<longleftrightarrow>
     (\<exists>K. world_inv F K (length (sys_scopes S)) (sys_world S) \<and> counts_ok (sys_objs S) (sys_scopes S) K) \<and>
     (\<forall>b\<in>set (sys_objs S). obj_ok b (w_heap (sys_world S))) \<and> scopes_ok (sys_scopes S)"

definition sys_start :: "heap \<Rightarrow> nat \<Rightarrow> srb_system" where
  "sys_start F n = \<lparr>sys_objs = [], sys_scopes = [], sys_world = \<lparr>w_heap = F, w_table = shm_create n\<rparr>\<rparr>"

section \<open>Counting references\<close>

lemma refs_update:
  assumes "i < length objs"
  shows "refs (objs[i := b]) p + (if buf_ptr (objs ! i) = p then 1 else 0)
       = refs objs p + (if buf_ptr b = p then 1 else 0)"
proof -
  have "objs = take i objs @ objs ! i # drop (Suc i) objs"
    using assms by (rule id_take_nth_drop)
  then have "refs objs p = refs (take i objs @ objs ! i # drop (Suc i) objs) p"
    by simp
  then show ?thesis
    using assms by (simp add: refs_def upd_conv_take_nth_drop)
qed

lemma refs_append [simp]: "refs (objs @ [b]) p = refs objs p + (if buf_ptr b = p then 1 else 0)"
  by (simp add: refs_def)

lemma refs_pos: "i < length objs \<Longrightarrow> 0 < refs objs (buf_ptr (objs ! i))"
  using refs_update [of i objs "objs ! i" "buf_ptr (objs ! i)"]
  by (auto simp: refs_def filter_empty_conv)

lemma refs_zero: "refs objs p = 0 \<Longrightarrow> b \<in> set objs \<Longrightarrow> buf_ptr b \<noteq> p"
  by (auto simp: refs_def filter_empty_conv)

lemma refs_le: "refs objs p \<le> length objs"
  by (simp add: refs_def)

lemma holds_le: "holds scopes p \<le> length scopes"
  by (simp add: holds_def)

lemma holds_fresh: "\<forall>scope\<in>set scopes. p \<notin> set (old_entries scope) \<Longrightarrow> holds scopes p = length scopes"
  by (simp add: holds_def)

lemma refs_single:
  assumes "refs objs (buf_ptr (objs ! i)) = 1" and "i < length objs" and "k < length objs" and "k \<noteq> i"
  shows "buf_ptr (objs ! k) \<noteq> buf_ptr (objs ! i)"
proof
  assume same: "buf_ptr (objs ! k) = buf_ptr (objs ! i)"
  let ?b = "\<lparr>buf_size = 0, buf_ptr = buf_ptr (objs ! i) + 1\<rparr>"
  have "refs (objs[i := ?b]) (buf_ptr (objs ! i)) = 0"
    using refs_update [OF assms(2), of ?b "buf_ptr (objs ! i)"] assms(1) by simp
  moreover have "objs ! k \<in> set (objs[i := ?b])"
    using assms(3,4) by (metis length_list_update nth_list_update_neq nth_mem)
  ultimately show False
    using refs_zero same by blast
qed

lemma counts_ok_pos:
  "counts_ok objs scopes K \<Longrightarrow> i < length objs \<Longrightarrow> buf_ptr (objs ! i) \<noteq> nullptr \<Longrightarrow> 0 < K (buf_ptr (objs ! i))"
  using refs_pos [of i objs] by (auto simp: counts_ok_def split: if_splits)

lemma counts_ok_le:
  "counts_ok objs scopes K \<Longrightarrow> p \<noteq> nullptr \<Longrightarrow> K p \<le> length objs + length scopes"
  using refs_le [of objs p] holds_le [of scopes p] by (auto simp: counts_ok_def split: if_splits)

lemma counts_ok_single:
  assumes "counts_ok objs scopes K" and "i < length objs" and "buf_ptr (objs ! i) \<noteq> nullptr"
    and "K (buf_ptr (objs ! i)) = 1" and "k < length objs" and "k \<noteq> i"
  shows "buf_ptr (objs ! k) \<noteq> buf_ptr (objs ! i)"
proof (rule refs_single)
  have "K (buf_ptr (objs ! i)) = refs objs (buf_ptr (objs ! i)) + holds scopes (buf_ptr (objs ! i))"
    using assms(1,3,4) unfolding counts_ok_def by (metis zero_neq_one)
  then show "refs objs (buf_ptr (objs ! i)) = 1"
    using refs_pos [OF assms(2)] assms(4) by simp
qed (use assms in auto)

lemma counts_ok_refs: "refs objs = refs objs' \<Longrightarrow> counts_ok objs scopes K \<longleftrightarrow> counts_ok objs' scopes K"
  by (simp add: counts_ok_def)

lemma counts_drop:
  assumes "counts_ok objs scopes K" and "i < length objs" and "buf_ptr (objs ! i) = p"
  shows "counts_ok (objs[i := buffer_default]) scopes (K(p := K p - 1))"
proof (unfold counts_ok_def, intro allI impI)
  fix x :: addr
  assume x: "x \<noteq> nullptr"
  have "refs (objs[i := buffer_default]) x + (if p = x then 1 else 0) = refs objs x"
    using refs_update [OF assms(2), of buffer_default x] assms(3) x by (simp add: buffer_default_def)
  with assms(1) x show "if (K(p := K p - 1)) x = 0 then refs (objs[i := buffer_default]) x = 0
      else (K(p := K p - 1)) x = refs (objs[i := buffer_default]) x + holds scopes x"
    by (auto simp: counts_ok_def split: if_splits)
qed

text \<open>An empty slot gets a reference to a new block, or one more reference to a managed block.\<close>

lemma counts_gain:
  assumes "counts_ok objs scopes K" and "i < length objs" and "buf_ptr (objs ! i) = nullptr"
    and "buf_ptr b = q" and "q \<noteq> nullptr"
    and "K q = 0 \<and> k = Suc (length scopes) \<and> holds scopes q = length scopes \<or> 0 < K q \<and> k = Suc (K q)"
  shows "counts_ok (objs[i := b]) scopes (K(q := k))"
proof (unfold counts_ok_def, intro allI impI)
  fix x :: addr
  assume x: "x \<noteq> nullptr"
  have "refs (objs[i := b]) x = refs objs x + (if q = x then 1 else 0)"
    using refs_update [OF assms(2), of b x] assms(3,4) x by simp
  with assms(1,6) x show "if (K(q := k)) x = 0 then refs (objs[i := b]) x = 0
      else (K(q := k)) x = refs (objs[i := b]) x + holds scopes x"
    by (auto simp: counts_ok_def split: if_splits)
qed

section \<open>Steps on one slot\<close>

definition parts :: "heap \<Rightarrow> buffer list \<Rightarrow> delay_deallocation list \<Rightarrow> (addr \<Rightarrow> nat) \<Rightarrow> world \<Rightarrow> bool" where
  "parts F objs scopes K w \<longleftrightarrow>
     world_inv F K (length scopes) w \<and> counts_ok objs scopes K \<and> (\<forall>b\<in>set objs. obj_ok b (w_heap w))"

abbreviation vals :: "world \<Rightarrow> buffer list \<Rightarrow> val list" where
  "vals w objs \<equiv> map (obj_val (w_heap w)) objs"

lemma sys_inv_parts:
  "sys_inv F S \<longleftrightarrow> (\<exists>K. parts F (sys_objs S) (sys_scopes S) K (sys_world S)) \<and> scopes_ok (sys_scopes S)"
  by (auto simp: sys_inv_def parts_def)

lemma obj_frame:
  assumes "h' (buf_ptr b) = h (buf_ptr b)"
  shows "obj_ok b h' \<longleftrightarrow> obj_ok b h" and "obj_val h' b = obj_val h b"
  using assms by (auto simp: obj_ok_def obj_val_def obj_bytes_def)

lemma obj_ok_default [simp]: "obj_ok buffer_default h"
  by (simp add: obj_ok_def buffer_default_def)

lemma obj_val_default [simp]: "obj_val h buffer_default = None"
  by (simp add: obj_val_def buffer_default_def)

lemma buf_ptr_default [simp]: "buf_ptr buffer_default = nullptr"
  by (simp add: buffer_default_def)

lemma buffer_eta [simp]: "\<lparr>buf_size = buf_size b, buf_ptr = buf_ptr b\<rparr> = b"
  by (cases b) simp

text \<open>An operation on slot \<open>i\<close> that leaves the blocks of the other objects alone.\<close>

lemma slot_frame:
  assumes "\<forall>b\<in>set objs. obj_ok b h" and "i < length objs" and "obj_ok b h'"
    and "\<And>k. k < length objs \<Longrightarrow> k \<noteq> i \<Longrightarrow> h' (buf_ptr (objs ! k)) = h (buf_ptr (objs ! k))"
  shows "\<forall>x\<in>set (objs[i := b]). obj_ok x h'"
    and "map (obj_val h') (objs[i := b]) = (map (obj_val h) objs)[i := obj_val h' b]"
proof -
  have "obj_ok (objs[i := b] ! k) h'" if "k < length objs" for k
    using assms obj_frame(1) [of h' "objs ! k" h] that by (cases "k = i") auto
  then show "\<forall>x\<in>set (objs[i := b]). obj_ok x h'"
    by (auto simp: in_set_conv_nth)
  show "map (obj_val h') (objs[i := b]) = (map (obj_val h) objs)[i := obj_val h' b]"
    using assms(2,4) by (auto intro!: nth_equalityI obj_frame(2) simp: nth_list_update)
qed

lemma parts_room_for_default:
  "parts F objs scopes K w \<Longrightarrow> parts F (objs @ [buffer_default]) scopes K w"
  by (auto simp: parts_def counts_ok_def)

lemma parts_reset:
  assumes "parts F objs scopes K w" and "i < length objs"
  obtains w' where "srb_reset (objs ! i, w) = (Inr (), buffer_default, w')"
    and "parts F (objs[i := buffer_default]) scopes (K(buf_ptr (objs ! i) := K (buf_ptr (objs ! i)) - 1)) w'"
    and "vals w' (objs[i := buffer_default]) = (vals w objs)[i := None]"
    and "room w \<longrightarrow> room w'"
proof -
  let ?p = "buf_ptr (objs ! i)"
  have inv: "world_inv F K (length scopes) w" and cnt: "counts_ok objs scopes K"
    and objs: "\<forall>b\<in>set objs. obj_ok b (w_heap w)"
    using assms(1) by (auto simp: parts_def)
  obtain w' where w': "srb_reset (objs ! i, w) = (Inr (), buffer_default, w')"
    "world_inv F (K(?p := K ?p - 1)) (length scopes) w'" "room w \<longrightarrow> room w'"
    "w_heap w' = (if K ?p = 1 then (w_heap w)(?p := None) else w_heap w)"
    by (rule srb_reset_effect [OF inv counts_ok_pos [OF cnt assms(2)]])
  have frame: "w_heap w' (buf_ptr (objs ! k)) = w_heap w (buf_ptr (objs ! k))"
    if "k < length objs" "k \<noteq> i" for k
    using counts_ok_single [OF cnt assms(2) _ _ that] w'(4) world_inv_heap_ok [OF inv]
    by (cases "?p = nullptr") auto
  note slot = slot_frame [OF objs assms(2) obj_ok_default frame]
  have "counts_ok (objs[i := buffer_default]) scopes (K(?p := K ?p - 1))"
    by (rule counts_drop [OF cnt assms(2)]) simp
  with that [OF w'(1) _ _ w'(3)] slot w'(2) show thesis
    by (simp add: parts_def)
qed

text \<open>A new block for an empty slot.\<close>

lemma parts_fresh:
  assumes "parts F objs scopes K w" and "i < length objs" and "buf_ptr (objs ! i) = nullptr"
    and "q \<noteq> nullptr" and "w_heap w q = None" and "\<forall>scope\<in>set scopes. q \<notin> set (old_entries scope)"
    and "w_heap w' = (w_heap w)(q \<mapsto> d)" and "world_inv F (K(q := Suc (length scopes))) (length scopes) w'"
    and "length d < size_limit"
  shows "parts F (objs[i := \<lparr>buf_size = length d, buf_ptr = q\<rparr>]) scopes (K(q := Suc (length scopes))) w'"
    and "vals w' (objs[i := \<lparr>buf_size = length d, buf_ptr = q\<rparr>]) = (vals w objs)[i := Some (length d, d)]"
proof -
  let ?b = "\<lparr>buf_size = length d, buf_ptr = q\<rparr>"
  have inv: "world_inv F K (length scopes) w" and cnt: "counts_ok objs scopes K"
    and objs: "\<forall>b\<in>set objs. obj_ok b (w_heap w)"
    using assms(1) by (auto simp: parts_def)
  have b: "obj_ok ?b (w_heap w')" "obj_val (w_heap w') ?b = Some (length d, d)"
    using assms(4,7,9) by (simp_all add: obj_ok_def obj_val_def obj_bytes_def)
  have frame: "w_heap w' (buf_ptr (objs ! k)) = w_heap w (buf_ptr (objs ! k))" if "k < length objs" for k
    using objs that assms(4,5,7) by (auto simp: obj_ok_def dest!: nth_mem [THEN bspec [OF objs]] split: if_splits)
  have "counts_ok (objs[i := ?b]) scopes (K(q := Suc (length scopes)))"
    by (rule counts_gain [OF cnt assms(2,3)])
      (use world_inv_free_address [OF inv assms(4,5)] holds_fresh [OF assms(6)] assms(4) in auto)
  with slot_frame [OF objs assms(2) b(1) frame] b(2) assms(8)
  show "parts F (objs[i := ?b]) scopes (K(q := Suc (length scopes))) w'"
    and "vals w' (objs[i := ?b]) = (vals w objs)[i := Some (length d, d)]"
    by (auto simp: parts_def)
qed

text \<open>A further reference to a managed block for an empty slot.\<close>

lemma parts_share:
  assumes "parts F objs scopes K w" and "i < length objs" and "buf_ptr (objs ! i) = nullptr"
    and "q \<noteq> nullptr" and "0 < K q" and "length objs + length scopes + 1 < 2 ^ 31"
    and "obj_ok \<lparr>buf_size = n, buf_ptr = q\<rparr> (w_heap w)"
  obtains t where "ipm_update uc_traits q incr msg (w_table w) = (Inr (of_nat (Suc (K q))), t)"
    and "parts F (objs[i := \<lparr>buf_size = n, buf_ptr = q\<rparr>]) scopes (K(q := Suc (K q))) (w\<lparr>w_table := t\<rparr>)"
    and "vals (w\<lparr>w_table := t\<rparr>) (objs[i := \<lparr>buf_size = n, buf_ptr = q\<rparr>])
       = (vals w objs)[i := obj_val (w_heap w) \<lparr>buf_size = n, buf_ptr = q\<rparr>]"
proof -
  let ?b = "\<lparr>buf_size = n, buf_ptr = q\<rparr>"
  have inv: "world_inv F K (length scopes) w" and cnt: "counts_ok objs scopes K"
    and objs: "\<forall>b\<in>set objs. obj_ok b (w_heap w)"
    using assms(1) by (auto simp: parts_def)
  have "Suc (K q) < 2 ^ 31"
    using counts_ok_le [OF cnt assms(4)] assms(6) by simp
  then obtain t where t: "ipm_update uc_traits q incr msg (w_table w) = (Inr (of_nat (Suc (K q))), t)"
    "world_inv F (K(q := Suc (K q))) (length scopes) (w\<lparr>w_table := t\<rparr>)"
    by (rule acquire [OF inv assms(4,5)])
  have "counts_ok (objs[i := ?b]) scopes (K(q := Suc (K q)))"
    by (rule counts_gain [OF cnt assms(2,3)]) (use assms(4,5) in auto)
  with that [OF t(1)] t(2) slot_frame [OF objs assms(2) assms(7)] show thesis
    by (simp add: parts_def)
qed

section \<open>Each operation refines its specification\<close>

definition refines :: "heap \<Rightarrow> srb_op \<Rightarrow> srb_system \<Rightarrow> unit result \<times> srb_system \<Rightarrow> bool" where
  "refines F op S out \<longleftrightarrow>
     (case out of (r, S') \<Rightarrow>
       sys_inv F S' \<and> (case r of Inl e \<Rightarrow> \<not> is_undefined e | Inr _ \<Rightarrow> True) \<and>
       (\<exists>oom. spec_exec oom (\<lambda>a. obj_bytes \<lparr>buf_size = 0, buf_ptr = a\<rparr> (w_heap (sys_world S))) op (sys_vals S)
          = (\<not> isl r, sys_vals S')))"

fun is_logic_error :: "failure \<Rightarrow> bool" where
  "is_logic_error (logic_error msg) = True"
| "is_logic_error _ = False"

lemma snoc_update: "n = length xs \<Longrightarrow> (xs @ [x])[n := y] = xs @ [y]"
  by simp

text \<open>A constructor: the new object takes the slot after the last.\<close>

lemma parts_construct_fresh:
  assumes "parts F objs scopes K w" and "q \<noteq> nullptr" and "w_heap w q = None"
    and "\<forall>scope\<in>set scopes. q \<notin> set (old_entries scope)" and "length d < size_limit" and "room w"
  obtains w' where
    "srb_register \<lparr>buf_size = length d, buf_ptr = q\<rparr> (w\<lparr>w_heap := (w_heap w)(q \<mapsto> d)\<rparr>) = (Inr \<lparr>buf_size = length d, buf_ptr = q\<rparr>, w')"
    and "parts F (objs @ [\<lparr>buf_size = length d, buf_ptr = q\<rparr>]) scopes (K(q := Suc (length scopes))) w'"
    and "vals w' (objs @ [\<lparr>buf_size = length d, buf_ptr = q\<rparr>]) = vals w objs @ [Some (length d, d)]"
proof -
  let ?b = "\<lparr>buf_size = length d, buf_ptr = q\<rparr>"
  have "world_inv F K (length scopes) w"
    using assms(1) by (simp add: parts_def)
  from srb_register_effect [OF this, of ?b d] assms(2,3,5,6)
  obtain w' where w': "srb_register ?b (w\<lparr>w_heap := (w_heap w)(q \<mapsto> d)\<rparr>) = (Inr ?b, w')"
    "w_heap w' = (w_heap w)(q \<mapsto> d)" "world_inv F (K(q := Suc (length scopes))) (length scopes) w'"
    by auto
  note fresh = parts_fresh [OF parts_room_for_default [OF assms(1)] _ _ assms(2-4) w'(2,3) assms(5),
      of "length objs", simplified]
  have "vals w' (objs @ [?b]) = vals w objs @ [Some (length d, d)]"
    using fresh(2) by (simp add: snoc_update)
  with that [OF w'(1) fresh(1)] show thesis by blast
qed

lemma refines_default:
  assumes "sys_inv F S"
  shows "refines F OpDefault S (srb_exec OpDefault S)"
  using assms parts_room_for_default
  by (force simp: refines_def srb_exec_def sys_construct_def spec_exec_def sys_vals_def sys_inv_parts)

lemma refines_ctor:
  assumes "sys_inv F S" and "room (sys_world S)" and "fresh_choice c S"
  shows "refines F (OpCtor c n m) S (srb_exec (OpCtor c n m) S)"
proof -
  let ?w = "sys_world S" and ?h = "w_heap (sys_world S)" and ?d = "map (snd c) [0..<wrap64 (n * m)]"
  obtain K where parts: "parts F (sys_objs S) (sys_scopes S) K ?w" and scopes: "scopes_ok (sys_scopes S)"
    using assms(1) by (auto simp: sys_inv_parts)
  show ?thesis
  proof (cases "fst c = nullptr \<or> ?h (fst c) \<noteq> None")
    case True
    then have "srb_exec (OpCtor c n m) S = (Inl std_bad_alloc, S)"
      by (auto simp: srb_exec_def sys_construct_def srb_ctor_def buffer_ctor_def heap_malloc_def Let_def)
    then show ?thesis
      using assms(1) by (auto simp: refines_def spec_exec_def intro: exI [of _ True])
  next
    case False
    let ?b = "\<lparr>buf_size = length ?d, buf_ptr = fst c\<rparr>"
    from parts_construct_fresh [OF parts, of "fst c" ?d] False assms(2,3)
    obtain w' where w': "srb_register ?b (?w\<lparr>w_heap := ?h(fst c \<mapsto> ?d)\<rparr>) = (Inr ?b, w')"
      "parts F (sys_objs S @ [?b]) (sys_scopes S) (K(fst c := Suc (length (sys_scopes S)))) w'"
      "vals w' (sys_objs S @ [?b]) = vals ?w (sys_objs S) @ [Some (length ?d, ?d)]"
      by (auto simp: fresh_choice_def)
    have "srb_exec (OpCtor c n m) S = (Inr (), S\<lparr>sys_objs := sys_objs S @ [?b], sys_world := w'\<rparr>)"
      using False w'(1)
      by (simp add: srb_exec_def sys_construct_def srb_ctor_def buffer_ctor_def heap_malloc_def Let_def)
    then show ?thesis
      using w'(2,3) scopes
      by (auto simp: refines_def spec_exec_def sys_inv_parts sys_vals_def intro: exI [of _ False])
  qed
qed

text \<open>A constructor that shares a managed block.\<close>

lemma parts_construct_share:
  assumes "parts F objs scopes K w" and "q \<noteq> nullptr" and "0 < K q"
    and "length objs + length scopes + 2 < 2 ^ 31" and "obj_ok \<lparr>buf_size = n, buf_ptr = q\<rparr> (w_heap w)"
  obtains t where "ipm_update uc_traits q incr msg (w_table w) = (Inr (of_nat (Suc (K q))), t)"
    and "parts F (objs @ [\<lparr>buf_size = n, buf_ptr = q\<rparr>]) scopes (K(q := Suc (K q))) (w\<lparr>w_table := t\<rparr>)"
    and "vals (w\<lparr>w_table := t\<rparr>) (objs @ [\<lparr>buf_size = n, buf_ptr = q\<rparr>])
       = vals w objs @ [obj_val (w_heap w) \<lparr>buf_size = n, buf_ptr = q\<rparr>]"
proof -
  obtain t where "ipm_update uc_traits q incr msg (w_table w) = (Inr (of_nat (Suc (K q))), t)"
    "parts F ((objs @ [buffer_default])[length objs := \<lparr>buf_size = n, buf_ptr = q\<rparr>]) scopes (K(q := Suc (K q))) (w\<lparr>w_table := t\<rparr>)"
    by (rule parts_share [OF parts_room_for_default [OF assms(1)] _ _ assms(2,3) _ assms(5), of "length objs" msg])
      (use assms(4) in auto)
  with that show thesis by (simp add: snoc_update)
qed

lemma parts_objD:
  assumes "parts F objs scopes K w" and "i < length objs"
  shows "obj_ok (objs ! i) (w_heap w)" and "buf_ptr (objs ! i) \<noteq> nullptr \<Longrightarrow> 0 < K (buf_ptr (objs ! i))"
    and "vals w objs ! i = obj_val (w_heap w) (objs ! i)"
  using assms counts_ok_pos by (auto simp: parts_def)

lemma refines_from_buffer:
  assumes "sys_inv F S" and "room (sys_world S)" and "fresh_choice c S" and "i < length (sys_objs S)"
  shows "refines F (OpFromBuffer c i) S (srb_exec (OpFromBuffer c i) S)"
proof -
  let ?w = "sys_world S" and ?h = "w_heap (sys_world S)" and ?o = "sys_objs S ! i"
  obtain K where parts: "parts F (sys_objs S) (sys_scopes S) K ?w" and scopes: "scopes_ok (sys_scopes S)"
    using assms(1) by (auto simp: sys_inv_parts)
  note o = parts_objD [OF parts assms(4)]
  show ?thesis
  proof (cases "buf_ptr ?o = nullptr")
    case True
    then obtain msg where "srb_exec (OpFromBuffer c i) S = (Inl (runtime_error msg), S)"
      by (auto simp: srb_exec_def sys_construct_def srb_from_buffer_def buffer_copy_ctor_def buffer_assign_def Let_def)
    then show ?thesis
      using assms(1) o(3) True by (auto simp: refines_def spec_exec_def sys_vals_def obj_val_def)
  next
    case False
    note block = obj_ok_block [OF o(1) False]
    have val: "sys_vals S ! i = Some (buf_size ?o, obj_bytes ?o ?h)"
      using o(3) False by (simp add: sys_vals_def obj_val_def)
    let ?d = "take (buf_size ?o) (obj_bytes ?o ?h)"
    have size: "buf_size ?o \<le> length (obj_bytes ?o ?h)" "length ?d = buf_size ?o"
      using block(3) by auto
    from buffer_assign_fresh [where h = ?h, OF False block(1) size(1), of c] show ?thesis
    proof cases
      case 1
      then have "srb_exec (OpFromBuffer c i) S = (Inl std_bad_alloc, S)"
        by (auto simp: srb_exec_def sys_construct_def srb_from_buffer_def buffer_copy_ctor_def Let_def)
      then show ?thesis
        using assms(1) val by (auto simp: refines_def spec_exec_def intro: exI [of _ True])
    next
      case (2 q)
      let ?b = "\<lparr>buf_size = buf_size ?o, buf_ptr = q\<rparr>"
      have "length ?d < size_limit" using block(2) by simp
      from parts_construct_fresh [OF parts 2(1,2) _ this assms(2)] assms(3) 2(3) size(2)
      obtain w' where w': "srb_register ?b (?w\<lparr>w_heap := ?h(q \<mapsto> ?d)\<rparr>) = (Inr ?b, w')"
        "parts F (sys_objs S @ [?b]) (sys_scopes S) (K(q := Suc (length (sys_scopes S)))) w'"
        "vals w' (sys_objs S @ [?b]) = vals ?w (sys_objs S) @ [Some (buf_size ?o, ?d)]"
        by (auto simp: fresh_choice_def)
      have "srb_exec (OpFromBuffer c i) S = (Inr (), S\<lparr>sys_objs := sys_objs S @ [?b], sys_world := w'\<rparr>)"
        using 2(4) w'(1)
        by (simp add: srb_exec_def sys_construct_def srb_from_buffer_def buffer_copy_ctor_def Let_def)
      then show ?thesis
        using w'(2,3) scopes val
        by (auto simp: refines_def spec_exec_def sys_inv_parts sys_vals_def intro: exI [of _ False])
    qed
  qed
qed

lemma refines_from_address:
  assumes "sys_inv F S" and "length (sys_objs S) + length (sys_scopes S) + 2 < 2 ^ 31"
    and "srb_is_known a (sys_world S) = Inr True"
  shows "refines F (OpFromAddress a) S (srb_exec (OpFromAddress a) S)"
proof -
  let ?w = "sys_world S" and ?h = "w_heap (sys_world S)" and ?b = "\<lparr>buf_size = 0, buf_ptr = a\<rparr>"
  obtain K where parts: "parts F (sys_objs S) (sys_scopes S) K ?w" and scopes: "scopes_ok (sys_scopes S)"
    using assms(1) by (auto simp: sys_inv_parts)
  have inv: "world_inv F K (length (sys_scopes S)) ?w"
    using parts by (simp add: parts_def)
  have a: "a \<noteq> nullptr" "0 < K a"
    using assms(3) is_known_iff [OF inv] by auto
  have "obj_ok ?b ?h"
    using world_inv_live [OF inv a] by (auto simp: obj_ok_def)
  note share = parts_construct_share [OF parts a assms(2) this]
  obtain t where t: "ipm_update uc_traits a incr
      (''cbeam::container::container::stable_reference_buffer: memory address '' @
              ptr_to_string a @ '' was not created by cbeam::stable_reference_buffer'') (w_table ?w)
      = (Inr (of_nat (Suc (K a))), t)"
    "parts F (sys_objs S @ [?b]) (sys_scopes S) (K(a := Suc (K a))) (?w\<lparr>w_table := t\<rparr>)"
    "vals (?w\<lparr>w_table := t\<rparr>) (sys_objs S @ [?b]) = vals ?w (sys_objs S) @ [obj_val ?h ?b]"
    by (rule share)
  have "srb_exec (OpFromAddress a) S = (Inr (), S\<lparr>sys_objs := sys_objs S @ [?b], sys_world := ?w\<lparr>w_table := t\<rparr>\<rparr>)"
    using t(1) by (simp add: srb_exec_def sys_construct_def srb_from_address_def buffer_default_def Let_def)
  moreover have "obj_val ?h ?b = Some (0, obj_bytes ?b ?h)"
    using a(1) by (simp add: obj_val_def)
  ultimately show ?thesis
    using t(2,3) scopes by (auto simp: refines_def spec_exec_def sys_inv_parts sys_vals_def)
qed

lemma refines_copy:
  assumes "sys_inv F S" and "length (sys_objs S) + length (sys_scopes S) + 2 < 2 ^ 31"
    and "i < length (sys_objs S)"
  shows "refines F (OpCopy i) S (srb_exec (OpCopy i) S)"
proof -
  let ?w = "sys_world S" and ?h = "w_heap (sys_world S)" and ?o = "sys_objs S ! i"
  let ?b = "\<lparr>buf_size = buf_size ?o, buf_ptr = buf_ptr ?o\<rparr>"
  obtain K where parts: "parts F (sys_objs S) (sys_scopes S) K ?w" and scopes: "scopes_ok (sys_scopes S)"
    using assms(1) by (auto simp: sys_inv_parts)
  note o = parts_objD [OF parts assms(3)]
  have val: "sys_vals S ! i = obj_val ?h ?o"
    using o(3) by (simp add: sys_vals_def)
  show ?thesis
  proof (cases "buf_ptr ?o = nullptr")
    case True
    then obtain msg where "srb_exec (OpCopy i) S = (Inl (runtime_error msg), S)"
      by (auto simp: srb_exec_def sys_construct_def srb_copy_ctor_def srb_unwind_def buffer_dtor_def
          buffer_reset_def heap_free_null Let_def)
    then show ?thesis
      using assms(1) val True by (auto simp: refines_def spec_exec_def obj_val_def)
  next
    case False
    obtain t where t: "ipm_update uc_traits (buf_ptr ?o) incr update_default_error (w_table ?w)
        = (Inr (of_nat (Suc (K (buf_ptr ?o)))), t)"
      "parts F (sys_objs S @ [?b]) (sys_scopes S) (K(buf_ptr ?o := Suc (K (buf_ptr ?o)))) (?w\<lparr>w_table := t\<rparr>)"
      "vals (?w\<lparr>w_table := t\<rparr>) (sys_objs S @ [?b]) = vals ?w (sys_objs S) @ [obj_val ?h ?b]"
      by (rule parts_construct_share [OF parts False o(2) [OF False] assms(2), of "buf_size ?o"])
        (use o(1) in auto)
    have "srb_exec (OpCopy i) S = (Inr (), S\<lparr>sys_objs := sys_objs S @ [?b], sys_world := ?w\<lparr>w_table := t\<rparr>\<rparr>)"
      using t(1) False by (simp add: srb_exec_def sys_construct_def srb_copy_ctor_def Let_def)
    moreover have "obj_val ?h ?b = sys_vals S ! i" and "sys_vals S ! i \<noteq> None"
      using val False by (simp_all add: obj_val_def)
    ultimately show ?thesis
      using t(2,3) scopes by (auto simp: refines_def spec_exec_def sys_inv_parts sys_vals_def)
  qed
qed

text \<open>Appending with a change of block: the slot gives up the old block and gets a new one.\<close>

lemma parts_replace:
  assumes "parts F objs scopes K w" and "i < length objs" and "buf_ptr (objs ! i) \<noteq> nullptr"
    and "q \<noteq> nullptr" and "w_heap w q = None" and "\<forall>scope\<in>set scopes. q \<notin> set (old_entries scope)"
    and "world_inv F (K(buf_ptr (objs ! i) := K (buf_ptr (objs ! i)) - 1, q := Suc (length scopes))) (length scopes) w'"
    and "w_heap w' q = Some d" and "length d < size_limit"
    and "\<And>p. p \<noteq> q \<Longrightarrow> p \<noteq> buf_ptr (objs ! i) \<or> K p \<noteq> 1 \<Longrightarrow> w_heap w' p = w_heap w p"
  shows "parts F (objs[i := \<lparr>buf_size = length d, buf_ptr = q\<rparr>]) scopes
      (K(buf_ptr (objs ! i) := K (buf_ptr (objs ! i)) - 1, q := Suc (length scopes))) w'"
    and "vals w' (objs[i := \<lparr>buf_size = length d, buf_ptr = q\<rparr>]) = (vals w objs)[i := Some (length d, d)]"
proof -
  let ?b = "\<lparr>buf_size = length d, buf_ptr = q\<rparr>" and ?p = "buf_ptr (objs ! i)"
  have inv: "world_inv F K (length scopes) w" and cnt: "counts_ok objs scopes K"
    and objs: "\<forall>b\<in>set objs. obj_ok b (w_heap w)"
    using assms(1) by (auto simp: parts_def)
  have b: "obj_ok ?b (w_heap w')" "obj_val (w_heap w') ?b = Some (length d, d)"
    using assms(4,8,9) by (simp_all add: obj_ok_def obj_val_def obj_bytes_def)
  have frame: "w_heap w' (buf_ptr (objs ! k)) = w_heap w (buf_ptr (objs ! k))"
    if k: "k < length objs" "k \<noteq> i" for k
  proof (rule assms(10))
    have "obj_ok (objs ! k) (w_heap w)" using objs k(1) by simp
    then show "buf_ptr (objs ! k) \<noteq> q"
      using assms(4,5) by (auto simp: obj_ok_def)
    show "buf_ptr (objs ! k) \<noteq> ?p \<or> K (buf_ptr (objs ! k)) \<noteq> 1"
      using counts_ok_single [OF cnt assms(2,3) _ k] by auto
  qed
  have "K q = 0" and "q \<noteq> ?p"
    using world_inv_free_address [OF inv assms(4,5)] counts_ok_pos [OF cnt assms(2,3)] by auto
  then have "counts_ok ((objs[i := buffer_default])[i := ?b]) scopes (K(?p := K ?p - 1, q := Suc (length scopes)))"
    using assms(2,4) holds_fresh [OF assms(6)] by (intro counts_gain counts_drop cnt) auto
  with slot_frame [OF objs assms(2) b(1) frame] b(2) assms(7)
  show "parts F (objs[i := ?b]) scopes (K(?p := K ?p - 1, q := Suc (length scopes))) w'"
    and "vals w' (objs[i := ?b]) = (vals w objs)[i := Some (length d, d)]"
    by (auto simp: parts_def)
qed

lemma parts_grow:
  assumes "parts F objs scopes K w" and "i < length objs" and "buf_ptr (objs ! i) \<noteq> nullptr"
    and "K (buf_ptr (objs ! i)) = 1" and "world_inv F K (length scopes) w'"
    and "w_heap w' = (w_heap w)(buf_ptr (objs ! i) \<mapsto> d)" and "length d < size_limit"
  shows "parts F (objs[i := \<lparr>buf_size = length d, buf_ptr = buf_ptr (objs ! i)\<rparr>]) scopes K w'"
    and "vals w' (objs[i := \<lparr>buf_size = length d, buf_ptr = buf_ptr (objs ! i)\<rparr>]) = (vals w objs)[i := Some (length d, d)]"
proof -
  let ?b = "\<lparr>buf_size = length d, buf_ptr = buf_ptr (objs ! i)\<rparr>"
  have cnt: "counts_ok objs scopes K" and objs: "\<forall>b\<in>set objs. obj_ok b (w_heap w)"
    using assms(1) by (auto simp: parts_def)
  have b: "obj_ok ?b (w_heap w')" "obj_val (w_heap w') ?b = Some (length d, d)"
    using assms(3,6,7) by (simp_all add: obj_ok_def obj_val_def obj_bytes_def)
  have frame: "w_heap w' (buf_ptr (objs ! k)) = w_heap w (buf_ptr (objs ! k))" if "k < length objs" "k \<noteq> i" for k
    using counts_ok_single [OF cnt assms(2,3,4) that] assms(6) by simp
  have "refs (objs[i := ?b]) p = refs objs p" for p
    using refs_update [OF assms(2), of ?b p] by simp
  then have "counts_ok (objs[i := ?b]) scopes K"
    using cnt by (simp add: counts_ok_def)
  with slot_frame [OF objs assms(2) b(1) frame] b(2) assms(5)
  show "parts F (objs[i := ?b]) scopes K w'" and "vals w' (objs[i := ?b]) = (vals w objs)[i := Some (length d, d)]"
    by (auto simp: parts_def)
qed

text \<open>\<open>append\<close> on a slot: an exception that changes nothing, or the bytes at the end of the
  value of this object, whatever other objects share its block.\<close>

lemma parts_append:
  assumes parts: "parts F objs scopes K w" and i: "i < length objs" and room: "room w"
    and size: "buf_size (objs ! i) + length d < size_limit"
    and fresh: "\<forall>scope\<in>set scopes. fst c \<notin> set (old_entries scope)"
    and stays: "scopes = [] \<or> buf_ptr (objs ! i) = nullptr \<or> fst c = buf_ptr (objs ! i) \<or> 1 < K (buf_ptr (objs ! i))"
  obtains (throws) e where "srb_append c d (objs ! i, w) = (Inl e, objs ! i, w)" and "\<not> is_undefined e"
      and "is_logic_error e \<longleftrightarrow> buf_ptr (objs ! i) \<noteq> nullptr \<and> buf_size (objs ! i) = 0"
  | (appended) b' w' K' where "srb_append c d (objs ! i, w) = (Inr (), b', w')" and "parts F (objs[i := b']) scopes K' w'"
      and "buf_ptr (objs ! i) = nullptr \<or> 0 < buf_size (objs ! i)"
      and "vals w' (objs[i := b']) = (vals w objs)[i := Some (buf_size (objs ! i) + length d, obj_bytes (objs ! i) (w_heap w) @ d)]"
proof -
  let ?o = "objs ! i" and ?n = "length scopes"
  let ?p = "buf_ptr ?o" and ?x = "obj_bytes ?o (w_heap w)"
  have inv: "world_inv F K ?n w" and cnt: "counts_ok objs scopes K"
    using parts by (auto simp: parts_def)
  note o = parts_objD [OF parts i]
  consider (raw) "?p \<noteq> nullptr" "buf_size ?o = 0" | (shared) "?p \<noteq> nullptr" "0 < buf_size ?o" "1 < K ?p"
    | (owner) "?p \<noteq> nullptr" "0 < buf_size ?o" "K ?p = 1" | (empty) "?p = nullptr"
    using o(2) by (metis gr0I less_one nat_neq_iff)
  then show thesis
  proof cases
    case raw
    then show thesis
      by (intro throws) (auto simp: srb_append_def)
  next
    case shared
    have x: "length (?x @ d) = buf_size ?o + length d"
      using obj_ok_block [OF o(1) shared(1)] shared(2) by auto
    have cow: "srb_append c d (?o, w) = srb_append_cow c d (?o, w)"
      using use_count_at [OF inv shared(1)] shared count_greater_one [OF world_inv_bound [OF inv shared(1)]]
      by (simp add: srb_append_def)
    from srb_append_cow_effect [OF inv o(1) shared(1,3,2) size room, of c] show thesis
    proof cases
      case 1
      with cow shared show thesis by (intro throws) auto
    next
      case (2 q w')
      note new = parts_replace [OF parts i shared(1) 2(1,2) _ 2(6), of "?x @ d"]
      show thesis
        by (rule appended [of "\<lparr>buf_size = buf_size ?o + length d, buf_ptr = q\<rparr>" w'])
          (use new 2 x cow shared fresh size in auto)
    qed
  next
    case owner
    have x: "length (?x @ d) = buf_size ?o + length d"
      using obj_ok_block [OF o(1) owner(1)] owner(2) by auto
    have excl: "srb_append c d (?o, w) = srb_append_exclusive c d (?o, w)"
      using use_count_at [OF inv owner(1)] owner by (simp add: srb_append_def word_sless_alt)
    have "?p \<noteq> nullptr \<longrightarrow> K ?p = 1 \<and> 0 < buf_size ?o"
      using owner by auto
    from srb_append_exclusive_effect [OF inv o(1) this size room, of c] show thesis
    proof cases
      case 1
      show thesis
        by (rule throws [of std_bad_alloc]) (use 1 excl owner in auto)
    next
      case (2 w')
      note new = parts_grow [OF parts i owner(1,3) 2(5), of "?x @ d"]
      show thesis
        by (rule appended [of "\<lparr>buf_size = buf_size ?o + length d, buf_ptr = ?p\<rparr>" w' K])
          (use new 2 x excl owner size in auto)
    next
      case (3 q w')
      have "scopes = []"
        using stays 3 owner world_inv_live [OF inv owner(1)] by auto
      note new = parts_replace [OF parts i owner(1) 3(2,3), of w' "?x @ d"]
      show thesis
        by (rule appended [of "\<lparr>buf_size = buf_size ?o + length d, buf_ptr = q\<rparr>" w'])
          (use new 3 x excl owner \<open>scopes = []\<close> size in auto)
    qed (use owner in auto)
  next
    case empty
    have x: "?x = []" "buf_size ?o = 0"
      using empty o(1) world_inv_heap_ok [OF inv] by (auto simp: obj_bytes_def obj_ok_def heap_ok_def)
    have excl: "srb_append c d (?o, w) = srb_append_exclusive c d (?o, w)"
      using empty by (simp add: srb_append_def)
    have "?p \<noteq> nullptr \<longrightarrow> K ?p = 1 \<and> 0 < buf_size ?o"
      using empty by auto
    from srb_append_exclusive_effect [OF inv o(1) this size room, of c] show thesis
    proof cases
      case 1
      show thesis
        by (rule throws [of std_bad_alloc]) (use 1 excl empty in auto)
    next
      case (4 q w')
      note new = parts_fresh [OF parts i empty 4(2,3) _ 4(6,7)]
      show thesis
        by (rule appended [of "\<lparr>buf_size = length d, buf_ptr = q\<rparr>" w'])
          (use new 4 x excl empty fresh size in auto)
    qed (use empty in auto)
  qed
qed

lemma refines_append:
  assumes "sys_inv F S" and "srb_safe (OpAppend c d i) S"
  shows "refines F (OpAppend c d i) S (srb_exec (OpAppend c d i) S)"
proof -
  let ?w = "sys_world S" and ?h = "w_heap (sys_world S)" and ?o = "sys_objs S ! i"
  obtain K where parts: "parts F (sys_objs S) (sys_scopes S) K ?w" and scopes: "scopes_ok (sys_scopes S)"
    using assms(1) by (auto simp: sys_inv_parts)
  have inv: "world_inv F K (length (sys_scopes S)) ?w"
    using parts by (simp add: parts_def)
  have i: "i < length (sys_objs S)" and room: "room ?w"
    and size: "buf_size ?o + length d < size_limit"
    and fresh: "\<forall>scope\<in>set (sys_scopes S). fst c \<notin> set (old_entries scope)"
    using assms(2) by (auto simp: srb_safe_def Let_def fresh_choice_def)
  have stays: "sys_scopes S = [] \<or> buf_ptr ?o = nullptr \<or> fst c = buf_ptr ?o \<or> 1 < K (buf_ptr ?o)"
    using assms(2) use_count_greater_one [OF inv] by (auto simp: srb_safe_def Let_def append_stays_def)
  have val: "sys_vals S ! i = obj_val ?h ?o"
    using i by (simp add: sys_vals_def)
  from parts_append [OF parts i room size fresh stays] show ?thesis
  proof cases
    case (1 e)
    then have "srb_exec (OpAppend c d i) S = (Inl e, S)"
      by (simp add: srb_exec_def sys_method_def Let_def)
    then show ?thesis
      using 1 assms(1) val
      by (auto simp: refines_def spec_exec_def obj_val_def intro: exI [of _ True])
  next
    case (2 b' w' K')
    then have "srb_exec (OpAppend c d i) S = (Inr (), S\<lparr>sys_objs := (sys_objs S)[i := b'], sys_world := w'\<rparr>)"
      by (simp add: srb_exec_def sys_method_def Let_def)
    moreover have "buf_ptr ?o = nullptr \<Longrightarrow> buf_size ?o = 0 \<and> obj_bytes ?o ?h = []"
      using parts_objD(1) [OF parts i] world_inv_heap_ok [OF inv]
      by (auto simp: obj_ok_def obj_bytes_def heap_ok_def)
    ultimately show ?thesis
      using 2 scopes val
      by (cases "buf_ptr ?o = nullptr")
        (auto simp: refines_def spec_exec_def sys_inv_parts sys_vals_def obj_val_def intro!: exI [of _ False])
  qed
qed

lemma refines_reset:
  assumes "sys_inv F S" and "i < length (sys_objs S)"
  shows "refines F (OpReset i) S (srb_exec (OpReset i) S)"
    and "refines F (OpDestroy i) S (srb_exec (OpDestroy i) S)"
proof -
  obtain K where parts: "parts F (sys_objs S) (sys_scopes S) K (sys_world S)" and scopes: "scopes_ok (sys_scopes S)"
    using assms(1) by (auto simp: sys_inv_parts)
  from parts_reset [OF parts assms(2)] obtain w' K' where w':
    "srb_reset (sys_objs S ! i, sys_world S) = (Inr (), buffer_default, w')"
    "parts F ((sys_objs S)[i := buffer_default]) (sys_scopes S) K' w'"
    "vals w' ((sys_objs S)[i := buffer_default]) = (sys_vals S)[i := None]"
    unfolding sys_vals_def by metis
  have "srb_dtor (sys_objs S ! i, sys_world S) = (Inr (), w')"
    using w'(1) by (simp add: srb_dtor_def buffer_dtor_def buffer_reset_def heap_free_null)
  then show "refines F (OpReset i) S (srb_exec (OpReset i) S)"
    and "refines F (OpDestroy i) S (srb_exec (OpDestroy i) S)"
    using w' scopes
    by (auto simp: refines_def spec_exec_def sys_inv_parts sys_vals_def srb_exec_def sys_method_def Let_def)
qed

lemma refines_assign:
  assumes "sys_inv F S" and "srb_safe (OpAssign i j) S"
  shows "refines F (OpAssign i j) S (srb_exec (OpAssign i j) S)"
proof -
  let ?w = "sys_world S" and ?objs = "sys_objs S" and ?scopes = "sys_scopes S"
  have ij: "i < length ?objs" "j < length ?objs" and bound: "length ?objs + length ?scopes + 1 < 2 ^ 31"
    using assms(2) by (auto simp: srb_safe_def Let_def)
  obtain K where parts: "parts F ?objs ?scopes K ?w" and scopes: "scopes_ok ?scopes"
    using assms(1) by (auto simp: sys_inv_parts)
  have val: "sys_vals S ! j = obj_val (w_heap ?w) (?objs ! j)"
    using ij by (simp add: sys_vals_def)
  consider (self) "i = j" | (null) "i \<noteq> j" "buf_ptr (?objs ! j) = nullptr" | (share) "i \<noteq> j" "buf_ptr (?objs ! j) \<noteq> nullptr"
    by blast
  then show ?thesis
  proof cases
    case self
    then have "srb_exec (OpAssign i j) S = (Inr (), S)"
      by (simp add: srb_exec_def sys_method_def srb_assign_def Let_def)
    then show ?thesis
      using assms(1) self by (auto simp: refines_def spec_exec_def)
  next
    case null
    then obtain msg where "srb_exec (OpAssign i j) S = (Inl (runtime_error msg), S)"
      by (auto simp: srb_exec_def sys_method_def srb_assign_def Let_def)
    then show ?thesis
      using assms(1) null val by (auto simp: refines_def spec_exec_def obj_val_def)
  next
    case share
    let ?q = "buf_ptr (?objs ! j)" and ?objs1 = "?objs[i := buffer_default]"
    from parts_reset [OF parts ij(1)] obtain w1 K1 where w1:
      "srb_reset (?objs ! i, ?w) = (Inr (), buffer_default, w1)" "parts F ?objs1 ?scopes K1 w1"
      "vals w1 ?objs1 = (sys_vals S)[i := None]"
      unfolding sys_vals_def by metis
    have j1: "j < length ?objs1" and oj: "?objs1 ! j = ?objs ! j"
      using ij share(1) by auto
    note o = parts_objD [OF w1(2) j1, unfolded oj]
    obtain t where t: "ipm_update uc_traits ?q incr update_default_error (w_table w1) = (Inr (of_nat (Suc (K1 ?q))), t)"
      "parts F (?objs1[i := ?objs ! j]) ?scopes (K1(?q := Suc (K1 ?q))) (w1\<lparr>w_table := t\<rparr>)"
      "vals (w1\<lparr>w_table := t\<rparr>) (?objs1[i := ?objs ! j]) = (vals w1 ?objs1)[i := obj_val (w_heap w1) (?objs ! j)]"
      using parts_share [OF w1(2) _ _ share(2) o(2) [OF share(2)], of i "buf_size (?objs ! j)" update_default_error]
        ij(1) o(1) bound by auto
    have "obj_val (w_heap w1) (?objs ! j) = sys_vals S ! j"
      using o(3) w1(3) share(1) by simp
    then have vals: "vals (w1\<lparr>w_table := t\<rparr>) (?objs[i := ?objs ! j]) = (sys_vals S)[i := sys_vals S ! j]"
      using t(3) w1(3) by simp
    have "srb_exec (OpAssign i j) S =
        (Inr (), S\<lparr>sys_objs := ?objs[i := ?objs ! j], sys_world := w1\<lparr>w_table := t\<rparr>\<rparr>)"
      using share w1(1) t(1) by (simp add: srb_exec_def sys_method_def srb_assign_def buffer_default_def Let_def)
    moreover have "sys_vals S ! j \<noteq> None"
      using val share by (simp add: obj_val_def)
    ultimately show ?thesis
      using t(2) vals scopes by (auto simp: refines_def spec_exec_def sys_inv_parts sys_vals_def)
  qed
qed

lemma is_known_heap [simp]: "srb_is_known p (w\<lparr>w_heap := h\<rparr>) = srb_is_known p w"
  by (simp add: srb_is_known_def)

lemma refines_assign_buffer:
  assumes "sys_inv F S" and "srb_safe (OpAssignBuffer c i j) S"
  shows "refines F (OpAssignBuffer c i j) S (srb_exec (OpAssignBuffer c i j) S)"
proof (cases "i = j")
  case True
  then have "srb_exec (OpAssignBuffer c i j) S = (Inr (), S)"
    by (simp add: srb_exec_def sys_method_def srb_assign_buffer_def Let_def)
  then show ?thesis
    using assms(1) True by (auto simp: refines_def spec_exec_def)
next
  case ne: False
  let ?w = "sys_world S" and ?objs = "sys_objs S" and ?scopes = "sys_scopes S" and ?o = "sys_objs S ! j"
  let ?objs1 = "?objs[i := buffer_default]"
  have ij: "i < length ?objs" "j < length ?objs" and room: "room ?w"
    and fresh: "\<forall>scope\<in>set ?scopes. fst c \<notin> set (old_entries scope)"
    using assms(2) by (auto simp: srb_safe_def fresh_choice_def Let_def)
  obtain K where parts: "parts F ?objs ?scopes K ?w" and scopes: "scopes_ok ?scopes"
    using assms(1) by (auto simp: sys_inv_parts)
  from parts_reset [OF parts ij(1)] obtain w1 K1 where w1:
    "srb_reset (?objs ! i, ?w) = (Inr (), buffer_default, w1)" "parts F ?objs1 ?scopes K1 w1"
    "vals w1 ?objs1 = (sys_vals S)[i := None]" "room w1"
    using room unfolding sys_vals_def by metis
  have inv1: "world_inv F K1 (length ?scopes) w1"
    using w1(2) by (simp add: parts_def)
  have j1: "j < length ?objs1" and oj: "?objs1 ! j = ?o"
    using ij ne by auto
  note o = parts_objD [OF w1(2) j1, unfolded oj]
  have val: "obj_val (w_heap w1) ?o = sys_vals S ! j"
    using o(3) w1(3) ne by simp
  show ?thesis
  proof (cases "buf_ptr ?o = nullptr")
    case True
    then obtain msg where "srb_exec (OpAssignBuffer c i j) S = (Inl (runtime_error msg), S\<lparr>sys_objs := ?objs1, sys_world := w1\<rparr>)"
      using ne w1(1) by (auto simp: srb_exec_def sys_method_def srb_assign_buffer_def buffer_assign_def Let_def)
    then show ?thesis
      using ne w1 scopes val True
      by (auto simp: refines_def spec_exec_def sys_inv_parts sys_vals_def obj_val_def)
  next
    case False
    note block = obj_ok_block [OF o(1) False]
    let ?d = "take (buf_size ?o) (obj_bytes ?o (w_heap w1))"
    have size: "buf_size ?o \<le> length (obj_bytes ?o (w_heap w1))" "length ?d = buf_size ?o" "length ?d < size_limit"
      using block by auto
    have val': "sys_vals S ! j = Some (buf_size ?o, obj_bytes ?o (w_heap w1))"
      using val False by (simp add: obj_val_def)
    from buffer_assign_fresh [where h = "w_heap w1", OF False block(1) size(1), of c] show ?thesis
    proof cases
      case 1
      then have "srb_exec (OpAssignBuffer c i j) S = (Inl std_bad_alloc, S\<lparr>sys_objs := ?objs1, sys_world := w1\<rparr>)"
        using ne w1(1) by (simp add: srb_exec_def sys_method_def srb_assign_buffer_def Let_def)
      then show ?thesis
        using ne w1 scopes val'
        by (auto simp: refines_def spec_exec_def sys_inv_parts sys_vals_def intro!: exI [of _ True])
    next
      case (2 q)
      let ?b = "\<lparr>buf_size = buf_size ?o, buf_ptr = q\<rparr>"
      obtain w' where w': "srb_insert_initial q (w1\<lparr>w_heap := (w_heap w1)(q \<mapsto> ?d)\<rparr>) = (Inr (), w')"
        "w_heap w' = (w_heap w1)(q \<mapsto> ?d)" "world_inv F (K1(q := Suc (length ?scopes))) (length ?scopes) w'"
        by (rule insert_initial [OF inv1 2(1,2) w1(4) size(3)])
      have "srb_is_known q w1 = Inr False"
        using is_known_iff [OF inv1] world_inv_free_address [OF inv1 2(1,2)] by simp
      then have "srb_exec (OpAssignBuffer c i j) S = (Inr (), S\<lparr>sys_objs := ?objs[i := ?b], sys_world := w'\<rparr>)"
        using ne w1(1) 2(4) w'(1) by (simp add: srb_exec_def sys_method_def srb_assign_buffer_def Let_def)
      moreover note new = parts_fresh [OF w1(2) _ _ 2(1,2) _ w'(2,3) size(3), of i]
      ultimately show ?thesis
        using ne w1(3) scopes val' ij(1) 2(3) fresh size(2)
        by (auto simp: refines_def spec_exec_def sys_inv_parts sys_vals_def intro!: exI [of _ False])
    qed
  qed
qed

lemma srb_swap_eq: "srb_swap a b = (b, a)"
  by (cases a; cases b) (simp add: srb_swap_def buffer_swap_def)

lemma refs_mset: "refs objs p = size (filter_mset (\<lambda>b. buf_ptr b = p) (mset objs))"
  by (simp add: refs_def flip: size_mset)

lemma refines_swap:
  assumes "sys_inv F S" and "i < length (sys_objs S)" and "j < length (sys_objs S)"
  shows "refines F (OpSwap i j) S (srb_exec (OpSwap i j) S)"
proof -
  let ?objs = "sys_objs S"
  have same: "mset (?objs[i := ?objs ! j, j := ?objs ! i]) = mset ?objs"
    using assms(2,3) mset_swap [of i ?objs j] by (metis list_update_swap)
  have "set (?objs[i := ?objs ! j, j := ?objs ! i]) = set ?objs"
    by (rule mset_eq_setD [OF same])
  moreover have "refs (?objs[i := ?objs ! j, j := ?objs ! i]) = refs ?objs"
    unfolding fun_eq_iff refs_mset same by simp
  ultimately have "sys_inv F (S\<lparr>sys_objs := ?objs[i := ?objs ! j, j := ?objs ! i]\<rparr>)"
    using assms(1) counts_ok_refs [of "?objs[i := ?objs ! j, j := ?objs ! i]" ?objs] by (simp add: sys_inv_def)
  then show ?thesis
    using assms(2,3)
    by (simp add: refines_def srb_exec_def srb_swap_eq spec_exec_def sys_vals_def map_update Let_def)
qed

lemma refines_scope_begin:
  assumes "sys_inv F S" and "room (sys_world S)" and "length (sys_objs S) + length (sys_scopes S) + 2 < 2 ^ 31"
  shows "refines F OpScopeBegin S (srb_exec OpScopeBegin S)"
proof -
  let ?w = "sys_world S" and ?scopes = "sys_scopes S"
  obtain K where parts: "parts F (sys_objs S) ?scopes K ?w" and scopes: "scopes_ok ?scopes"
    using assms(1) by (auto simp: sys_inv_parts)
  then have inv: "world_inv F K (length ?scopes) ?w" by (simp add: parts_def)
  have "Suc (Suc (length ?scopes)) < 2 ^ 31" using assms(3) by simp
  then obtain scope w' where w': "dd_ctor ?w = (Inr scope, w')" "w_heap w' = w_heap ?w"
    "initial_on_entry scope = of_nat (Suc (length ?scopes))"
    "set (old_entries scope) = dom (uc_view (w_table ?w))" "world_inv F K (Suc (length ?scopes)) w'"
    by (rule dd_ctor_effect [OF inv _ assms(2)])
  have "p \<in> set (old_entries scope)" if "p \<noteq> nullptr" "K p \<noteq> 0" for p
    using world_inv_view [OF inv that(1)] that(2) w'(4) by auto
  then have "counts_ok (sys_objs S) (scope # ?scopes) K"
    using parts by (auto simp: parts_def counts_ok_def holds_def)
  then have "parts F (sys_objs S) (scope # ?scopes) K w'"
    using parts w'(2,5) by (simp add: parts_def)
  moreover have "scopes_ok (scope # ?scopes)"
    using scopes w'(3) by simp
  moreover have "srb_exec OpScopeBegin S = (Inr (), S\<lparr>sys_scopes := scope # ?scopes, sys_world := w'\<rparr>)"
    using w'(1) by (simp add: srb_exec_def Let_def)
  ultimately show ?thesis
    using w'(2) by (auto simp: refines_def spec_exec_def sys_inv_parts sys_vals_def)
qed

lemma refines_scope_end:
  assumes "sys_inv F S" and "sys_scopes S = scope # ss"
  shows "refines F OpScopeEnd S (srb_exec OpScopeEnd S)"
proof -
  let ?w = "sys_world S" and ?objs = "sys_objs S" and ?old = "set (old_entries scope)"
  obtain K where parts: "parts F ?objs (scope # ss) K ?w" and scopes: "scopes_ok (scope # ss)"
    using assms by (auto simp: sys_inv_parts)
  then have inv: "world_inv F K (Suc (length ss)) ?w" and cnt: "counts_ok ?objs (scope # ss) K"
    by (simp_all add: parts_def)
  obtain w' where w': "dd_dtor scope ?w = (Inr (), w')"
    "world_inv F (\<lambda>p. if p \<in> ?old then K p else K p - 1) (length ss) w'"
    "w_heap w' = (\<lambda>p. if p \<noteq> nullptr \<and> p \<notin> ?old \<and> K p = 1 then None else w_heap ?w p)"
    by (rule dd_dtor_effect [OF inv]) (use scopes in auto)
  have "counts_ok ?objs ss (\<lambda>p. if p \<in> ?old then K p else K p - 1)"
    using cnt by (auto simp: counts_ok_def holds_def split: if_splits)
  moreover have frame: "w_heap w' (buf_ptr b) = w_heap ?w (buf_ptr b)" if "b \<in> set ?objs" for b
  proof (rule ccontr)
    let ?p = "buf_ptr b"
    assume "w_heap w' ?p \<noteq> w_heap ?w ?p"
    then have p: "?p \<noteq> nullptr" "?p \<notin> ?old" "K ?p = 1"
      using w'(3) by (auto split: if_splits)
    then have "refs ?objs ?p = 0"
      using cnt unfolding counts_ok_def holds_def by (auto split: if_splits)
    with refs_zero that show False by blast
  qed
  have "\<forall>b\<in>set ?objs. obj_ok b (w_heap w')" and vals: "vals w' ?objs = vals ?w ?objs"
    using parts frame obj_frame [of "w_heap w'" _ "w_heap ?w"] by (auto simp: parts_def)
  ultimately have "parts F ?objs ss (\<lambda>p. if p \<in> ?old then K p else K p - 1) w'"
    using w'(2) by (simp add: parts_def)
  moreover have "srb_exec OpScopeEnd S = (Inr (), S\<lparr>sys_scopes := ss, sys_world := w'\<rparr>)"
    using w'(1) assms(2) by (simp add: srb_exec_def Let_def)
  ultimately show ?thesis
    using vals scopes by (auto simp: refines_def spec_exec_def sys_inv_parts sys_vals_def)
qed

text \<open>All operations.\<close>

lemma exec_refines:
  assumes "sys_inv F S" and "srb_safe op S"
  shows "refines F op S (srb_exec op S)"
proof (cases op)
  case OpScopeEnd
  with assms(2) obtain scope ss where "sys_scopes S = scope # ss"
    by (cases "sys_scopes S") (auto simp: srb_safe_def Let_def)
  with assms(1) OpScopeEnd show ?thesis by (simp add: refines_scope_end)
qed (use assms in \<open>simp_all add: refines_append refines_assign refines_assign_buffer\<close>,
     auto simp: srb_safe_def Let_def intro!: refines_default refines_ctor refines_from_buffer
       refines_from_address refines_copy refines_reset refines_swap refines_scope_begin)

section \<open>Runs\<close>

text \<open>The states that a program reaches with operations inside their conditions of use.\<close>

inductive srb_reachable :: "srb_system \<Rightarrow> srb_system \<Rightarrow> bool" for S where
  start: "srb_reachable S S"
| step: "srb_reachable S S1 \<Longrightarrow> srb_safe op S1 \<Longrightarrow> srb_exec op S1 = (r, S2) \<Longrightarrow> srb_reachable S S2"

lemma reachable_inv:
  assumes "srb_reachable S S'" and "sys_inv F S"
  shows "sys_inv F S'"
  using assms
proof (induction rule: srb_reachable.induct)
  case start
  then show ?case by simp
next
  case (step S1 op r S2)
  then show ?case
    using exec_refines [of F S1 op] by (simp add: refines_def)
qed

text \<open>The state before the first buffer: an empty table in a segment of at least 8 bytes.\<close>

lemma start_inv:
  assumes "F nullptr = None" and "8 \<le> n" and "n < size_limit"
  shows "sys_inv F (sys_start F n)"
proof -
  have "world_inv F (\<lambda>_. 0) 0 \<lparr>w_heap = F, w_table = shm_create n\<rparr>"
    using assms(1) shm_create_view [OF assms(2,3)] by (simp add: world_inv_def heap_ok_def)
  moreover have "counts_ok [] [] (\<lambda>_. 0)"
    by (simp add: counts_ok_def refs_def)
  ultimately show ?thesis
    by (auto simp: sys_inv_def sys_start_def)
qed

lemma reachable_start_inv:
  assumes "srb_reachable (sys_start F n) S" and "F nullptr = None" and "8 \<le> n" and "n < size_limit"
  shows "sys_inv F S"
  using reachable_inv [OF assms(1)] start_inv assms(2-4) by blast

lemma start_room: "20 \<le> n \<Longrightarrow> n < size_limit \<Longrightarrow> room (sys_world (sys_start F n))"
  by (simp add: room_def sys_start_def shm_create_view)

text \<open>A concrete state: one object with a block of two bytes at address 16.\<close>

definition demo_op :: srb_op where
  "demo_op = OpCtor (16, \<lambda>_. 7) 2 1"

definition demo_state :: srb_system where
  "demo_state = snd (srb_exec demo_op (sys_start Map.empty 64))"

lemma demo_objs: "sys_objs demo_state = [\<lparr>buf_size = 2, buf_ptr = 16\<rparr>]"
  by code_simp

lemma demo_safe: "srb_safe demo_op (sys_start Map.empty 64)"
  using start_room [of 64 Map.empty]
  by (simp add: demo_op_def srb_safe_def fresh_choice_def size_limit_def) (simp add: sys_start_def)

lemma demo_scopes: "sys_scopes demo_state = []"
  by code_simp

lemma demo_reachable: "srb_reachable (sys_start Map.empty 64) demo_state"
  using srb_reachable.step [OF srb_reachable.start demo_safe prod.collapse [symmetric]]
  by (simp add: demo_state_def)

text \<open>A second concrete state: the object is copied.\<close>

definition demo_shared :: srb_system where
  "demo_shared = snd (srb_exec (OpCopy 0) demo_state)"

lemma demo_table: "ipm_load uc_traits (w_table (sys_world demo_state)) = Inr [(16, 1)]"
  by code_simp

lemma demo_capacity: "capacity (w_table (sys_world demo_state)) = 64"
  by code_simp

lemma demo_view: "uc_view (w_table (sys_world demo_state)) = [16 \<mapsto> 1]"
  by (simp add: uc_view_def demo_table fun_eq_iff)

lemma demo_room: "room (sys_world demo_state)"
  by (simp add: room_def uc_limit_def demo_capacity demo_view)

lemma demo_shared_objs: "sys_objs demo_shared = [\<lparr>buf_size = 2, buf_ptr = 16\<rparr>, \<lparr>buf_size = 2, buf_ptr = 16\<rparr>]"
  by code_simp

lemma demo_shared_safe_get: "srb_safe_get \<lparr>buf_size = 2, buf_ptr = 16\<rparr> (sys_world demo_shared) = Inr 16"
  by code_simp

lemma demo_shared_reachable: "srb_reachable (sys_start Map.empty 64) demo_shared"
proof -
  have "srb_safe (OpCopy 0) demo_state"
    by (simp add: srb_safe_def demo_room demo_objs demo_scopes)
  from srb_reachable.step [OF demo_reachable this prod.collapse [symmetric]] show ?thesis
    by (simp add: demo_shared_def)
qed

section \<open>Properties\<close>









section \<open>Outside the conditions of use\<close>

text \<open>An unknown address. The constructor from a raw address throws for an address that is not managed, and on
  the way out the base class destructor frees the memory at that address, which belongs to the caller.\<close>

lemma from_unknown_address_frees:
  assumes "uc_ok (w_table w)" and "uc_view (w_table w) a = None" and "a \<noteq> nullptr" and "w_heap w a = Some d"
  shows "\<exists>msg. srb_from_address a w = (Inl (runtime_error msg), w\<lparr>w_heap := (w_heap w)(a := None)\<rparr>)"
  using use_count_table.upd_missing [OF assms(1,2), of incr] assms(3,4)
  by (simp add: srb_from_address_def buffer_default_def srb_unwind_def buffer_dtor_def buffer_reset_def heap_free_live)

lemma from_unknown_address_frees_witness:
  "\<exists>msg. srb_from_address 32 \<lparr>w_heap = [32 \<mapsto> [1, 2]], w_table = shm_create 64\<rparr>
     = (Inl (runtime_error msg), \<lparr>w_heap = [32 \<mapsto> [1, 2]](32 := None), w_table = shm_create 64\<rparr>)"
  using from_unknown_address_frees [of "\<lparr>w_heap = [32 \<mapsto> [1, 2]], w_table = shm_create 64\<rparr>" 32]
  by (simp add: shm_create_view size_limit_def del: fun_upd_upd)

text \<open>C33. A moved block in a delay scope. When the only owner of a block made before the scope appends inside the
  scope and \<open>realloc\<close> moves the block, the end of the scope takes the new address for a block of the scope:
  it frees the block while the object still refers to it.\<close>

theorem append_in_scope_dangles:
  assumes "world_inv F K 0 w" and "obj_ok b (w_heap w)" and "buf_ptr b \<noteq> nullptr" and "K (buf_ptr b) = 1"
    and "0 < buf_size b" and "buf_size b + length d < size_limit"
    and "card (dom (uc_view (w_table w))) + 1 < uc_limit (w_table w)"
    and "fst c \<noteq> nullptr" and "w_heap w (fst c) = None"
  shows "\<exists>scope w1 b2 w2 w3. dd_ctor w = (Inr scope, w1) \<and> srb_append c d (b, w1) = (Inr (), b2, w2) \<and>
    dd_dtor scope w2 = (Inr (), w3) \<and> buf_ptr b2 = fst c \<and> w_heap w3 (buf_ptr b2) = None"
proof -
  have "room w" using assms(7) by (simp add: room_def)
  obtain scope w1 where w1: "dd_ctor w = (Inr scope, w1)" "w_heap w1 = w_heap w"
    "initial_on_entry scope = of_nat (Suc 0)" "set (old_entries scope) = dom (uc_view (w_table w))"
    "world_inv F K (Suc 0) w1" "uc_view (w_table w1) = (uc_view (w_table w))(nullptr \<mapsto> of_nat (Suc (Suc 0)))"
    "uc_limit (w_table w1) = uc_limit (w_table w)"
    by (rule dd_ctor_effect [OF assms(1) _ \<open>room w\<close>]) auto
  have "card (insert nullptr (dom (uc_view (w_table w)))) \<le> Suc (card (dom (uc_view (w_table w))))"
    by (rule card_insert_le_m1) auto
  then have room1: "room w1"
    using assms(7) w1(6,7) by (simp add: room_def)
  have pre: "obj_ok b (w_heap w1)" "buf_ptr b \<noteq> nullptr \<longrightarrow> K (buf_ptr b) = 1 \<and> 0 < buf_size b"
    using assms(2,4,5) w1(2) by auto
  note block = obj_ok_block [OF assms(2,3)]
  obtain b2 w2 where w2: "srb_append_exclusive c d (b, w1) = (Inr (), b2, w2)" "buf_ptr b2 = fst c"
    "world_inv F (K(buf_ptr b := 0, fst c := 1)) (Suc 0) w2"
    using srb_append_exclusive_effect [OF w1(5) pre assms(6) room1, of c]
  proof cases
    case 1
    with assms(8,9) w1(2) show thesis by simp
  next
    case (2 w')
    with assms(9) block(1) show thesis by simp
  next
    case (3 q w')
    with that show thesis by simp
  qed (use assms(3) in auto)
  have append: "srb_append c d (b, w1) = (Inr (), b2, w2)"
    using w2(1) assms(3-5) use_count_at [OF w1(5) assms(3)] by (simp add: srb_append_def word_sless_alt)
  have "fst c \<notin> set (old_entries scope)"
    using world_inv_free_address [OF assms(1,8,9)] world_inv_view [OF assms(1,8)] w1(4) by auto
  moreover obtain w3 where "dd_dtor scope w2 = (Inr (), w3)"
    "w_heap w3 = (\<lambda>p. if p \<noteq> nullptr \<and> p \<notin> set (old_entries scope) \<and> (K(buf_ptr b := 0, fst c := 1)) p = 1
       then None else w_heap w2 p)"
    by (rule dd_dtor_effect [OF w2(3)]) (use w1(3) in auto)
  ultimately show ?thesis
    using w1(1) append w2(2) assms(8) by auto
qed

theorem append_in_scope_dangles_witness:
  "\<exists>scope w1 b2 w2 w3. dd_ctor (sys_world demo_state) = (Inr scope, w1) \<and>
    srb_append (32, \<lambda>_. 0) [9] (\<lparr>buf_size = 2, buf_ptr = 16\<rparr>, w1) = (Inr (), b2, w2) \<and>
    dd_dtor scope w2 = (Inr (), w3) \<and> buf_ptr b2 = 32 \<and> w_heap w3 (buf_ptr b2) = None"
proof -
  have "sys_inv Map.empty demo_state"
    by (rule reachable_start_inv [OF demo_reachable]) (simp_all add: size_limit_def)
  then obtain K where inv: "world_inv Map.empty K 0 (sys_world demo_state)"
    and cnt: "counts_ok [\<lparr>buf_size = 2, buf_ptr = 16\<rparr>] [] K"
    and ok: "obj_ok \<lparr>buf_size = 2, buf_ptr = 16\<rparr> (w_heap (sys_world demo_state))"
    by (auto simp: sys_inv_def demo_objs demo_scopes)
  have "K 16 = 1"
    using counts_ok_pos [OF cnt, of 0] cnt [unfolded counts_ok_def, THEN spec, of 16]
    by (simp add: refs_def holds_def)
  moreover have "w_heap (sys_world demo_state) 32 = None"
    by code_simp
  ultimately show ?thesis
    using append_in_scope_dangles [OF inv ok, of "[9]" "(32, \<lambda>_. 0)"]
    by (simp add: demo_view uc_limit_def demo_capacity size_limit_def)
qed

text \<open>A full table. When the table of counts has no room for a new entry, the allocating constructor throws and
  frees the block that it has just allocated: heap and table are as before.\<close>

lemma srb_ctor_table_full:
  assumes "world_inv F K k w" and "\<not> room w"
  shows "\<exists>e. srb_ctor c n m w = (Inl e, w) \<and> \<not> is_undefined e"
proof (cases "fst c = nullptr \<or> w_heap w (fst c) \<noteq> None")
  case True
  then have "srb_ctor c n m w = (Inl std_bad_alloc, w)"
    by (auto simp: srb_ctor_def buffer_ctor_def heap_malloc_def Let_def)
  then show ?thesis by simp
next
  case False
  then have free: "uc_view (w_table w) (fst c) = None"
    using world_inv_free_address [OF assms(1)] world_inv_view [OF assms(1)] by simp
  have "uc_limit (w_table w) \<le> card (dom (uc_view (w_table w)))"
    using assms(2) by (simp add: room_def)
  from use_count_table.put_full [OF world_inv_uc_ok [OF assms(1)] free this]
  obtain e where e: "ipm_insert uc_traits (fst c) (of_nat (Suc k)) (w_table w) = (Inl e, w_table w)" "\<not> is_undefined e"
    by blast
  moreover have "(w_heap w)(fst c := None) = w_heap w"
    using False by auto
  ultimately have "srb_ctor c n m w = (Inl e, w)"
    using False initial_use_count [OF assms(1)] update_or_insert_missing [OF world_inv_uc_ok [OF assms(1)] free]
    by (simp add: srb_ctor_def buffer_ctor_def heap_malloc_def Let_def srb_register_def get_initial_use_count_def
        srb_unwind_def buffer_dtor_def buffer_reset_def heap_free_live)
  with e(2) show ?thesis by simp
qed

lemma srb_ctor_table_full_witness:
  "\<exists>e. srb_ctor (16, \<lambda>_. 0) 4 1 \<lparr>w_heap = Map.empty, w_table = shm_create 8\<rparr>
     = (Inl e, \<lparr>w_heap = Map.empty, w_table = shm_create 8\<rparr>) \<and> \<not> is_undefined e"
proof (rule srb_ctor_table_full)
  show "world_inv Map.empty (\<lambda>_. 0) 0 \<lparr>w_heap = Map.empty, w_table = shm_create 8\<rparr>"
    by (simp add: world_inv_def heap_ok_def shm_create_view size_limit_def)
  show "\<not> room \<lparr>w_heap = Map.empty, w_table = shm_create 8\<rparr>"
    by (simp add: room_def shm_create_view size_limit_def)
qed

end
