(* ===== verification/Direct_Serialize.thy ===== *)
theory Direct_Serialize
  imports Stable_Reference_Buffer
begin

text \<open>
  \<open>serialize\<close> of \<^verbatim>\<open>serialization/direct.hpp\<close>: a value becomes the bytes of a new
  \<open>stable_reference_buffer\<close>.

  The serializers write to a \<open>buffer&\<close>, whose \<open>append\<close> is virtual. So the interface \<open>byte_sink\<close>, which
  the plain buffer implements, is interpreted here once more, on the \<open>append\<close> of the reference
  counted buffer, with its table of counts. The round trip then follows for every codec.
\<close>

section \<open>The segment keeps its size\<close>

lemma limit_insert: "ipm_insert T k v t = (r, t') \<Longrightarrow> uc_limit t' = uc_limit t"
  and limit_erase: "ipm_erase T k t = (r, t') \<Longrightarrow> uc_limit t' = uc_limit t"
  by (auto simp: ipm_insert_def ipm_erase_def uc_limit_def split: sum.splits dest: capacity_store)

lemma limit_append_exclusive:
  assumes "srb_append_exclusive c d (b, w) = (r, b', w')"
  shows "uc_limit (w_table w') = uc_limit (w_table w)"
  using assms
  by (auto simp: srb_append_exclusive_def srb_insert_initial_def srb_insert_count_def Let_def
      split: sum.splits prod.splits if_splits dest!: limit_insert limit_erase)

section \<open>A reference counted buffer as a sink\<close>

text \<open>The object is the only owner of its block, no delay scope is active, and the table has room. \<open>F\<close>
  is the memory of the rest of the program.\<close>

definition srb_sink_ok :: "heap \<Rightarrow> buffer \<times> world \<Rightarrow> bool" where
  "srb_sink_ok F s \<longleftrightarrow>
     (case s of (b, w) \<Rightarrow>
       \<exists>K. world_inv F K 0 w \<and> obj_ok b (w_heap w) \<and>
         (buf_ptr b \<noteq> nullptr \<longrightarrow> K (buf_ptr b) = 1 \<and> 0 < buf_size b) \<and>
         card {p. p \<noteq> nullptr \<and> 0 < K p} + (if buf_ptr b = nullptr then 3 else 2) \<le> uc_limit (w_table w))"

definition srb_content :: "buffer \<times> world \<Rightarrow> bytes" where
  "srb_content s = (case s of (b, w) \<Rightarrow> obj_bytes b (w_heap w))"

lemma keys_room:
  assumes "world_inv F K n w" and "card {p. p \<noteq> nullptr \<and> 0 < K p} + 2 \<le> uc_limit (w_table w)"
  shows "room w"
proof -
  have "dom (uc_view (w_table w)) \<subseteq> insert nullptr {p. p \<noteq> nullptr \<and> 0 < K p}"
    using world_inv_view [OF assms(1)] by (auto split: if_splits)
  then have "card (dom (uc_view (w_table w))) \<le> card (insert nullptr {p. p \<noteq> nullptr \<and> 0 < K p})"
    by (rule card_mono [rotated]) simp
  also have "\<dots> \<le> Suc (card {p. p \<noteq> nullptr \<and> 0 < K p})"
    by simp
  finally show ?thesis
    using assms(2) by (simp add: room_def)
qed

lemma srb_sink_intro:
  assumes "world_inv F K 0 w" and "q \<noteq> nullptr" and "w_heap w q = Some x" and "K q = 1"
    and "x \<noteq> []" and "length x < size_limit" and "card {p. p \<noteq> nullptr \<and> 0 < K p} + 2 \<le> uc_limit (w_table w)"
  shows "srb_sink_ok F (\<lparr>buf_size = length x, buf_ptr = q\<rparr>, w)"
    and "srb_content (\<lparr>buf_size = length x, buf_ptr = q\<rparr>, w) = x"
  using assms by (auto simp: srb_sink_ok_def srb_content_def obj_ok_def obj_bytes_def)

lemma srb_sink_append:
  assumes ok: "srb_sink_ok F s" and small: "length (srb_content s) + length d < size_limit"
    and nonempty: "d \<noteq> [] \<or> srb_content s \<noteq> []" and run: "srb_append c d s = (r, s')"
  shows "(r = Inr () \<and> srb_sink_ok F s' \<and> srb_content s' = srb_content s @ d) \<or> (r = Inl std_bad_alloc \<and> s' = s)"
proof -
  obtain b w where s: "s = (b, w)" by force
  let ?x = "srb_content s"
  obtain K where inv: "world_inv F K 0 w" and obj: "obj_ok b (w_heap w)"
    and owner: "buf_ptr b \<noteq> nullptr \<longrightarrow> K (buf_ptr b) = 1 \<and> 0 < buf_size b"
    and keys: "card {p. p \<noteq> nullptr \<and> 0 < K p} + (if buf_ptr b = nullptr then 3 else 2) \<le> uc_limit (w_table w)"
    using ok by (auto simp: srb_sink_ok_def s)
  have room: "room w"
    by (rule keys_room [OF inv]) (use keys in \<open>auto split: if_splits\<close>)
  have null: "buf_ptr b = nullptr \<Longrightarrow> srb_content s = [] \<and> buf_size b = 0"
    using obj world_inv_heap_ok [OF inv] by (simp add: s srb_content_def obj_bytes_def obj_ok_def heap_ok_def)
  have block: "buf_ptr b \<noteq> nullptr \<Longrightarrow> w_heap w (buf_ptr b) = Some (srb_content s) \<and> buf_size b = length (srb_content s)"
    using obj_ok_block [OF obj] owner by (auto simp: s srb_content_def)
  have size: "buf_size b + length d < size_limit"
    using small null block by (cases "buf_ptr b = nullptr") auto
  have excl: "srb_append c d s = srb_append_exclusive c d (b, w)"
    using owner use_count_at [OF inv] by (auto simp: s srb_append_def word_sless_alt)
  have limit: "uc_limit (w_table (snd s')) = uc_limit (w_table w)"
    using run excl limit_append_exclusive by (cases s') simp
  from srb_append_exclusive_effect [OF inv obj owner size room, of c] show ?thesis
  proof cases
    case 1
    with run excl show ?thesis by (simp add: s)
  next
    case (2 w')
    then have s': "s' = (\<lparr>buf_size = length (?x @ d), buf_ptr = buf_ptr b\<rparr>, w')" and r: "r = Inr ()"
      using run excl block by auto
    have "srb_sink_ok F s' \<and> srb_content s' = ?x @ d"
      unfolding s' using srb_sink_intro [OF 2(5,1), of "?x @ d"] 2(1,4) owner block keys limit size s'
      by (auto simp: s srb_content_def)
    with r show ?thesis by simp
  next
    case (3 q w')
    then have s': "s' = (\<lparr>buf_size = length (?x @ d), buf_ptr = q\<rparr>, w')" and r: "r = Inr ()"
      using run excl block by auto
    have "{p. p \<noteq> nullptr \<and> 0 < (K(buf_ptr b := 0, q := 1)) p}
        = insert q ({p. p \<noteq> nullptr \<and> 0 < K p} - {buf_ptr b})"
      using 3(2) by auto
    also have "card \<dots> \<le> Suc (card ({p. p \<noteq> nullptr \<and> 0 < K p} - {buf_ptr b}))"
      by (rule card_insert_le_m1) simp_all
    also have "\<dots> = card {p. p \<noteq> nullptr \<and> 0 < K p}"
      using 3(1) owner by (intro card_Suc_Diff1) auto
    finally have "srb_sink_ok F s' \<and> srb_content s' = ?x @ d"
      unfolding s' using srb_sink_intro [OF 3(7,2), of "?x @ d"] 3(1,6) owner block keys limit size s'
      by (auto simp: s srb_content_def)
    with r show ?thesis by simp
  next
    case (4 q w')
    then have s': "s' = (\<lparr>buf_size = length d, buf_ptr = q\<rparr>, w')" and r: "r = Inr ()"
      using run excl by auto
    have "{p. p \<noteq> nullptr \<and> 0 < (K(q := Suc 0)) p} = insert q {p. p \<noteq> nullptr \<and> 0 < K p}"
      using 4(2) by auto
    also have "card \<dots> \<le> Suc (card {p. p \<noteq> nullptr \<and> 0 < K p})"
      by (rule card_insert_le_m1) simp_all
    finally have "srb_sink_ok F s' \<and> srb_content s' = d"
      unfolding s' using srb_sink_intro [OF 4(7,2), of d] 4(1,6) keys limit size s' null nonempty
      by (auto simp: s srb_content_def)
    with r 4(1) null show ?thesis by simp
  qed
qed

interpretation srb_sink: byte_sink srb_append srb_content "srb_sink_ok F" for F
proof
  fix s d c u s'
  assume "srb_sink_ok F s" and "length (srb_content s) + length d < size_limit"
    and "d \<noteq> [] \<or> srb_content s \<noteq> []" and "srb_append c d s = (Inr u, s')"
  from srb_sink_append [OF this] show "srb_sink_ok F s' \<and> srb_content s' = srb_content s @ d" by simp
next
  fix s d c e s'
  assume *: "srb_sink_ok F s" and "length (srb_content s) + length d < size_limit"
    and "d \<noteq> [] \<or> srb_content s \<noteq> []" and "srb_append c d s = (Inl e, s')"
  from srb_sink_append [OF this] *
  show "srb_sink_ok F s' \<and> srb_content s' = srb_content s \<and> \<not> is_undefined e" by auto
qed

section \<open>\<open>serialize\<close>\<close>

text \<open>An exception destroys the local \<open>byte_stream\<close> on the way out.\<close>

definition srb_serialize :: "(nat \<Rightarrow> choice) \<Rightarrow> ('a \<Rightarrow> bytes list) \<Rightarrow> 'a \<Rightarrow> world \<Rightarrow> buffer result \<times> world" where
  "srb_serialize cs ser instance w =
     (case append_all srb_append cs (ser instance) (buffer_default, w) of
        (Inl e, s) \<Rightarrow> (case srb_dtor s of (Inl e', w') \<Rightarrow> (Inl e', w') | (Inr _, w') \<Rightarrow> (Inl e, w'))
      | (Inr _, b, w') \<Rightarrow> (Inr b, w'))"

lemma chunks_nonempty: "ds \<noteq> [] \<Longrightarrow> chunks_ok False ds \<Longrightarrow> concat ds \<noteq> []"
  by (cases ds) auto

lemma serialize_sink:
  assumes "srb_sink_ok F (buffer_default, w)" and "chunks_ok False (ser x)"
    and "length (concat (ser x)) < size_limit" and "srb_serialize cs ser x w = (Inr b, w')"
  shows "srb_sink_ok F (b, w') \<and> obj_bytes b (w_heap w') = concat (ser x)"
proof -
  have "heap_ok (w_heap w)"
    using assms(1) world_inv_heap_ok by (auto simp: srb_sink_ok_def)
  then have nil: "srb_content (buffer_default, w) = []"
    by (simp add: srb_content_def obj_bytes_def buffer_default_def heap_ok_def)
  have "append_all srb_append cs (ser x) (buffer_default, w) = (Inr (), b, w')"
    using assms(4) by (auto simp: srb_serialize_def split: sum.splits prod.splits)
  from srb_sink.append_all_content [OF assms(1) _ _ this] nil assms(2,3) show ?thesis
    by (simp add: srb_content_def)
qed

text \<open>C4. Serialization round trip. A table of \<open>xpod\<close> values, nested to any depth, that \<open>serialize\<close> has written
  to a reference counted buffer is read back by \<open>deserialize\<close> from the bytes of that buffer, and the
  memory of the rest of the program is as before.\<close>

theorem serialize_roundtrip:
  assumes "srb_sink_ok F (buffer_default, w)" and "valid_nested (\<lambda>s. length s < size_limit) valid_xpod x"
    and "length (concat (ser_nested ser_string ser_xpod x)) < size_limit"
    and "srb_serialize cs (ser_nested ser_string ser_xpod) x w = (Inr b, w')"
  shows "fst (deserialize_const (deser_nested deser_string deser_xpod) (obj_bytes b (w_heap w'))) = Inr x \<and>
    buf_size b = length (concat (ser_nested ser_string ser_xpod x)) \<and>
    (\<forall>p d. F p = Some d \<longrightarrow> w_heap w' p = Some d)"
proof -
  let ?ser = "ser_nested ser_string ser_xpod"
  have "srb_sink_ok F (b, w')" and bytes: "obj_bytes b (w_heap w') = concat (?ser x)"
    using serialize_sink [OF assms(1) _ assms(3,4)] xpod_table_codec.nested.chunks by auto
  then obtain K where inv: "world_inv F K 0 w'" and ok: "obj_ok b (w_heap w')"
    and owner: "buf_ptr b \<noteq> nullptr \<longrightarrow> 0 < buf_size b"
    by (auto simp: srb_sink_ok_def)
  have "concat (?ser x) \<noteq> []"
    using chunks_nonempty xpod_table_codec.nested.chunks by blast
  then have "buf_ptr b \<noteq> nullptr"
    using bytes world_inv_heap_ok [OF inv] by (auto simp: obj_bytes_def heap_ok_def)
  then have "buf_size b = length (concat (?ser x))"
    using obj_ok_block [OF ok] owner bytes by auto
  moreover have "w_heap w' p = Some d" if "F p = Some d" for p d
    using inv that by (cases "p = nullptr \<or> K p = 0") (auto simp: world_inv_def)
  moreover have "deser_nested deser_string deser_xpod (concat (?ser x)) = Inr (x, [])"
    using xpod_table_codec.nested.roundtrip [OF assms(2), of "[]"] by simp
  ultimately show ?thesis
    using bytes by (simp add: deserialize_const_def)
qed

definition demo_value :: "(string, xpod) nested_map" where
  "demo_value = Nested_Map [(''a'', Integer 5)] []"

definition demo_world :: world where
  "demo_world = \<lparr>w_heap = Map.empty, w_table = shm_create 64\<rparr>"

definition demo_run :: "buffer result \<times> world" where
  "demo_run = srb_serialize (\<lambda>_. (16, \<lambda>_. 0)) (ser_nested ser_string ser_xpod) demo_value demo_world"

lemma demo_world_ok: "srb_sink_ok Map.empty (buffer_default, demo_world)"
  by (auto simp: srb_sink_ok_def demo_world_def buffer_default_def obj_ok_def world_inv_def heap_ok_def
      shm_create_view size_limit_def intro!: exI [of _ "\<lambda>_. 0"])

lemma demo_run_ok: "fst demo_run = Inr \<lparr>buf_size = 34, buf_ptr = 16\<rparr>"
  by code_simp

lemma demo_value_ok:
  "valid_nested (\<lambda>s. length s < size_limit) valid_xpod demo_value"
  "length (concat (ser_nested ser_string ser_xpod demo_value)) < size_limit"
  by (simp_all add: size_limit_def demo_value_def valid_map_def smap_ok_def
      ser_map_def ser_size_def ser_string_def ser_xpod_def traits_serialize_def ser_char_def)

theorem serialize_roundtrip_witness:
  "fst (deserialize_const (deser_nested deser_string deser_xpod)
     (obj_bytes \<lparr>buf_size = 34, buf_ptr = 16\<rparr> (w_heap (snd demo_run)))) = Inr demo_value"
proof -
  have "srb_serialize (\<lambda>_. (16, \<lambda>_. 0)) (ser_nested ser_string ser_xpod) demo_value demo_world
      = (Inr \<lparr>buf_size = 34, buf_ptr = 16\<rparr>, snd demo_run)"
    using demo_run_ok by (simp add: demo_run_def prod_eq_iff)
  from serialize_roundtrip [OF demo_world_ok demo_value_ok this] show ?thesis by simp
qed

end

