(* ===== verification/Step_System.thy ===== *)
theory Step_System
  imports Cbeam_Prelude
begin

text \<open>
  What the step relations of the concurrent components share: a step function with labels that may refuse a step, the states
  reachable from a start, and runs along a list of labels. Each component interprets the locale on its own step function,
  reachability predicate and run function, and takes from it that the reachable states are exactly the ends of runs, that runs
  compose, and that a property which every step keeps holds along every run.
\<close>

locale step_system =
  fixes start :: 's
    and step :: "'l \<Rightarrow> 's \<Rightarrow> 's option"
    and reach :: "'s \<Rightarrow> bool"
    and run :: "'l list \<Rightarrow> 's \<Rightarrow> 's option"
  assumes reach_start: "reach start"
    and reach_step: "reach s \<Longrightarrow> step l s = Some s' \<Longrightarrow> reach s'"
    and reach_induct: "reach s \<Longrightarrow> P start \<Longrightarrow> (\<And>s l s'. reach s \<Longrightarrow> P s \<Longrightarrow> step l s = Some s' \<Longrightarrow> P s') \<Longrightarrow> P s"
    and run_Nil: "run [] s = Some s"
    and run_Cons: "run (l # ls) s = (case step l s of None \<Rightarrow> None | Some s' \<Rightarrow> run ls s')"
begin

lemma run_keeps:
  assumes "run ls s = Some s'" and "reach s" and "P s"
    and "\<And>s l s'. reach s \<Longrightarrow> P s \<Longrightarrow> step l s = Some s' \<Longrightarrow> P s'"
  shows "P s'"
  using assms(1-3)
proof (induction ls arbitrary: s)
  case Nil
  then show ?case by (simp add: run_Nil)
next
  case (Cons l ls)
  then obtain s1 where "step l s = Some s1" and "run ls s1 = Some s'"
    by (auto simp: run_Cons split: option.splits)
  with Cons show ?case
    using reach_step assms(4) by blast
qed

lemma run_reach: "run ls s = Some s' \<Longrightarrow> reach s \<Longrightarrow> reach s'"
  by (rule run_keeps [where P = reach]) (auto intro: reach_step)

lemma run_start: "run ls start = Some s \<Longrightarrow> reach s"
  by (rule run_reach [OF _ reach_start])

lemma run_append: "run (ls @ ms) s = (case run ls s of None \<Rightarrow> None | Some s' \<Rightarrow> run ms s')"
  by (induction ls arbitrary: s) (auto simp: run_Nil run_Cons split: option.split)

lemma run_trans: "run ls s = Some s1 \<Longrightarrow> run ms s1 = Some s2 \<Longrightarrow> run (ls @ ms) s = Some s2"
  by (simp add: run_append)

lemma run_one: "step l s = Some s' \<Longrightarrow> run [l] s = Some s'"
  by (simp add: run_Nil run_Cons)

lemma reach_iff_run: "reach s \<longleftrightarrow> (\<exists>ls. run ls start = Some s)"
proof
  assume "reach s"
  then show "\<exists>ls. run ls start = Some s"
    by (rule reach_induct) (blast intro: run_Nil run_trans [OF _ run_one])+
qed (auto intro: run_start)

end

end
