(* ===== verification/Message_Manager.thy ===== *)
theory Message_Manager
  imports Step_System
begin

text \<open>
  \<^verbatim>\<open>concurrency/message_manager.hpp\<close> and \<^verbatim>\<open>concurrency/threaded_object.hpp\<close>: one
  \<open>message_queue\<close> with the threads that use it. (Queues of different ids share nothing but the
  maps that find them: see \<^verbatim>\<open>Message_Router\<close>.)

  The threads: senders (\<open>send_message\<close>), workers (\<open>threaded_object::worker\<close> of a
  \<open>message_handler\<close>), waiters (\<open>wait_until_empty\<close>) and destructors of handlers
  (\<open>~threaded_object\<close>, run by \<open>dispose\<close>). Each has a program counter; a step of a thread is the code from one
  synchronization point to the next, so a section under \<open>queue_mutex\<close> is one step. A thread blocked in
  \<open>condition_variable::wait\<close> has a flag that \<open>notify_all\<close> sets; once it is set the thread can take the mutex
  and test its predicate again. Spurious wakeups are left out: they only add steps.

  \<open>mm_next l s\<close> is the step of the thread named by the label \<open>l\<close>, \<open>None\<close> when it cannot run.
  \<open>sent\<close>, \<open>handled\<close> and \<open>dropped\<close> record messages and are read by no step.

  The maps of queues and handlers, the message logger, sends from inside a handler, and the virtual calls of a worker whose
  handler is already destroyed are in \<^verbatim>\<open>Message_Router\<close>. Not modelled: thread names.
\<close>

datatype order_type = FIFO | FILO | RANDOM

datatype 'm sender =
    S_enter 'm nat
  | S_wait bool 'm nat
  | S_notify 'm
  | S_done

datatype 'm worker_pc =
    W_loop
  | W_enter
  | W_wait bool
  | W_got "'m option"
  | W_handle 'm
  | W_after nat
  | W_exit
  | W_done

record 'm worker =
  w_pc :: "'m worker_pc"
  w_running :: bool
  w_order :: order_type

datatype waiter =
    E_enter
  | E_wait bool
  | E_done

datatype destructor =
    D_set nat
  | D_notify nat
  | D_join nat
  | D_done

record 'm mq =
  queue :: "'m list"
  busy_count :: nat
  senders :: "'m sender list"
  workers :: "'m worker list"
  waiters :: "waiter list"
  destructors :: "destructor list"
  terminated :: bool
  sent :: "'m list"
  handled :: "'m list"
  dropped :: "'m list"

definition mq_empty :: "'m mq" where
  "mq_empty = \<lparr>queue = [], busy_count = 0, senders = [], workers = [], waiters = [], destructors = [],
     terminated = False, sent = [], handled = [], dropped = []\<rparr>"

section \<open>Condition variables\<close>

text \<open>\<open>queue_cv\<close> is shared by workers and bounded senders; \<open>queue_cv_empty\<close> is for the waiters.\<close>

fun wake_sender :: "'m sender \<Rightarrow> 'm sender" where
  "wake_sender (S_wait b m n) = S_wait True m n"
| "wake_sender t = t"

fun wake_worker_pc :: "'m worker_pc \<Rightarrow> 'm worker_pc" where
  "wake_worker_pc (W_wait b) = W_wait True"
| "wake_worker_pc pc = pc"

fun wake_waiter :: "waiter \<Rightarrow> waiter" where
  "wake_waiter (E_wait b) = E_wait True"
| "wake_waiter t = t"

definition notify_queue_cv :: "'m mq \<Rightarrow> 'm mq" where
  "notify_queue_cv s = s\<lparr>senders := map wake_sender (senders s),
     workers := map (\<lambda>w. w\<lparr>w_pc := wake_worker_pc (w_pc w)\<rparr>) (workers s)\<rparr>"

definition notify_queue_cv_empty :: "'m mq \<Rightarrow> 'm mq" where
  "notify_queue_cv_empty s = s\<lparr>waiters := map wake_waiter (waiters s)\<rparr>"

section \<open>Sending\<close>

definition set_sender :: "nat \<Rightarrow> 'm sender \<Rightarrow> 'm mq \<Rightarrow> 'm mq" where
  "set_sender i t s = s\<lparr>senders := (senders s)[i := t]\<rparr>"

text \<open>The critical section of \<open>send_message\<close>, on entry and after each wakeup.\<close>

definition send_locked :: "nat \<Rightarrow> 'm \<Rightarrow> nat \<Rightarrow> 'm mq \<Rightarrow> 'm mq" where
  "send_locked i message_data max_queued_messages s =
     (if max_queued_messages = 0 \<or> length (queue s) < max_queued_messages
      then set_sender i (S_notify message_data)
             (s\<lparr>queue := queue s @ [message_data], sent := sent s @ [message_data]\<rparr>)
      else set_sender i (S_wait False message_data max_queued_messages) s)"

definition sender_step :: "nat \<Rightarrow> 'm mq \<Rightarrow> 'm mq option" where
  "sender_step i s =
     (if i < length (senders s) then
        (case senders s ! i of
           S_enter m n \<Rightarrow> Some (send_locked i m n s)
         | S_wait notified m n \<Rightarrow> if notified then Some (send_locked i m n s) else None
         | S_notify m \<Rightarrow> Some (set_sender i S_done (notify_queue_cv s))
         | S_done \<Rightarrow> None)
      else None)"

section \<open>Handling\<close>

definition is_message_available :: "'m mq \<Rightarrow> bool" where
  "is_message_available s \<longleftrightarrow> queue s \<noteq> []"

text \<open>\<open>get_message\<close>: the message and the rest of the queue. \<open>rnd\<close> is the result of
  \<open>random_number(queue.size())\<close>. \<open>front()\<close>, \<open>back()\<close> and \<open>pop\<close> of an empty deque are undefined, as is
  a random number below 0.\<close>

definition get_message :: "order_type \<Rightarrow> nat \<Rightarrow> 'm list \<Rightarrow> ('m \<times> 'm list) option" where
  "get_message order rnd q =
     (if q = [] then None
      else (case order of
              FIFO \<Rightarrow> Some (hd q, tl q)
            | FILO \<Rightarrow> Some (last q, butlast q)
            | RANDOM \<Rightarrow> if rnd < length q then Some (q ! rnd, take rnd q @ drop (Suc rnd) q) else None))"

definition set_worker :: "nat \<Rightarrow> 'm worker_pc \<Rightarrow> 'm mq \<Rightarrow> 'm mq" where
  "set_worker i pc s = s\<lparr>workers := (workers s)[i := (workers s ! i)\<lparr>w_pc := pc\<rparr>]\<rparr>"

text \<open>The end of the critical section of \<open>worker\<close>, once the wait is over.\<close>

definition worker_take :: "nat \<Rightarrow> nat \<Rightarrow> 'm mq \<Rightarrow> 'm mq option" where
  "worker_take rnd i s =
     (if w_running (workers s ! i) then
        (case get_message (w_order (workers s ! i)) rnd (queue s) of
           None \<Rightarrow> None
         | Some (m, q) \<Rightarrow>
             Some (set_worker i (W_got (Some m)) (s\<lparr>queue := q, busy_count := busy_count s + 1\<rparr>)))
      else Some (set_worker i (W_got None) s))"

text \<open>\<open>on_message\<close>: \<open>throws\<close> says whether the handler throws, \<open>on_exception\<close> whether an exception handler
  was given. Calling an empty \<open>std::function\<close> in the \<open>noexcept\<close> method ends the program.\<close>

definition worker_step :: "bool \<Rightarrow> bool \<Rightarrow> nat \<Rightarrow> nat \<Rightarrow> 'm mq \<Rightarrow> 'm mq option" where
  "worker_step throws on_exception rnd i s =
     (if i < length (workers s) then
        (case w_pc (workers s ! i) of
           W_loop \<Rightarrow> Some (set_worker i (if w_running (workers s ! i) then W_enter else W_exit) s)
         | W_enter \<Rightarrow>
             if \<not> is_message_available s \<and> w_running (workers s ! i) then Some (set_worker i (W_wait False) s)
             else worker_take rnd i s
         | W_wait notified \<Rightarrow>
             if \<not> notified then None
             else if is_message_available s \<or> \<not> w_running (workers s ! i) then worker_take rnd i s
             else Some (set_worker i (W_wait False) s)
         | W_got None \<Rightarrow> if w_running (workers s ! i) then None else Some (set_worker i W_loop s)
         | W_got (Some m) \<Rightarrow>
             if w_running (workers s ! i) then Some (set_worker i (W_handle m) s)
             else Some (set_worker i W_loop (s\<lparr>dropped := m # dropped s\<rparr>))
         | W_handle m \<Rightarrow>
             if throws \<and> \<not> on_exception then Some (s\<lparr>terminated := True\<rparr>)
             else Some (set_worker i (W_after (busy_count s - 1))
                    (s\<lparr>busy_count := busy_count s - 1, handled := handled s @ [m]\<rparr>))
         | W_after still_busy \<Rightarrow>
             Some (set_worker i W_loop (if queue s = [] \<and> still_busy = 0 then notify_queue_cv_empty s else s))
         | W_exit \<Rightarrow> Some (set_worker i W_done s)
         | W_done \<Rightarrow> None)
      else None)"

section \<open>Waiting and disposing\<close>

definition set_waiter :: "nat \<Rightarrow> waiter \<Rightarrow> 'm mq \<Rightarrow> 'm mq" where
  "set_waiter i t s = s\<lparr>waiters := (waiters s)[i := t]\<rparr>"

definition waiter_step :: "nat \<Rightarrow> 'm mq \<Rightarrow> 'm mq option" where
  "waiter_step i s =
     (if i < length (waiters s) then
        (case waiters s ! i of
           E_enter \<Rightarrow> Some (set_waiter i (if queue s = [] \<and> busy_count s = 0 then E_done else E_wait False) s)
         | E_wait notified \<Rightarrow>
             if notified then Some (set_waiter i (if queue s = [] \<and> busy_count s = 0 then E_done else E_wait False) s)
             else None
         | E_done \<Rightarrow> None)
      else None)"

definition stop_worker :: "nat \<Rightarrow> 'm mq \<Rightarrow> 'm mq" where
  "stop_worker w s = s\<lparr>workers := (workers s)[w := (workers s ! w)\<lparr>w_running := False\<rparr>]\<rparr>"

definition destructor_step :: "nat \<Rightarrow> 'm mq \<Rightarrow> 'm mq option" where
  "destructor_step i s =
     (if i < length (destructors s) then
        (case destructors s ! i of
           D_set w \<Rightarrow>
             Some ((stop_worker w s)\<lparr>destructors := (destructors s)[i := D_notify w]\<rparr>)
         | D_notify w \<Rightarrow> Some ((notify_queue_cv s)\<lparr>destructors := (destructors s)[i := D_join w]\<rparr>)
         | D_join w \<Rightarrow>
             if w < length (workers s) \<and> w_pc (workers s ! w) = W_done
             then Some (s\<lparr>destructors := (destructors s)[i := D_done]\<rparr>) else None
         | D_done \<Rightarrow> None)
      else None)"

section \<open>The step relation\<close>

text \<open>Calls of the interface start threads; \<open>add_handler\<close> starts the thread of a worker.\<close>

datatype 'm label =
    Send_Message 'm nat
  | Add_Handler order_type
  | Wait_Until_Empty
  | Dispose nat
  | Run_Sender nat
  | Run_Worker bool bool nat nat
  | Run_Waiter nat
  | Run_Destructor nat

definition mm_next :: "'m label \<Rightarrow> 'm mq \<Rightarrow> 'm mq option" where
  "mm_next l s =
     (if terminated s then None
      else (case l of
        Send_Message m n \<Rightarrow> Some (s\<lparr>senders := senders s @ [S_enter m n]\<rparr>)
      | Add_Handler order \<Rightarrow>
          Some (s\<lparr>workers := workers s @ [\<lparr>w_pc = W_loop, w_running = True, w_order = order\<rparr>]\<rparr>)
      | Wait_Until_Empty \<Rightarrow> Some (s\<lparr>waiters := waiters s @ [E_enter]\<rparr>)
      | Dispose w \<Rightarrow>
          if w < length (workers s) \<and> w_running (workers s ! w)
          then Some (s\<lparr>destructors := destructors s @ [D_set w]\<rparr>) else None
      | Run_Sender i \<Rightarrow> sender_step i s
      | Run_Worker throws on_exception rnd i \<Rightarrow> worker_step throws on_exception rnd i s
      | Run_Waiter i \<Rightarrow> waiter_step i s
      | Run_Destructor i \<Rightarrow> destructor_step i s))"

inductive mm_reachable :: "'m mq \<Rightarrow> bool" where
  init: "mm_reachable mq_empty"
| step: "mm_reachable s \<Longrightarrow> mm_next l s = Some s' \<Longrightarrow> mm_reachable s'"

fun mm_run :: "'m label list \<Rightarrow> 'm mq \<Rightarrow> 'm mq option" where
  "mm_run [] s = Some s"
| "mm_run (l # ls) s = (case mm_next l s of None \<Rightarrow> None | Some s' \<Rightarrow> mm_run ls s')"

interpretation mq_steps: step_system mq_empty mm_next mm_reachable mm_run
  by unfold_locales (auto intro: mm_reachable.intros elim: mm_reachable.induct)

section \<open>The program counters of the workers\<close>

definition pcs :: "'m mq \<Rightarrow> 'm worker_pc list" where
  "pcs s = map w_pc (workers s)"

lemma length_pcs [simp]: "length (pcs s) = length (workers s)"
  by (simp add: pcs_def)

lemma pcs_nth [simp]: "i < length (workers s) \<Longrightarrow> pcs s ! i = w_pc (workers s ! i)"
  by (simp add: pcs_def)

lemma pcs_upd [simp]:
  "pcs (set_worker i pc s) = (pcs s)[i := pc]" "pcs (notify_queue_cv s) = map wake_worker_pc (pcs s)"
  "pcs (stop_worker w s) = pcs s" "pcs (notify_queue_cv_empty s) = pcs s" "pcs (set_sender k t s) = pcs s"
  "pcs (set_waiter k e s) = pcs s"
  "pcs (s\<lparr>queue := q\<rparr>) = pcs s" "pcs (s\<lparr>busy_count := n\<rparr>) = pcs s"
  "pcs (s\<lparr>senders := ts\<rparr>) = pcs s" "pcs (s\<lparr>waiters := es\<rparr>) = pcs s"
  "pcs (s\<lparr>destructors := ds\<rparr>) = pcs s" "pcs (s\<lparr>terminated := b\<rparr>) = pcs s"
  "pcs (s\<lparr>sent := ms\<rparr>) = pcs s" "pcs (s\<lparr>handled := ms\<rparr>) = pcs s" "pcs (s\<lparr>dropped := ms\<rparr>) = pcs s"
proof -
  show "pcs (stop_worker w s) = pcs s"
    by (cases "w < length (workers s)") (auto simp: pcs_def stop_worker_def list_eq_iff_nth_eq nth_list_update)
qed (simp_all add: pcs_def set_worker_def notify_queue_cv_def notify_queue_cv_empty_def set_sender_def set_waiter_def
    map_update)

lemma mq_sel [simp]:
  "queue (set_worker i pc s) = queue s" "busy_count (set_worker i pc s) = busy_count s"
  "senders (set_worker i pc s) = senders s" "waiters (set_worker i pc s) = waiters s"
  "destructors (set_worker i pc s) = destructors s" "terminated (set_worker i pc s) = terminated s"
  "sent (set_worker i pc s) = sent s" "handled (set_worker i pc s) = handled s"
  "dropped (set_worker i pc s) = dropped s" "length (workers (set_worker i pc s)) = length (workers s)"
  "queue (stop_worker i s) = queue s" "busy_count (stop_worker i s) = busy_count s"
  "senders (stop_worker i s) = senders s" "waiters (stop_worker i s) = waiters s"
  "sent (stop_worker i s) = sent s" "handled (stop_worker i s) = handled s"
  "dropped (stop_worker i s) = dropped s" "length (workers (stop_worker i s)) = length (workers s)"
  "queue (notify_queue_cv s) = queue s" "busy_count (notify_queue_cv s) = busy_count s"
  "waiters (notify_queue_cv s) = waiters s" "destructors (notify_queue_cv s) = destructors s"
  "sent (notify_queue_cv s) = sent s" "handled (notify_queue_cv s) = handled s" "dropped (notify_queue_cv s) = dropped s"
  "length (workers (notify_queue_cv s)) = length (workers s)"
  "queue (notify_queue_cv_empty s) = queue s" "busy_count (notify_queue_cv_empty s) = busy_count s"
  "senders (notify_queue_cv_empty s) = senders s" "workers (notify_queue_cv_empty s) = workers s"
  "destructors (notify_queue_cv_empty s) = destructors s"
  "waiters (notify_queue_cv_empty s) = map wake_waiter (waiters s)"
  "sent (notify_queue_cv_empty s) = sent s" "handled (notify_queue_cv_empty s) = handled s"
  "dropped (notify_queue_cv_empty s) = dropped s"
  "queue (set_sender i t s) = queue s" "busy_count (set_sender i t s) = busy_count s"
  "workers (set_sender i t s) = workers s" "waiters (set_sender i t s) = waiters s"
  "destructors (set_sender i t s) = destructors s" "sent (set_sender i t s) = sent s"
  "handled (set_sender i t s) = handled s" "dropped (set_sender i t s) = dropped s"
  "queue (set_waiter i e s) = queue s" "busy_count (set_waiter i e s) = busy_count s"
  "workers (set_waiter i e s) = workers s" "senders (set_waiter i e s) = senders s"
  "destructors (set_waiter i e s) = destructors s" "sent (set_waiter i e s) = sent s"
  "handled (set_waiter i e s) = handled s" "dropped (set_waiter i e s) = dropped s"
  by (simp_all add: set_worker_def stop_worker_def notify_queue_cv_def notify_queue_cv_empty_def set_sender_def
      set_waiter_def)

lemma wake_worker_pc_eq [simp]:
  "wake_worker_pc pc \<noteq> W_wait False" "wake_worker_pc pc = W_after n \<longleftrightarrow> pc = W_after n"
  "wake_worker_pc pc = W_got mo \<longleftrightarrow> pc = W_got mo" "W_wait False \<noteq> wake_worker_pc pc"
  by (cases pc; auto)+

lemma wake_waiter_eq [simp]: "wake_waiter e \<noteq> E_wait False" "E_wait False \<noteq> wake_waiter e"
  by (cases e; simp)+

lemma mem_update_other: "x \<in> set xs \<Longrightarrow> xs ! i \<noteq> x \<Longrightarrow> x \<in> set (xs[i := y])"
  by (metis in_set_conv_nth length_list_update nth_list_update_neq)

lemma get_message_mset:
  assumes "get_message order rnd q = Some (m, q')"
  shows "mset q = add_mset m (mset q')"
proof (cases order)
  case FIFO
  with assms show ?thesis by (cases q) (auto simp: get_message_def split: if_splits)
next
  case FILO
  with assms show ?thesis
    by (cases q rule: rev_cases) (auto simp: get_message_def split: if_splits)
next
  case RANDOM
  with assms have rnd: "rnd < length q" and "m = q ! rnd" "q' = take rnd q @ drop (Suc rnd) q"
    by (auto simp: get_message_def split: if_splits)
  then show ?thesis
    using arg_cong [OF id_take_nth_drop [OF rnd], of mset] by simp
qed

text \<open>What a step of a worker can be.\<close>

lemma worker_take_cases:
  assumes "worker_take rnd i s = Some s'"
  obtains (stop) "\<not> w_running (workers s ! i)" and "s' = set_worker i (W_got None) s"
  | (msg) m q where "w_running (workers s ! i)" and "mset (queue s) = add_mset m (mset q)"
      and "get_message (w_order (workers s ! i)) rnd (queue s) = Some (m, q)"
      and "s' = set_worker i (W_got (Some m)) (s\<lparr>queue := q, busy_count := busy_count s + 1\<rparr>)"
  using assms get_message_mset
  by (fastforce simp: worker_take_def split: if_splits option.splits)

lemma worker_step_cases:
  assumes "worker_step th ex rnd i s = Some s'"
  obtains (move) pc where "i < length (workers s)" and "s' = set_worker i pc s"
      and "w_pc (workers s ! i) = W_loop \<and> pc = (if w_running (workers s ! i) then W_enter else W_exit) \<or>
        w_pc (workers s ! i) = W_exit \<and> pc = W_done \<or>
        w_pc (workers s ! i) \<in> {W_enter, W_wait True} \<and> pc = W_wait False \<and> queue s = [] \<and> w_running (workers s ! i) \<or>
        w_pc (workers s ! i) \<in> {W_enter, W_wait True} \<and> pc = W_got None \<and> \<not> w_running (workers s ! i) \<or>
        w_pc (workers s ! i) = W_got None \<and> pc = W_loop \<and> \<not> w_running (workers s ! i)"
  | (take_msg) m q where "i < length (workers s)" and "w_pc (workers s ! i) \<in> {W_enter, W_wait True}"
      and "w_running (workers s ! i)" and "mset (queue s) = add_mset m (mset q)"
      and "get_message (w_order (workers s ! i)) rnd (queue s) = Some (m, q)"
      and "s' = set_worker i (W_got (Some m)) (s\<lparr>queue := q, busy_count := busy_count s + 1\<rparr>)"
  | (begin_msg) m where "i < length (workers s)" and "w_pc (workers s ! i) = W_got (Some m)"
      and "w_running (workers s ! i)" and "s' = set_worker i (W_handle m) s"
  | (drop_msg) m where "i < length (workers s)" and "w_pc (workers s ! i) = W_got (Some m)"
      and "\<not> w_running (workers s ! i)" and "s' = set_worker i W_loop (s\<lparr>dropped := m # dropped s\<rparr>)"
  | (finish_msg) m where "i < length (workers s)" and "w_pc (workers s ! i) = W_handle m"
      and "s' = set_worker i (W_after (busy_count s - 1)) (s\<lparr>busy_count := busy_count s - 1, handled := handled s @ [m]\<rparr>)"
  | (abort) m where "i < length (workers s)" and "w_pc (workers s ! i) = W_handle m" and "s' = s\<lparr>terminated := True\<rparr>"
  | (after) n where "i < length (workers s)" and "w_pc (workers s ! i) = W_after n"
      and "s' = set_worker i W_loop (if queue s = [] \<and> n = 0 then notify_queue_cv_empty s else s)"
proof -
  have i: "i < length (workers s)"
    using assms by (auto simp: worker_step_def split: if_splits)
  have taken: thesis if "w_pc (workers s ! i) \<in> {W_enter, W_wait True}" "worker_take rnd i s = Some s'"
    using that(2)
  proof (cases rule: worker_take_cases)
    case stop
    show thesis
      by (rule move [OF i stop(2)]) (use that(1) stop(1) in simp)
  next
    case (msg m q)
    show thesis
      by (rule take_msg [OF i that(1) msg])
  qed
  show thesis
  proof (cases "w_pc (workers s ! i)")
    case W_enter
    show thesis
    proof (cases "queue s = [] \<and> w_running (workers s ! i)")
      case True
      then have "s' = set_worker i (W_wait False) s"
        using assms W_enter i by (simp add: worker_step_def is_message_available_def)
      then show thesis
        by (rule move [OF i]) (use W_enter True in simp)
    next
      case False
      then have "worker_take rnd i s = Some s'"
        using assms W_enter i by (auto simp: worker_step_def is_message_available_def)
      then show thesis
        by (rule taken [rotated]) (simp add: W_enter)
    qed
  next
    case (W_wait notified)
    then have notified: "notified"
      using assms i by (simp add: worker_step_def split: if_splits)
    show thesis
    proof (cases "queue s = [] \<and> w_running (workers s ! i)")
      case True
      then have "s' = set_worker i (W_wait False) s"
        using assms W_wait notified i by (simp add: worker_step_def is_message_available_def)
      then show thesis
        by (rule move [OF i]) (use W_wait notified True in simp)
    next
      case False
      then have "worker_take rnd i s = Some s'"
        using assms W_wait notified i by (auto simp: worker_step_def is_message_available_def)
      then show thesis
        by (rule taken [rotated]) (simp add: W_wait notified)
    qed
  next
    case (W_got mo)
    show thesis
    proof (cases mo)
      case None
      then have "\<not> w_running (workers s ! i)" and "s' = set_worker i W_loop s"
        using assms W_got i by (simp_all add: worker_step_def split: if_splits)
      then show thesis
        by (intro move [OF i]) (simp_all add: W_got None)
    next
      case (Some m)
      show thesis
      proof (cases "w_running (workers s ! i)")
        case True
        then show thesis
          using assms W_got Some i by (intro begin_msg [of m]) (simp_all add: worker_step_def)
      next
        case False
        then show thesis
          using assms W_got Some i by (intro drop_msg [of m]) (simp_all add: worker_step_def)
      qed
    qed
  next
    case (W_handle m)
    show thesis
    proof (cases "th \<and> \<not> ex")
      case True
      then show thesis
        using assms W_handle i by (intro abort [of m]) (simp_all add: worker_step_def)
    next
      case False
      then show thesis
        using assms W_handle i by (intro finish_msg [of m]) (auto simp: worker_step_def)
    qed
  next
    case (W_after n)
    then show thesis
      using assms i by (intro after [of n]) (simp_all add: worker_step_def)
  next
    case W_loop
    then show thesis
      using assms i by (intro move [of "if w_running (workers s ! i) then W_enter else W_exit"]) (simp_all add: worker_step_def)
  next
    case W_exit
    then show thesis
      using assms i by (intro move [of W_done]) (simp_all add: worker_step_def)
  next
    case W_done
    then show thesis
      using assms i by (simp add: worker_step_def)
  qed
qed

section \<open>Accounting for messages\<close>

text \<open>A worker owns a message from \<open>get_message\<close> until the handler returns.\<close>

fun pc_msgs :: "'m worker_pc \<Rightarrow> 'm list" where
  "pc_msgs (W_got (Some m)) = [m]"
| "pc_msgs (W_handle m) = [m]"
| "pc_msgs _ = []"

definition inflight :: "'m mq \<Rightarrow> 'm list" where
  "inflight s = concat (map pc_msgs (pcs s))"

definition acct :: "'m mq \<Rightarrow> bool" where
  "acct s \<longleftrightarrow>
     mset (sent s) = mset (queue s) + mset (inflight s) + mset (handled s) + mset (dropped s) \<and>
     busy_count s = length (inflight s) + length (dropped s)"

lemma pc_msgs_wake [simp]: "pc_msgs (wake_worker_pc pc) = pc_msgs pc"
  by (cases pc rule: wake_worker_pc.cases) auto

lemma inflight_notify [simp]: "map (pc_msgs \<circ> wake_worker_pc) xs = map pc_msgs xs"
  by simp

lemma mset_concat_update:
  assumes "i < length xs"
  shows "mset (concat (xs[i := y])) + mset (xs ! i) = mset (concat xs) + mset y"
proof -
  have "concat xs = concat (take i xs @ xs ! i # drop (Suc i) xs)"
    using id_take_nth_drop [OF assms] by simp
  then show ?thesis
    using assms by (simp add: upd_conv_take_nth_drop)
qed

lemma inflight_set_worker:
  assumes "i < length (workers s)"
  shows "mset (inflight (set_worker i pc s)) + mset (pc_msgs (w_pc (workers s ! i))) = mset (inflight s) + mset (pc_msgs pc)"
    and "length (inflight (set_worker i pc s)) + length (pc_msgs (w_pc (workers s ! i))) = length (inflight s) + length (pc_msgs pc)"
proof -
  show eq: "mset (inflight (set_worker i pc s)) + mset (pc_msgs (w_pc (workers s ! i))) = mset (inflight s) + mset (pc_msgs pc)"
    using mset_concat_update [of i "map pc_msgs (pcs s)" "pc_msgs pc"] assms
    by (simp add: inflight_def map_update)
  show "length (inflight (set_worker i pc s)) + length (pc_msgs (w_pc (workers s ! i))) = length (inflight s) + length (pc_msgs pc)"
    using arg_cong [OF eq, of size] by simp
qed

lemma inflight_pcs: "pcs s' = pcs s \<Longrightarrow> inflight s' = inflight s"
  by (simp add: inflight_def)

lemma acct_worker:
  assumes "worker_step th ex rnd i s = Some s'" and "acct s"
  shows "acct s'"
  using assms(1)
proof (cases rule: worker_step_cases)
  case (move pc)
  moreover have "pc_msgs pc = pc_msgs (w_pc (workers s ! i))"
    using move(3) by auto
  ultimately show ?thesis
    using assms(2) inflight_set_worker [of i s pc] by (simp add: acct_def)
next
  case (take_msg m q)
  then have "pc_msgs (w_pc (workers s ! i)) = []" by auto
  then show ?thesis
    using take_msg assms(2) inflight_set_worker [of i "s\<lparr>queue := q, busy_count := busy_count s + 1\<rparr>" "W_got (Some m)"]
      inflight_pcs [of "s\<lparr>queue := q, busy_count := busy_count s + 1\<rparr>" s]
    by (simp add: acct_def)
next
  case (begin_msg m)
  then show ?thesis
    using assms(2) inflight_set_worker [of i s "W_handle m"] by (simp add: acct_def)
next
  case (drop_msg m)
  then show ?thesis
    using assms(2) inflight_set_worker [of i "s\<lparr>dropped := m # dropped s\<rparr>" W_loop]
      inflight_pcs [of "s\<lparr>dropped := m # dropped s\<rparr>" s]
    by (simp add: acct_def)
next
  case (finish_msg m)
  let ?s = "s\<lparr>busy_count := busy_count s - 1, handled := handled s @ [m]\<rparr>"
  show ?thesis
    using finish_msg assms(2) inflight_set_worker [of i ?s "W_after (busy_count s - 1)"] inflight_pcs [of ?s s]
    by (auto simp: acct_def)
next
  case (abort m)
  then show ?thesis
    using assms(2) by (simp add: acct_def inflight_def)
next
  case (after n)
  let ?s = "if queue s = [] \<and> n = 0 then notify_queue_cv_empty s else s"
  show ?thesis
    using after assms(2) inflight_set_worker [of i ?s W_loop] inflight_pcs [of ?s s]
    by (auto simp: acct_def split: if_splits)
qed

lemma acct_others:
  "sender_step i s = Some s' \<Longrightarrow> acct s \<Longrightarrow> acct s'"
  "waiter_step i s = Some s' \<Longrightarrow> acct s \<Longrightarrow> acct s'"
  "destructor_step i s = Some s' \<Longrightarrow> acct s \<Longrightarrow> acct s'"
  by (auto simp: sender_step_def send_locked_def waiter_step_def destructor_step_def acct_def inflight_def
      split: if_splits sender.splits waiter.splits destructor.splits)

lemma acct_reachable: "mm_reachable s \<Longrightarrow> acct s"
proof (induction rule: mm_reachable.induct)
  case init
  then show ?case by (simp add: acct_def mq_empty_def inflight_def pcs_def)
next
  case (step s l s')
  have grow: "acct (s\<lparr>senders := a\<rparr>)" "acct (s\<lparr>waiters := b\<rparr>)" "acct (s\<lparr>destructors := c\<rparr>)"
    "acct (s\<lparr>workers := workers s @ [\<lparr>w_pc = W_loop, w_running = True, w_order = d\<rparr>]\<rparr>)" for a b c d
    using step.IH by (simp_all add: acct_def inflight_def) (simp_all add: pcs_def)
  show ?case
    using step grow by (cases l) (auto simp: mm_next_def split: if_splits intro: acct_worker acct_others)
qed

section \<open>No lost wakeup of workers and waiters\<close>

text \<open>A worker sleeps only while there is nothing to do, or a notification is on its way; the
  same for the waiters of \<open>wait_until_empty\<close>.\<close>

definition notifying :: "'m mq \<Rightarrow> bool" where
  "notifying s \<longleftrightarrow> (\<exists>m. S_notify m \<in> set (senders s))"

definition wakeups :: "'m mq \<Rightarrow> bool" where
  "wakeups s \<longleftrightarrow>
     (queue s \<noteq> [] \<and> W_wait False \<in> set (pcs s) \<longrightarrow> notifying s) \<and>
     (queue s = [] \<and> busy_count s = 0 \<and> E_wait False \<in> set (waiters s) \<longrightarrow> W_after 0 \<in> set (pcs s))"

lemma not_waiting_notify [simp]: "E_wait False \<notin> wake_waiter ` set es"
  by auto

lemma not_asleep_notify [simp]: "W_wait False \<notin> wake_worker_pc ` set ps"
  by auto

lemma after_notify [simp]: "W_after n \<in> wake_worker_pc ` set ps \<longleftrightarrow> W_after n \<in> set ps"
proof
  assume "W_after n \<in> set ps"
  then show "W_after n \<in> wake_worker_pc ` set ps"
    by (metis imageI wake_worker_pc.simps(6))
qed (auto simp: eq_commute [of "W_after n"])

lemma notifying_cong [simp]:
  "notifying (s\<lparr>queue := q\<rparr>) = notifying s" "notifying (s\<lparr>busy_count := n\<rparr>) = notifying s"
  "notifying (s\<lparr>waiters := es\<rparr>) = notifying s" "notifying (s\<lparr>workers := ws\<rparr>) = notifying s"
  "notifying (s\<lparr>destructors := ds\<rparr>) = notifying s" "notifying (s\<lparr>terminated := b\<rparr>) = notifying s"
  "notifying (s\<lparr>sent := ms\<rparr>) = notifying s" "notifying (s\<lparr>handled := ms\<rparr>) = notifying s"
  "notifying (s\<lparr>dropped := ms\<rparr>) = notifying s" "notifying (notify_queue_cv_empty s) = notifying s"
  "notifying (set_worker i pc s) = notifying s" "notifying (stop_worker i s) = notifying s"
  "notifying (set_waiter i e s) = notifying s"
  by (simp_all add: notifying_def)

lemma notifying_set_sender:
  "i < length (senders s) \<Longrightarrow> notifying (set_sender i (S_notify m) s)"
  "notifying s \<Longrightarrow> (\<And>m. senders s ! i \<noteq> S_notify m) \<Longrightarrow> notifying (set_sender i t s)"
  by (auto simp: notifying_def set_sender_def intro: set_update_memI mem_update_other)

lemma asleep_update: "W_wait False \<in> set (ps[i := pc]) \<Longrightarrow> pc = W_wait False \<or> W_wait False \<in> set ps"
  by (auto dest!: set_update_subset_insert [THEN subsetD])

lemma wakeups_worker:
  assumes "worker_step th ex rnd i s = Some s'" and "wakeups s"
  shows "wakeups s'"
  using assms(1)
proof (cases rule: worker_step_cases)
  case (move pc)
  moreover have "pcs s ! i \<noteq> W_after 0" and "pc = W_wait False \<longrightarrow> queue s = []"
    using move(1,3) by (auto split: if_splits)
  ultimately show ?thesis
    using assms(2) by (auto simp: wakeups_def dest!: asleep_update intro: mem_update_other)
next
  case (take_msg m q)
  then have "queue s \<noteq> []" by auto
  then show ?thesis
    using take_msg(6) assms(2) by (auto simp: wakeups_def dest!: asleep_update)
next
  case (begin_msg m)
  then have "pcs s ! i \<noteq> W_after 0" by simp
  then show ?thesis
    using begin_msg(4) assms(2) by (auto simp: wakeups_def dest!: asleep_update intro: mem_update_other)
next
  case (drop_msg m)
  then have "pcs s ! i \<noteq> W_after 0" by simp
  then show ?thesis
    using drop_msg(4) assms(2) by (auto simp: wakeups_def dest!: asleep_update intro: mem_update_other)
next
  case (finish_msg m)
  then show ?thesis
    using assms(2) by (auto simp: wakeups_def dest!: asleep_update intro: set_update_memI)
next
  case (abort m)
  then show ?thesis
    using assms(2) by (simp add: wakeups_def)
next
  case (after n)
  then show ?thesis
    using assms(2) by (cases "queue s = [] \<and> n = 0") (auto simp: wakeups_def dest!: asleep_update intro!: mem_update_other)
qed

lemma wakeups_sender: "sender_step i s = Some s' \<Longrightarrow> wakeups s \<Longrightarrow> wakeups s'"
  by (auto simp: sender_step_def send_locked_def wakeups_def split: if_splits sender.splits
      intro!: notifying_set_sender)

lemma wakeups_waiter: "waiter_step i s = Some s' \<Longrightarrow> wakeups s \<Longrightarrow> wakeups s'"
  by (auto simp: waiter_step_def wakeups_def set_waiter_def split: if_splits waiter.splits
      dest!: set_update_subset_insert [THEN subsetD])

lemma wakeups_destructor: "destructor_step i s = Some s' \<Longrightarrow> wakeups s \<Longrightarrow> wakeups s'"
  by (auto simp: destructor_step_def wakeups_def split: if_splits destructor.splits)

lemma wakeups_reachable: "mm_reachable s \<Longrightarrow> wakeups s"
proof (induction rule: mm_reachable.induct)
  case init
  then show ?case by (simp add: wakeups_def mq_empty_def pcs_def)
next
  case (step s l s')
  have grow: "wakeups (s\<lparr>senders := senders s @ [S_enter m n]\<rparr>)" "wakeups (s\<lparr>waiters := waiters s @ [E_enter]\<rparr>)"
    "wakeups (s\<lparr>destructors := ds\<rparr>)"
    "wakeups (s\<lparr>workers := workers s @ [\<lparr>w_pc = W_loop, w_running = True, w_order = d\<rparr>]\<rparr>)" for m n ds d
    using step.IH by (simp_all add: wakeups_def) (auto simp: notifying_def pcs_def)
  show ?case
    using step grow
    by (cases l)
      (auto simp: mm_next_def split: if_splits
        intro: wakeups_worker wakeups_sender wakeups_waiter wakeups_destructor)
qed

section \<open>Only a stopped worker leaves its loop\<close>

definition stopped_ok :: "'m mq \<Rightarrow> bool" where
  "stopped_ok s \<longleftrightarrow> (\<forall>w\<in>set (workers s). w_pc w \<in> {W_got None, W_exit, W_done} \<longrightarrow> \<not> w_running w)"

lemma stopped_set_worker:
  assumes "stopped_ok s" and "i < length (workers s)"
    and "pc \<in> {W_got None, W_exit, W_done} \<longrightarrow> \<not> w_running (workers s ! i)"
  shows "stopped_ok (set_worker i pc s)"
  using assms unfolding stopped_ok_def
  by (auto simp: set_worker_def dest!: set_update_subset_insert [THEN subsetD])

lemma stopped_workers: "workers s' = workers s \<Longrightarrow> stopped_ok s' = stopped_ok s"
  by (simp add: stopped_ok_def)

lemma stopped_worker:
  assumes "worker_step th ex rnd i s = Some s'" and "stopped_ok s"
  shows "stopped_ok s'"
  using assms(1)
proof (cases rule: worker_step_cases)
  case (move pc)
  have "w_pc (workers s ! i) = W_exit \<longrightarrow> \<not> w_running (workers s ! i)"
    using assms(2) move(1) by (simp add: stopped_ok_def)
  then show ?thesis
    using move assms(2) by (auto intro!: stopped_set_worker split: if_splits)
qed (use assms(2) in \<open>auto intro!: stopped_set_worker simp: stopped_workers [of "_\<lparr>terminated := _\<rparr>"]
    stopped_workers [of "_\<lparr>queue := _, busy_count := _\<rparr>"] stopped_workers [of "_\<lparr>busy_count := _, handled := _\<rparr>"]
    stopped_workers [of "_\<lparr>dropped := _\<rparr>"] stopped_workers [of "notify_queue_cv_empty _"]\<close>)

lemma stopped_notify: "stopped_ok s \<Longrightarrow> stopped_ok (notify_queue_cv s)"
proof -
  have "wake_worker_pc pc \<in> {W_got None, W_exit, W_done} \<longleftrightarrow> pc \<in> {W_got None, W_exit, W_done}" for pc :: "'a worker_pc"
    by (cases pc) auto
  moreover assume "stopped_ok s"
  ultimately show ?thesis
    unfolding stopped_ok_def notify_queue_cv_def by auto
qed

lemma stopped_others:
  "sender_step i s = Some s' \<Longrightarrow> stopped_ok s \<Longrightarrow> stopped_ok s'"
  "waiter_step i s = Some s' \<Longrightarrow> stopped_ok s \<Longrightarrow> stopped_ok s'"
  "destructor_step i s = Some s' \<Longrightarrow> stopped_ok s \<Longrightarrow> stopped_ok s'"
proof -
  assume "sender_step i s = Some s'" and "stopped_ok s"
  then show "stopped_ok s'"
    using stopped_notify [of s]
    by (auto simp: sender_step_def send_locked_def stopped_ok_def split: if_splits sender.splits)
next
  assume "waiter_step i s = Some s'" and "stopped_ok s"
  then show "stopped_ok s'"
    by (auto simp: waiter_step_def stopped_ok_def split: if_splits waiter.splits)
next
  assume "destructor_step i s = Some s'" and "stopped_ok s"
  then show "stopped_ok s'"
    using stopped_notify [of s]
    by (auto simp: destructor_step_def stopped_ok_def stop_worker_def split: if_splits destructor.splits
        dest!: set_update_subset_insert [THEN subsetD])
qed

lemma stopped_reachable: "mm_reachable s \<Longrightarrow> stopped_ok s"
proof (induction rule: mm_reachable.induct)
  case init
  then show ?case by (simp add: stopped_ok_def mq_empty_def)
next
  case (step s l s')
  then show ?case
    by (cases l) (auto simp: mm_next_def stopped_ok_def [of "_\<lparr>senders := _\<rparr>"] stopped_ok_def [of "_\<lparr>waiters := _\<rparr>"]
        stopped_ok_def [of "_\<lparr>destructors := _\<rparr>"] stopped_ok_def [of "_\<lparr>workers := _\<rparr>"] stopped_ok_def [of s]
        split: if_splits intro: stopped_worker stopped_others)
qed

section \<open>Order\<close>

text \<open>With one FIFO handler, messages are handled in the order in which they were sent.\<close>

definition fifo_ok :: "'m mq \<Rightarrow> bool" where
  "fifo_ok s \<longleftrightarrow>
     (length (workers s) \<le> 1 \<and> (\<forall>w\<in>set (workers s). w_order w = FIFO) \<longrightarrow>
        sent s = handled s @ dropped s @ inflight s @ queue s \<and>
        (dropped s \<noteq> [] \<longrightarrow> inflight s = [] \<and> workers s \<noteq> [] \<and> \<not> w_running (hd (workers s))))"

lemma single_worker:
  assumes "length (workers s) \<le> 1" and "i < length (workers s)"
  obtains w where "workers s = [w]" and "i = 0"
  using assms by (cases "workers s") auto

lemma fifo_worker:
  assumes "worker_step th ex rnd i s = Some s'" and "fifo_ok s"
  shows "fifo_ok s'"
proof (unfold fifo_ok_def, intro impI)
  assume one: "length (workers s') \<le> 1 \<and> (\<forall>w\<in>set (workers s'). w_order w = FIFO)"
  have i: "i < length (workers s)"
    using assms(1) by (auto simp: worker_step_def split: if_splits)
  have len: "length (workers s) \<le> 1"
    using assms(1) one by (cases rule: worker_step_cases) (auto split: if_splits)
  obtain w where w: "workers s = [w]" "i = 0"
    by (rule single_worker [OF len i])
  have fifo: "w_order w = FIFO"
    using assms(1) one w by (cases rule: worker_step_cases) (auto simp: set_worker_def split: if_splits)
  then have inv: "sent s = handled s @ dropped s @ inflight s @ queue s" "dropped s \<noteq> [] \<longrightarrow> inflight s = [] \<and> \<not> w_running w"
    using assms(2) w by (auto simp: fifo_ok_def)
  have fl: "inflight s = pc_msgs (w_pc w)"
    using w by (simp add: inflight_def pcs_def)
  from assms(1) show "sent s' = handled s' @ dropped s' @ inflight s' @ queue s' \<and>
      (dropped s' \<noteq> [] \<longrightarrow> inflight s' = [] \<and> workers s' \<noteq> [] \<and> \<not> w_running (hd (workers s')))"
  proof (cases rule: worker_step_cases)
    case (move pc)
    then have "pc_msgs pc = pc_msgs (w_pc w)"
      using w by (auto split: if_splits)
    then show ?thesis
      using move(2) inv fl w by (auto simp: set_worker_def inflight_def pcs_def)
  next
    case (take_msg m q)
    then have "queue s = m # q" and "inflight s = []" and "dropped s = []"
      using w fifo fl inv(2) by (auto simp: get_message_def split: if_splits)
    then show ?thesis
      using take_msg(6) inv w by (auto simp: set_worker_def inflight_def pcs_def)
  next
    case (begin_msg m)
    then show ?thesis
      using inv fl w by (auto simp: set_worker_def inflight_def pcs_def)
  next
    case (drop_msg m)
    then have "inflight s = [m]" and "dropped s = []"
      using inv(2) fl w by auto
    with drop_msg inv w show ?thesis by (auto simp: set_worker_def inflight_def pcs_def)
  next
    case (finish_msg m)
    then have "inflight s = [m]" and "dropped s = []"
      using inv(2) fl w by auto
    with finish_msg(3) inv w show ?thesis by (auto simp: set_worker_def inflight_def pcs_def)
  next
    case (abort m)
    then show ?thesis
      using inv w by (auto simp: inflight_def)
  next
    case (after n)
    then show ?thesis
      using inv fl w by (auto simp: set_worker_def inflight_def pcs_def notify_queue_cv_empty_def)
  qed
qed

lemma fifo_notify: "fifo_ok (notify_queue_cv s) = fifo_ok s"
  by (cases "workers s") (simp_all add: fifo_ok_def inflight_def pcs_def notify_queue_cv_def comp_def)

lemma fifo_others:
  "sender_step i s = Some s' \<Longrightarrow> fifo_ok s \<Longrightarrow> fifo_ok s'"
  "waiter_step i s = Some s' \<Longrightarrow> fifo_ok s \<Longrightarrow> fifo_ok s'"
  "destructor_step i s = Some s' \<Longrightarrow> fifo_ok s \<Longrightarrow> fifo_ok s'"
proof -
  assume step: "sender_step i s = Some s'" and fifo: "fifo_ok s"
  have same: "fifo_ok (set_sender i t u) = fifo_ok u" for t and u :: "'a mq"
    by (simp add: fifo_ok_def inflight_def)
  have "fifo_ok (s\<lparr>queue := queue s @ [m], sent := sent s @ [m]\<rparr>)" for m
    using fifo by (simp add: fifo_ok_def inflight_def)
  with step fifo fifo_notify [of s] show "fifo_ok s'"
    by (auto simp: sender_step_def send_locked_def same split: if_splits sender.splits)
next
  assume "waiter_step i s = Some s'" and "fifo_ok s"
  then show "fifo_ok s'"
    by (auto simp: waiter_step_def fifo_ok_def inflight_def split: if_splits waiter.splits)
next
  assume step: "destructor_step i s = Some s'" and fifo: "fifo_ok s"
  have stop: "fifo_ok (stop_worker w s)" for w
    using fifo
    by (cases "workers s"; cases w) (auto simp: fifo_ok_def inflight_def stop_worker_def pcs_def)
  have "fifo_ok (t\<lparr>destructors := ds\<rparr>) = fifo_ok t" for t :: "'a mq" and ds
    by (simp add: fifo_ok_def inflight_def)
  with step fifo stop show "fifo_ok s'"
    by (auto simp: destructor_step_def fifo_notify split: if_splits destructor.splits)
qed

lemma fifo_reachable: "mm_reachable s \<Longrightarrow> fifo_ok s"
proof (induction rule: mm_reachable.induct)
  case init
  then show ?case by (simp add: fifo_ok_def mq_empty_def inflight_def pcs_def)
next
  case (step s l s')
  have grow: "fifo_ok (s\<lparr>senders := a\<rparr>)" "fifo_ok (s\<lparr>waiters := b\<rparr>)" "fifo_ok (s\<lparr>destructors := c\<rparr>)"
    "fifo_ok (s\<lparr>workers := workers s @ [\<lparr>w_pc = W_loop, w_running = True, w_order = d\<rparr>]\<rparr>)" for a b c d
    using step.IH by (auto simp: fifo_ok_def inflight_def) (auto simp: pcs_def)
  show ?case
    using step grow by (cases l) (auto simp: mm_next_def split: if_splits intro: fifo_worker fifo_others)
qed

section \<open>Runs\<close>

text \<open>A concrete run: one FIFO handler, two messages, the first handled and the second taken.\<close>

definition demo_labels :: "nat label list" where
  "demo_labels = [Add_Handler FIFO, Send_Message 1 0, Send_Message 2 0, Run_Sender 0, Run_Sender 1,
     Run_Worker False True 0 0, Run_Worker False True 0 0, Run_Worker False True 0 0, Run_Worker False True 0 0,
     Run_Worker False True 0 0, Run_Worker False True 0 0, Run_Worker False True 0 0]"

definition demo_mq :: "nat mq" where
  "demo_mq = the (mm_run demo_labels mq_empty)"

lemma demo_mq_eq:
  "demo_mq = \<lparr>queue = [], busy_count = 1, senders = [S_notify 1, S_notify 2],
     workers = [\<lparr>w_pc = W_got (Some 2), w_running = True, w_order = FIFO\<rparr>], waiters = [], destructors = [],
     terminated = False, sent = [1, 2], handled = [1], dropped = []\<rparr>"
  by code_simp

lemma demo_mq_reachable: "mm_reachable demo_mq"
proof -
  have "mm_run demo_labels mq_empty = Some demo_mq"
    unfolding demo_mq_eq by code_simp
  then show ?thesis
    by (rule mq_steps.run_start)
qed

section \<open>Properties\<close>

text \<open>No message is lost or duplicated. At every moment the messages sent are exactly those that wait in the queue,
  those that a worker has taken and not finished, those that were handled, and those that a worker took just before it was
  disposed and then dropped; and \<open>busy_count\<close> counts the third group together with the dropped ones.\<close>

lemma messages_conserved:
  assumes "mm_reachable s"
  shows "mset (sent s) = mset (queue s) + mset (inflight s) + mset (handled s) + mset (dropped s) \<and>
    busy_count s = length (inflight s) + length (dropped s)"
  using acct_reachable [OF assms] by (simp add: acct_def)

lemma messages_conserved_witness:
  "mset (sent demo_mq) = mset (queue demo_mq) + mset (inflight demo_mq) + mset (handled demo_mq) + mset (dropped demo_mq) \<and>
   busy_count demo_mq = 1"
  using messages_conserved [OF demo_mq_reachable] by (simp add: demo_mq_eq)

text \<open>C7. \<open>wait_until_empty\<close>. When a call returns, every message sent so far has been handled.\<close>

theorem wait_until_empty_complete:
  assumes "mm_reachable s" and "mm_next (Run_Waiter i) s = Some s'" and "waiters s' ! i = E_done"
  shows "queue s' = [] \<and> mset (handled s') = mset (sent s')"
proof -
  have "queue s' = queue s" "busy_count s' = busy_count s" "queue s = []" "busy_count s = 0"
    using assms(2,3) by (auto simp: mm_next_def waiter_step_def set_waiter_def split: if_splits waiter.splits)
  moreover have "acct s'"
    using assms(1,2) by (intro acct_reachable) (rule mm_reachable.step)
  ultimately show ?thesis
    by (simp add: acct_def)
qed

theorem wait_until_empty_complete_witness:
  "mset (handled (the (mm_run [Wait_Until_Empty, Run_Waiter 0] (mq_empty :: nat mq)))) = {#}"
proof -
  have "mm_reachable (mq_empty\<lparr>waiters := [E_enter]\<rparr> :: nat mq)"
    by (rule mm_reachable.step [OF mm_reachable.init, of Wait_Until_Empty]) (simp add: mm_next_def mq_empty_def)
  from wait_until_empty_complete [OF this, of 0 "mq_empty\<lparr>waiters := [E_done]\<rparr>"] show ?thesis
    by (simp add: mm_next_def waiter_step_def set_waiter_def mq_empty_def)
qed


definition asleep_labels :: "nat label list" where
  "asleep_labels = [Add_Handler FIFO, Run_Worker False True 0 0, Run_Worker False True 0 0, Send_Message 1 0, Run_Sender 0]"


text \<open>C9. Order. With a single handler in FIFO order, the handled messages are the first of the messages sent, in the
  order of sending; what follows are a dropped message, the one being handled, and the queue.\<close>

theorem fifo_order:
  assumes "mm_reachable s" and "workers s = [w]" and "w_order w = FIFO"
  shows "sent s = handled s @ dropped s @ inflight s @ queue s"
  using fifo_reachable [OF assms(1)] assms(2,3) by (simp add: fifo_ok_def)

theorem fifo_order_witness: "sent demo_mq = handled demo_mq @ dropped demo_mq @ inflight demo_mq @ queue demo_mq"
  using fifo_order [OF demo_mq_reachable, of "\<lparr>w_pc = W_got (Some 2), w_running = True, w_order = FIFO\<rparr>"]
  by (simp add: demo_mq_eq)



section \<open>Where the code falls short\<close>

text \<open>Taking a message out of the queue notifies nobody, so a sender that waits for room in a bounded queue is
  not woken when room appears.\<close>

definition stuck_labels :: "nat label list" where
  "stuck_labels = [Add_Handler FIFO, Send_Message 1 1, Send_Message 2 1, Run_Sender 0, Run_Sender 1,
     Run_Sender 0, Run_Sender 1,
     Run_Worker False True 0 0, Run_Worker False True 0 0, Run_Worker False True 0 0, Run_Worker False True 0 0,
     Run_Worker False True 0 0, Run_Worker False True 0 0, Run_Worker False True 0 0]"

definition stuck_mq :: "nat mq" where
  "stuck_mq = \<lparr>queue = [], busy_count = 0, senders = [S_done, S_wait False 2 1],
     workers = [\<lparr>w_pc = W_wait False, w_running = True, w_order = FIFO\<rparr>], waiters = [], destructors = [],
     terminated = False, sent = [1], handled = [1], dropped = []\<rparr>"



definition dropped_labels :: "nat label list" where
  "dropped_labels = [Add_Handler FIFO, Send_Message 1 0, Run_Sender 0,
     Run_Worker False True 0 0, Run_Worker False True 0 0, Dispose 0, Run_Destructor 0,
     Run_Worker False True 0 0, Wait_Until_Empty]"


end

