(* ===== verification/Circular_Buffer.thy ===== *)
theory Circular_Buffer
  imports Cbeam_Prelude
begin

text \<open>
  \<^verbatim>\<open>container/circular_buffer.hpp\<close>: a ring of fixed capacity \<open>S\<close> (the length of its array) with the
  position of the next write and a flag for having wrapped.

  The ring refines a list that keeps the last \<open>S\<close> elements pushed: \<open>cb_list\<close> is that list, oldest
  element first. The array starts with indeterminate elements. Capacity 0 makes \<open>push_back\<close>
  write past the array, which is an explicit failure.
\<close>

record 'a circular_buffer =
  cb_buffer :: "'a list"
  cb_i :: nat
  cb_full :: bool

definition cb_new :: "'a list \<Rightarrow> 'a circular_buffer" where
  "cb_new array = \<lparr>cb_buffer = array, cb_i = 0, cb_full = False\<rparr>"

definition cb_max_size :: "'a circular_buffer \<Rightarrow> nat" where
  "cb_max_size cb = length (cb_buffer cb)"

definition cb_size :: "'a circular_buffer \<Rightarrow> nat" where
  "cb_size cb = (if cb_full cb then cb_max_size cb else cb_i cb)"

text \<open>The elements from \<open>begin()\<close> to \<open>end()\<close>.\<close>

definition cb_range :: "'a circular_buffer \<Rightarrow> 'a list" where
  "cb_range cb = (if cb_full cb then cb_buffer cb else take (cb_i cb) (cb_buffer cb))"

definition cb_push_back :: "'a \<Rightarrow> 'a circular_buffer \<Rightarrow> 'a circular_buffer result" where
  "cb_push_back t cb =
     (if cb_i cb \<ge> cb_max_size cb then Inl (undefined_behaviour out_of_bounds)
      else (let b = (cb_buffer cb)[cb_i cb := t];
                i = (cb_i cb + 1) mod cb_max_size cb
            in Inr (cb\<lparr>cb_buffer := b, cb_i := i, cb_full := (i = 0 \<or> cb_full cb)\<rparr>)))"

definition cb_empty :: "'a circular_buffer \<Rightarrow> bool" where
  "cb_empty cb \<longleftrightarrow> \<not> cb_full cb \<and> cb_i cb = 0"

definition cb_clear :: "'a circular_buffer \<Rightarrow> 'a circular_buffer" where
  "cb_clear cb = cb\<lparr>cb_i := 0, cb_full := False\<rparr>"

definition cb_index :: "'a circular_buffer \<Rightarrow> nat \<Rightarrow> 'a result" where
  "cb_index cb pos =
     (if cb_max_size cb = 0 then Inl (undefined_behaviour division_by_zero)
      else Inr (cb_buffer cb ! ((pos + (if cb_full cb then cb_i cb else 0)) mod cb_max_size cb)))"

definition cb_at :: "'a circular_buffer \<Rightarrow> nat \<Rightarrow> 'a result" where
  "cb_at cb pos =
     (if pos \<ge> cb_size cb then Inl (out_of_range ''Position out of range'') else cb_index cb pos)"

definition cb_front :: "'a circular_buffer \<Rightarrow> 'a result" where
  "cb_front cb =
     (if cb_max_size cb = 0 then Inl (undefined_behaviour out_of_bounds)
      else Inr (cb_buffer cb ! (if cb_full cb then cb_i cb else 0)))"

definition cb_back :: "'a circular_buffer \<Rightarrow> 'a result" where
  "cb_back cb =
     (if cb_max_size cb = 0 then Inl (undefined_behaviour division_by_zero)
      else Inr (cb_buffer cb ! ((cb_i cb + cb_max_size cb - 1) mod cb_max_size cb)))"

section \<open>Refinement\<close>

definition cb_ok :: "'a circular_buffer \<Rightarrow> bool" where
  "cb_ok cb \<longleftrightarrow> cb_i cb < length (cb_buffer cb)"

definition cb_list :: "'a circular_buffer \<Rightarrow> 'a list" where
  "cb_list cb = (if cb_full cb then drop (cb_i cb) (cb_buffer cb) @ take (cb_i cb) (cb_buffer cb)
     else take (cb_i cb) (cb_buffer cb))"

text \<open>The last \<open>n\<close> elements of a list.\<close>

definition keep_last :: "nat \<Rightarrow> 'a list \<Rightarrow> 'a list" where
  "keep_last n xs = drop (length xs - n) xs"

fun cb_push_all :: "'a list \<Rightarrow> 'a circular_buffer \<Rightarrow> 'a circular_buffer result" where
  "cb_push_all [] cb = Inr cb"
| "cb_push_all (t # ts) cb = (case cb_push_back t cb of Inl e \<Rightarrow> Inl e | Inr cb' \<Rightarrow> cb_push_all ts cb')"

lemma cb_new_ok: "array \<noteq> [] \<Longrightarrow> cb_ok (cb_new array)" "cb_list (cb_new array) = []"
  by (simp_all add: cb_ok_def cb_new_def cb_list_def)

lemma length_cb_list: "cb_ok cb \<Longrightarrow> length (cb_list cb) = cb_size cb"
  by (simp add: cb_list_def cb_size_def cb_max_size_def cb_ok_def)

lemma keep_last_snoc: "length xs \<le> n \<Longrightarrow> 0 < n \<Longrightarrow> keep_last n (xs @ [x]) = (if length xs = n then tl xs else xs) @ [x]"
  by (auto simp: keep_last_def drop_Suc)

lemma keep_last_keep_last: "keep_last n (keep_last n xs @ ys) = keep_last n (xs @ ys)"
  by (cases "length xs \<le> n") (auto simp: keep_last_def add.commute)

lemma push_refines:
  assumes "cb_ok cb"
  shows "\<exists>cb'. cb_push_back t cb = Inr cb' \<and> cb_ok cb' \<and> cb_max_size cb' = cb_max_size cb \<and>
    cb_list cb' = keep_last (cb_max_size cb) (cb_list cb @ [t])"
proof -
  let ?b = "cb_buffer cb" and ?i = "cb_i cb" and ?n = "length (cb_buffer cb)"
  define cb' where "cb' = cb\<lparr>cb_buffer := ?b[?i := t], cb_i := (?i + 1) mod ?n, cb_full := ((?i + 1) mod ?n = 0 \<or> cb_full cb)\<rparr>"
  have i: "?i < ?n" using assms by (simp add: cb_ok_def)
  then have push: "cb_push_back t cb = Inr cb'"
    by (simp add: cb_push_back_def cb_max_size_def cb'_def Let_def)
  have "Suc ?i mod ?n < ?n" using i by (intro mod_less_divisor) linarith
  then have ok: "cb_ok cb'" "cb_max_size cb' = cb_max_size cb"
    by (simp_all add: cb_ok_def cb'_def cb_max_size_def)
  have len: "length (cb_list cb) \<le> ?n" "length (cb_list cb) = ?n \<longleftrightarrow> cb_full cb"
    using i by (auto simp: cb_list_def)
  have drop: "drop ?i ?b = ?b ! ?i # drop (Suc ?i) ?b"
    using i by (simp add: Cons_nth_drop_Suc)
  have "cb_list cb' = (if cb_full cb then tl (cb_list cb) else cb_list cb) @ [t]"
  proof (cases "Suc ?i = ?n")
    case True
    then have "cb_list cb' = ?b[?i := t]"
      by (simp add: cb_list_def cb'_def)
    also have "\<dots> = take ?i ?b @ [t]"
      using True i by (simp add: upd_conv_take_nth_drop)
    finally show ?thesis
      using True drop by (simp add: cb_list_def)
  next
    case False
    then have "cb_i cb' = Suc ?i" and full: "cb_full cb' = cb_full cb"
      using i by (auto simp: cb'_def)
    then show ?thesis
      using i drop by (auto simp: cb_list_def cb'_def take_Suc_conv_app_nth)
  qed
  then have "cb_list cb' = keep_last (cb_max_size cb) (cb_list cb @ [t])"
    using len i by (subst keep_last_snoc) (auto simp: cb_max_size_def)
  with push ok show ?thesis by blast
qed

lemma push_all_refines:
  assumes "cb_ok cb"
  shows "\<exists>cb'. cb_push_all ts cb = Inr cb' \<and> cb_ok cb' \<and> cb_max_size cb' = cb_max_size cb \<and>
    cb_list cb' = keep_last (cb_max_size cb) (cb_list cb @ ts)"
  using assms
proof (induction ts arbitrary: cb)
  case Nil
  then show ?case
    by (simp add: keep_last_def length_cb_list cb_size_def cb_max_size_def cb_ok_def)
next
  case (Cons t ts)
  obtain cb1 where cb1: "cb_push_back t cb = Inr cb1" "cb_ok cb1" "cb_max_size cb1 = cb_max_size cb"
    "cb_list cb1 = keep_last (cb_max_size cb) (cb_list cb @ [t])"
    using push_refines [OF Cons.prems] by blast
  with Cons.IH [OF cb1(2)] show ?case
    by (auto simp: keep_last_keep_last)
qed

lemma index_refines:
  assumes "cb_ok cb" and "pos < cb_size cb"
  shows "cb_index cb pos = Inr (cb_list cb ! pos)"
proof (cases "cb_full cb")
  case True
  let ?n = "length (cb_buffer cb)"
  have pos: "pos < ?n" and i: "cb_i cb < ?n"
    using assms True by (simp_all add: cb_size_def cb_max_size_def cb_ok_def)
  show ?thesis
  proof (cases "pos + cb_i cb < ?n")
    case False
    then have "(pos + cb_i cb) mod ?n = pos + cb_i cb - ?n"
      using pos i by (simp add: mod_if)
    with True False pos i show ?thesis
      by (auto simp: cb_index_def cb_list_def cb_max_size_def nth_append)
  qed (use True pos i in \<open>auto simp: cb_index_def cb_list_def cb_max_size_def nth_append add.commute\<close>)
next
  case False
  with assms show ?thesis
    by (auto simp: cb_index_def cb_list_def cb_size_def cb_max_size_def cb_ok_def)
qed

section \<open>Properties\<close>

text \<open>C12. The ring keeps the last elements. After any sequence of \<open>push_back\<close> calls on a new ring of capacity \<open>S > 0\<close>, none of
  which fails, \<open>at(pos)\<close> returns for every \<open>pos < size()\<close> the element at \<open>pos\<close> of the last \<open>S\<close> elements pushed, oldest first, and
  throws \<open>out_of_range\<close> for every other \<open>pos\<close>.\<close>

theorem circular_buffer_keeps_last:
  assumes "array \<noteq> []"
  shows "\<exists>cb. cb_push_all ts (cb_new array) = Inr cb \<and> cb_size cb = min (length ts) (length array) \<and>
    (\<forall>pos. cb_at cb pos = (if pos < cb_size cb then Inr (keep_last (length array) ts ! pos)
      else Inl (out_of_range ''Position out of range'')))"
proof -
  obtain cb where cb: "cb_push_all ts (cb_new array) = Inr cb" "cb_ok cb"
    "cb_list cb = keep_last (length array) ts"
    using push_all_refines [OF cb_new_ok(1) [OF assms], of ts]
    by (auto simp: cb_new_ok(2) cb_max_size_def) (auto simp: cb_new_def)
  moreover have "cb_size cb = min (length ts) (length array)"
    using length_cb_list [OF cb(2)] cb(3) by (simp add: keep_last_def)
  ultimately show ?thesis
    using index_refines [OF cb(2)] by (auto simp: cb_at_def)
qed

theorem circular_buffer_keeps_last_witness:
  "\<exists>cb. cb_push_all [1, 2, 3, 4] (cb_new [0, 0, 0 :: nat]) = Inr cb \<and> cb_at cb 0 = Inr 2"
  using circular_buffer_keeps_last [of "[0, 0, 0 :: nat]" "[1, 2, 3, 4]"] by (auto simp: keep_last_def)

text \<open>\<open>front()\<close> and \<open>back()\<close> of a ring that is not empty are the oldest and the newest element.\<close>

lemma circular_buffer_front_back:
  assumes "cb_ok cb" and "\<not> cb_empty cb"
  shows "cb_front cb = Inr (hd (cb_list cb)) \<and> cb_back cb = Inr (last (cb_list cb))"
proof -
  let ?n = "length (cb_buffer cb)"
  have i: "cb_i cb < ?n" using assms(1) by (simp add: cb_ok_def)
  have "cb_front cb = Inr (hd (cb_list cb))"
    using assms i by (auto simp: cb_front_def cb_list_def cb_max_size_def cb_empty_def hd_drop_conv_nth hd_take hd_conv_nth hd_append)
  moreover have "cb_back cb = Inr (last (cb_list cb))"
  proof (cases "cb_i cb = 0")
    case True
    with assms i show ?thesis
      by (auto simp: cb_back_def cb_list_def cb_max_size_def cb_empty_def last_conv_nth)
  next
    case False
    then have "(cb_i cb + ?n - 1) mod ?n = cb_i cb - 1"
      using i by (simp add: mod_if)
    moreover have "last (cb_list cb) = cb_buffer cb ! (cb_i cb - 1)"
      using False i by (auto simp: cb_list_def last_append last_conv_nth)
    ultimately show ?thesis
      using i by (auto simp: cb_back_def cb_max_size_def)
  qed
  ultimately show ?thesis by blast
qed

lemma circular_buffer_front_back_witness:
  "cb_front \<lparr>cb_buffer = [4, 2, 3 :: nat], cb_i = 1, cb_full = True\<rparr> = Inr 2 \<and>
   cb_back \<lparr>cb_buffer = [4, 2, 3 :: nat], cb_i = 1, cb_full = True\<rparr> = Inr 4"
  using circular_buffer_front_back [of "\<lparr>cb_buffer = [4, 2, 3 :: nat], cb_i = 1, cb_full = True\<rparr>"]
  by (simp add: cb_ok_def cb_empty_def cb_list_def)

text \<open>Iteration order. The elements between \<open>begin()\<close> and \<open>end()\<close> are the elements of the ring in the order of the array: rotating
  them by the write position gives the order of \<open>at()\<close>. So once the ring has wrapped, a loop over the ring starts with the oldest
  element only if the write position is 0.\<close>

lemma circular_buffer_iteration:
  assumes "cb_ok cb"
  shows "cb_list cb = (if cb_full cb then rotate (cb_i cb) (cb_range cb) else cb_range cb)"
  using assms by (auto simp: cb_list_def cb_range_def cb_ok_def rotate_drop_take)

lemma circular_buffer_iteration_witness:
  "cb_list \<lparr>cb_buffer = [4, 2, 3 :: nat], cb_i = 1, cb_full = True\<rparr> = [2, 3, 4] \<and>
   cb_range \<lparr>cb_buffer = [4, 2, 3 :: nat], cb_i = 1, cb_full = True\<rparr> = [4, 2, 3]"
  using circular_buffer_iteration [of "\<lparr>cb_buffer = [4, 2, 3 :: nat], cb_i = 1, cb_full = True\<rparr>"]
  by (simp add: cb_ok_def cb_range_def)

end
