(* ===== verification/Item_Registry.thy ===== *)
theory Item_Registry
  imports Cbeam_Prelude
begin

text \<open>
  \<^verbatim>\<open>lifecycle/item_registry.hpp\<close>: hands out numbers and takes them back. \<open>_available_numbers\<close>, a
  \<open>std::set\<close>, is the ascending list of its elements. A method runs under the mutex of the registry; the
  check of \<open>deregister_item\<close> before it reads a constant.

  \<open>reg_run\<close> is a client that registers and deregisters; it keeps the numbers it holds.
\<close>

record item_registry =
  max_number_of_items :: nat
  next_item_number :: nat
  available_numbers :: "nat list"

definition reg_new :: "nat \<Rightarrow> item_registry" where
  "reg_new n = \<lparr>max_number_of_items = n, next_item_number = 0, available_numbers = [0..<n]\<rparr>"

definition register_item :: "item_registry \<Rightarrow> nat result \<times> item_registry" where
  "register_item r =
     (if max_number_of_items r > 0 then
        (case available_numbers r of
           item_number # rest \<Rightarrow> (Inr item_number, r\<lparr>available_numbers := rest\<rparr>)
         | [] \<Rightarrow> (Inl (overflow_error ''cbeam::lifecycle::item_registry::register_item: No more item slots available. increase the maximum number of items to register more.''), r))
      else
        (case available_numbers r of
           item_number # rest \<Rightarrow> (Inr item_number, r\<lparr>available_numbers := rest\<rparr>)
         | [] \<Rightarrow>
             if next_item_number r = size_limit - 1
             then (Inl (overflow_error ''cbeam::lifecycle::item_registry::register_item: Maximum item count reached.''), r)
             else (Inr (next_item_number r), r\<lparr>next_item_number := next_item_number r + 1\<rparr>)))"

definition deregister_item :: "nat \<Rightarrow> item_registry \<Rightarrow> unit result \<times> item_registry" where
  "deregister_item item_number r =
     (if max_number_of_items r \<noteq> 0 \<and> item_number \<ge> max_number_of_items r
      then (Inl (runtime_error ''cbeam::lifecycle::item_registry::deregister_item: Invalid item number for deregistration.''), r)
      else if item_number \<in> set (available_numbers r)
      then (Inl (runtime_error ''cbeam::lifecycle::item_registry::deregister_item: Item number already deregistered.''), r)
      else (Inr (), r\<lparr>available_numbers := insort item_number (available_numbers r)\<rparr>))"

section \<open>Unique numbers\<close>

text \<open>\<open>H\<close> are the numbers in use. Every number below the bound is either in use or available, never both.\<close>

definition reg_bound :: "item_registry \<Rightarrow> nat" where
  "reg_bound r = (if max_number_of_items r > 0 then max_number_of_items r else next_item_number r)"

definition reg_ok :: "item_registry \<Rightarrow> nat set \<Rightarrow> bool" where
  "reg_ok r H \<longleftrightarrow> sorted (available_numbers r) \<and> distinct (available_numbers r) \<and>
     next_item_number r < size_limit \<and> H \<inter> set (available_numbers r) = {} \<and>
     H \<union> set (available_numbers r) = {..<reg_bound r}"

lemma reg_new_ok: "reg_ok (reg_new n) {}"
  by (auto simp: reg_ok_def reg_new_def reg_bound_def)

lemma register_ok:
  assumes "reg_ok r H" and "register_item r = (res, r')"
  shows "(\<exists>k. res = Inr k \<and> k \<notin> H \<and> reg_ok r' (insert k H) \<and> (\<forall>j. j \<notin> H \<and> j < reg_bound r \<longrightarrow> k \<le> j)) \<or>
    (\<exists>msg. res = Inl (overflow_error msg) \<and> r' = r \<and> H = {..<reg_bound r} \<and>
      reg_bound r \<in> {max_number_of_items r, size_limit - 1})"
proof (cases "available_numbers r")
  case Nil
  show ?thesis
  proof (cases "max_number_of_items r > 0 \<or> next_item_number r = size_limit - 1")
    case True
    with Nil assms show ?thesis
      by (auto simp: register_item_def reg_ok_def reg_bound_def)
  next
    case False
    then have "res = Inr (next_item_number r)" and r': "r' = r\<lparr>next_item_number := next_item_number r + 1\<rparr>"
      using Nil assms(2) by (auto simp: register_item_def)
    moreover have "reg_ok r' (insert (next_item_number r) H)"
      using Nil assms(1) False by (auto simp: r' reg_ok_def reg_bound_def)
    moreover have "next_item_number r \<notin> H"
      using Nil assms(1) False by (auto simp: reg_ok_def reg_bound_def)
    moreover have "\<forall>j. \<not> (j \<notin> H \<and> j < reg_bound r)"
      using Nil assms(1) by (auto simp: reg_ok_def)
    ultimately show ?thesis by blast
  qed
next
  case (Cons k ks)
  then have "res = Inr k" and r': "r' = r\<lparr>available_numbers := ks\<rparr>"
    using assms(2) by (auto simp: register_item_def split: if_splits)
  moreover have "reg_ok r' (insert k H)" and "k \<notin> H"
    using Cons assms(1) by (auto simp: r' reg_ok_def reg_bound_def)
  moreover have "\<forall>j. j \<notin> H \<and> j < reg_bound r \<longrightarrow> k \<le> j"
    using Cons assms(1) by (auto simp: reg_ok_def)
  ultimately show ?thesis by blast
qed

lemma deregister_ok:
  assumes "reg_ok r H" and "k \<in> H"
  shows "\<exists>r'. deregister_item k r = (Inr (), r') \<and> reg_ok r' (H - {k}) \<and> reg_bound r' = reg_bound r"
proof -
  have "k < reg_bound r" and "k \<notin> set (available_numbers r)"
    using assms by (auto simp: reg_ok_def)
  then have "deregister_item k r = (Inr (), r\<lparr>available_numbers := insort k (available_numbers r)\<rparr>)"
    by (auto simp: deregister_item_def reg_bound_def)
  moreover have "reg_ok (r\<lparr>available_numbers := insort k (available_numbers r)\<rparr>) (H - {k})"
  proof -
    have "(H - {k}) \<union> insert k (set (available_numbers r)) = H \<union> set (available_numbers r)"
      using assms(2) by blast
    moreover have "(H - {k}) \<inter> insert k (set (available_numbers r)) = {}"
      using assms(1) unfolding reg_ok_def by blast
    ultimately show ?thesis
      using assms(1) \<open>k \<notin> set (available_numbers r)\<close>
      by (simp add: reg_ok_def reg_bound_def sorted_insort distinct_insort set_insort_key)
  qed
  moreover have "reg_bound (r\<lparr>available_numbers := insort k (available_numbers r)\<rparr>) = reg_bound r"
    by (simp add: reg_bound_def)
  ultimately show ?thesis by blast
qed

lemma deregister_rejects:
  assumes "reg_ok r H" and "k \<notin> H" and "max_number_of_items r > 0 \<or> k < next_item_number r"
  shows "\<exists>msg. deregister_item k r = (Inl (runtime_error msg), r)"
  using assms by (auto simp: deregister_item_def reg_ok_def reg_bound_def)

section \<open>A client\<close>

datatype reg_op = Register | Deregister nat

text \<open>The client deregisters only numbers that it holds.\<close>

fun reg_run :: "reg_op list \<Rightarrow> item_registry \<times> nat list \<Rightarrow> item_registry \<times> nat list" where
  "reg_run [] s = s"
| "reg_run (Register # ops) (r, held) =
     (case register_item r of
        (Inl e, r') \<Rightarrow> reg_run ops (r', held)
      | (Inr k, r') \<Rightarrow> reg_run ops (r', k # held))"
| "reg_run (Deregister k # ops) (r, held) =
     (if k \<in> set held then
        (case deregister_item k r of
           (Inl e, r') \<Rightarrow> reg_run ops (r', held)
         | (Inr _, r') \<Rightarrow> reg_run ops (r', removeAll k held))
      else reg_run ops (r, held))"

lemma reg_run_ok:
  assumes "reg_ok r (set held)" and "distinct held" and "reg_run ops (r, held) = (r', held')"
  shows "reg_ok r' (set held') \<and> distinct held' \<and> max_number_of_items r' = max_number_of_items r"
  using assms
proof (induction ops arbitrary: r held)
  case Nil
  then show ?case by simp
next
  case (Cons op ops)
  show ?case
  proof (cases op)
    case Register
    obtain res r1 where r1: "register_item r = (res, r1)" by force
    have max1: "max_number_of_items r1 = max_number_of_items r"
      using r1 by (auto simp: register_item_def split: if_splits list.splits)
    from register_ok [OF Cons.prems(1) r1] show ?thesis
    proof (elim disjE exE conjE)
      fix k
      assume "res = Inr k" "k \<notin> set held" "reg_ok r1 (insert k (set held))"
      with Cons.IH [of r1 "k # held"] Cons.prems Register r1 max1 show ?thesis by simp
    next
      fix msg
      assume "res = Inl (overflow_error msg)" "r1 = r"
      with Cons.IH [of r held] Cons.prems Register r1 show ?thesis by simp
    qed
  next
    case (Deregister k)
    show ?thesis
    proof (cases "k \<in> set held")
      case True
      then obtain r1 where r1: "deregister_item k r = (Inr (), r1)" "reg_ok r1 (set held - {k})"
        using deregister_ok [OF Cons.prems(1)] by blast
      have "max_number_of_items r1 = max_number_of_items r"
        using r1(1) by (auto simp: deregister_item_def split: if_splits)
      with Cons.IH [of r1 "removeAll k held"] Cons.prems Deregister r1 True show ?thesis
        by (simp add: distinct_removeAll)
    next
      case False
      with Cons.IH [of r held] Cons.prems Deregister show ?thesis by simp
    qed
  qed
qed

section \<open>Properties\<close>



text \<open>C27. Limit. In limited mode \<open>register_item\<close> throws \<open>overflow_error\<close> exactly when all \<open>n\<close> numbers are in use, and otherwise
  returns the smallest number that is not in use.\<close>

theorem register_item_limit:
  assumes "reg_ok r H" and "max_number_of_items r = n" and "n > 0" and "register_item r = (res, r')"
  shows "if H = {..<n} then \<exists>msg. res = Inl (overflow_error msg) \<and> r' = r
    else res = Inr (LEAST k. k \<notin> H)"
proof -
  have bound: "reg_bound r = n" using assms(2,3) by (simp add: reg_bound_def)
  have sub: "H \<subseteq> {..<n}" using assms(1) bound by (auto simp: reg_ok_def)
  from register_ok [OF assms(1,4)] show ?thesis
  proof (elim disjE exE conjE)
    fix k
    assume k: "res = Inr k" "k \<notin> H" "\<forall>j. j \<notin> H \<and> j < reg_bound r \<longrightarrow> k \<le> j" "reg_ok r' (insert k H)"
    have "k < n"
      using k(4) assms(2-4) by (auto simp: reg_ok_def reg_bound_def register_item_def split: list.splits)
    then have "H \<noteq> {..<n}" using k(2) by auto
    moreover have "(LEAST k. k \<notin> H) = k"
    proof (rule Least_equality)
      show "k \<le> y" if "y \<notin> H" for y
        using k(3) bound \<open>k < n\<close> that by (cases "y < n") auto
    qed (rule k(2))
    ultimately show ?thesis using k(1) by simp
  next
    fix msg
    assume "res = Inl (overflow_error msg)" "r' = r" "H = {..<reg_bound r}"
    with bound show ?thesis by simp
  qed
qed

theorem register_item_limit_witness: "fst (register_item (reg_new 3)) = Inr (LEAST k. k \<notin> {})"
proof -
  have "0 \<in> {..<3 :: nat}" by simp
  then have "({} :: nat set) \<noteq> {..<3}" by blast
  then show ?thesis
    using register_item_limit [OF reg_new_ok [of 3], of 3] by (simp add: reg_new_def prod_eq_iff)
qed

text \<open>A number that was never handed out. In unlimited mode \<open>deregister_item\<close> accepts a number that was never registered, and
  from then on two items can get the same number.\<close>

lemma unlimited_registry_duplicates:
  "fst (deregister_item 0 (reg_new 0)) = Inr () \<and>
   (let r = snd (deregister_item 0 (reg_new 0)) in
     fst (register_item r) = Inr 0 \<and> fst (register_item (snd (register_item r))) = Inr 0)"
  by (simp add: deregister_item_def register_item_def reg_new_def size_limit_def)

end
