(* ===== verification/Serialization_Bounds.thy ===== *)
theory Serialization_Bounds
  imports Serialization
begin

text \<open>
  What the readers of \<^verbatim>\<open>include/cbeam/serialization\<close> do on memory that holds no complete object. The
  iterator carries no length, so the code has no bound to check: every reader that meets the
  end of a truncated object reads past it.

  The locale \<open>bounded_codec\<close> adds that to the contract \<open>codec\<close>; maps and nested maps inherit it
  from their keys and values. The locale \<open>consuming_reader\<close> states that a reader only moves forward,
  which bounds the recursion of the reader of nested maps on every input.
\<close>

section \<open>Truncated objects\<close>

locale bounded_codec = codec ser deser valid
  for ser :: "'a \<Rightarrow> bytes list" and deser and valid +
  assumes truncated: "valid x \<Longrightarrow> k < length (concat (ser x)) \<Longrightarrow>
      deser (take k (concat (ser x))) = Inl (undefined_behaviour out_of_bounds)"

interpretation bounded_ptr: bounded_codec ser_ptr deser_ptr "\<lambda>_. True"
  by unfold_locales (simp add: ser_ptr_def deser_ptr_def traits_serialize_def traits_deserialize_def)

interpretation bounded_int: bounded_codec ser_int deser_int "\<lambda>_. True"
  by unfold_locales (simp add: ser_int_def deser_int_def traits_serialize_def traits_deserialize_def)

lemma deser_size_short: "length it < 8 \<Longrightarrow> deser_size it = Inl (undefined_behaviour out_of_bounds)"
  by (simp add: deser_size_def traits_deserialize_def)

lemma take_le_bytes_append:
  "take k (le_bytes 8 n @ d) = (if k < 8 then take k (le_bytes 8 n) else le_bytes 8 n @ take (k - 8) d)"
  by auto

interpretation bounded_string: bounded_codec ser_string deser_string "\<lambda>s. length s < size_limit"
proof
  fix s :: string and k
  assume s: "length s < size_limit" and "k < length (concat (ser_string s))"
  then have k: "k < 8 + length s"
    by (simp add: ser_string_def ser_size_def traits_serialize_def)
  have "take k (concat (ser_string s)) = take k (le_bytes 8 (length s) @ map byte_of_char s)"
    by (simp add: ser_string_def ser_size_def traits_serialize_def)
  with s k show "deser_string (take k (concat (ser_string s))) = Inl (undefined_behaviour out_of_bounds)"
    by (auto simp: deser_string_def take_le_bytes_append deser_size_le_bytes deser_size_short
        simp del: take_append)
qed

lemma deser_text_truncated:
  assumes "length s < size_limit" and "k < length (concat (ser_text s))"
  shows "deser_text (take k (concat (ser_text s))) = Inl (undefined_behaviour out_of_bounds)"
proof -
  have "take k (concat (ser_text s)) = take k (le_bytes 8 (length s) @ map byte_of_char s)"
    by (simp add: ser_text_def)
  with assms show ?thesis
    by (auto simp: deser_text_def take_le_bytes_append deser_size_le_bytes deser_size_short ser_text_def
        simp del: take_append)
qed

interpretation bounded_xpod: bounded_codec ser_xpod deser_xpod valid_xpod
proof
  fix v :: xpod and k
  assume v: "valid_xpod v" and k: "k < length (concat (ser_xpod v))"
  show "deser_xpod (take k (concat (ser_xpod v))) = Inl (undefined_behaviour out_of_bounds)"
  proof (cases k)
    case 0
    then show ?thesis by (simp add: deser_xpod_def)
  next
    case (Suc j)
    with v k show ?thesis
      by (cases v)
        (auto simp: ser_xpod_def deser_xpod_def traits_deserialize_def length_ptr_to_string
          deser_text_truncated)
  qed
qed

lemma deser_entries_truncated:
  assumes "\<And>k rest. k \<in> fst ` set m \<Longrightarrow> deserk (concat (serk k) @ rest) = Inr (k, rest)"
    and "\<And>v rest. v \<in> snd ` set m \<Longrightarrow> deserv (concat (serv v) @ rest) = Inr (v, rest)"
    and "\<And>k n. k \<in> fst ` set m \<Longrightarrow> n < length (concat (serk k)) \<Longrightarrow>
      deserk (take n (concat (serk k))) = Inl (undefined_behaviour out_of_bounds)"
    and "\<And>v n. v \<in> snd ` set m \<Longrightarrow> n < length (concat (serv v)) \<Longrightarrow>
      deserv (take n (concat (serv v))) = Inl (undefined_behaviour out_of_bounds)"
    and "n < length (concat (concat (map (\<lambda>(k, v). serk k @ serv v) m)))"
  shows "deser_entries deserk deserv (length m) acc (take n (concat (concat (map (\<lambda>(k, v). serk k @ serv v) m))))
    = Inl (undefined_behaviour out_of_bounds)"
  using assms
proof (induction m arbitrary: acc n)
  case Nil
  then show ?case by simp
next
  case (Cons e m)
  obtain k v where e: "e = (k, v)" by force
  let ?k = "concat (serk k)" and ?v = "concat (serv v)"
  let ?m = "concat (concat (map (\<lambda>(k, v). serk k @ serv v) m))"
  have all: "concat (concat (map (\<lambda>(k, v). serk k @ serv v) (e # m))) = ?k @ ?v @ ?m"
    by (simp add: e)
  have rk: "deserk (?k @ rest) = Inr (k, rest)" and rv: "deserv (?v @ rest) = Inr (v, rest)" for rest
    using Cons.prems(1,2) e by auto
  consider (key) "n < length ?k" | (val) "length ?k \<le> n" "n < length ?k + length ?v"
    | (rest) "length ?k + length ?v \<le> n"
    by linarith
  then show ?case
  proof cases
    case key
    with Cons.prems(3) [of k n] e show ?thesis
      by (simp only: all list.size) (simp add: e)
  next
    case val
    with Cons.prems(4) [of v "n - length ?k"] e rk show ?thesis
      by (simp only: all list.size) (simp add: e)
  next
    case rest
    then have "take n (?k @ ?v @ ?m) = ?k @ ?v @ take (n - length ?k - length ?v) ?m"
      by simp
    moreover have "deser_entries deserk deserv (length m) a (take (n - length ?k - length ?v) ?m)
        = Inl (undefined_behaviour out_of_bounds)" for a
      using Cons.prems rest by (intro Cons.IH) (auto simp: e)
    ultimately show ?thesis
      using rk rv by (simp only: all list.size) simp
  qed
qed

lemma deser_map_truncated:
  assumes "\<And>k rest. k \<in> fst ` set m \<Longrightarrow> deserk (concat (serk k) @ rest) = Inr (k, rest)"
    and "\<And>v rest. v \<in> snd ` set m \<Longrightarrow> deserv (concat (serv v) @ rest) = Inr (v, rest)"
    and "\<And>k n. k \<in> fst ` set m \<Longrightarrow> n < length (concat (serk k)) \<Longrightarrow>
      deserk (take n (concat (serk k))) = Inl (undefined_behaviour out_of_bounds)"
    and "\<And>v n. v \<in> snd ` set m \<Longrightarrow> n < length (concat (serv v)) \<Longrightarrow>
      deserv (take n (concat (serv v))) = Inl (undefined_behaviour out_of_bounds)"
    and "length m < size_limit" and n: "n < length (concat (ser_map serk serv m))"
  shows "deser_map deserk deserv (take n (concat (ser_map serk serv m))) = Inl (undefined_behaviour out_of_bounds)"
proof -
  let ?m = "concat (concat (map (\<lambda>(k, v). serk k @ serv v) m))"
  have all: "concat (ser_map serk serv m) = le_bytes 8 (length m) @ ?m"
    by (simp add: ser_map_def ser_size_def traits_serialize_def)
  show ?thesis
  proof (cases "n < 8")
    case True
    then show ?thesis
      by (simp only: all take_le_bytes_append) (simp add: deser_map_def deser_size_short)
  next
    case False
    then have "n - 8 < length ?m"
      using n by (simp add: all del: length_concat)
    from deser_entries_truncated [of m deserk serk deserv serv, OF assms(1-4) this] False assms(5)
    show ?thesis
      by (simp only: all take_le_bytes_append) (simp add: deser_map_def deser_size_le_bytes)
  qed
qed

section \<open>Readers move forward\<close>

text \<open>Readers that never move their iterator backwards, and never run out of the fuel of the model.\<close>

locale consuming_reader =
  fixes deser :: "bytes \<Rightarrow> ('a \<times> bytes) result"
  assumes forward: "deser it = Inr (x, r) \<Longrightarrow> length r \<le> length it"
    and no_fuel: "deser it \<noteq> Inl model_out_of_fuel"

interpretation ptr_reader: consuming_reader deser_ptr
  by unfold_locales (auto simp: deser_ptr_def traits_deserialize_def split: if_splits)

interpretation int_reader: consuming_reader deser_int
  by unfold_locales (auto simp: deser_int_def traits_deserialize_def split: if_splits)

lemma deser_size_forward: "deser_size it = Inr (n, r) \<Longrightarrow> Suc (length r) \<le> length it"
  by (auto simp: deser_size_def traits_deserialize_def split: if_splits)

lemma deser_size_no_fuel: "deser_size it \<noteq> Inl model_out_of_fuel"
  by (auto simp: deser_size_def traits_deserialize_def split: if_splits)

interpretation string_reader: consuming_reader deser_string
proof
  show "length r \<le> length it" if "deser_string it = Inr (x, r)" for it x r
    using that by (auto simp: deser_string_def dest!: deser_size_forward split: sum.splits if_splits)
  show "deser_string it \<noteq> Inl model_out_of_fuel" for it
    using deser_size_no_fuel [of it] by (auto simp: deser_string_def split: sum.splits)
qed

lemma deser_text_string: "deser_text = deser_string"
  by (rule ext) (simp add: deser_text_def deser_string_def)

lemma ptr_from_string_no_fuel: "ptr_from_string s \<noteq> Inl model_out_of_fuel"
  by (auto simp: ptr_from_string_def Let_def split: list.splits prod.splits)

interpretation xpod_reader: consuming_reader deser_xpod
proof
  show "length r \<le> length it" if "deser_xpod it = Inr (x, r)" for it x r
    using that
    by (auto simp: deser_xpod_def deser_text_string traits_deserialize_def dest!: string_reader.forward
        split: list.splits sum.splits if_splits)
  show "deser_xpod it \<noteq> Inl model_out_of_fuel" for it
    by (auto simp: deser_xpod_def deser_text_string traits_deserialize_def string_reader.no_fuel
        ptr_from_string_no_fuel split: list.splits sum.splits if_splits)
qed

text \<open>A reader of maps depends on its value reader only at inputs no longer than its own.\<close>

lemma deser_entries_cong:
  assumes "consuming_reader deserk"
    and "\<And>i. length i \<le> length it \<Longrightarrow> d1 i = d2 i"
    and "\<And>i x r. length i \<le> length it \<Longrightarrow> d1 i = Inr (x, r) \<Longrightarrow> length r \<le> length i"
  shows "deser_entries deserk d1 n m it = deser_entries deserk d2 n m it"
  using assms(2,3)
proof (induction n arbitrary: m it)
  case 0
  then show ?case by simp
next
  case (Suc n)
  have key: "length r \<le> length it" if "deserk it = Inr (k, r)" for k r
    using consuming_reader.forward [OF assms(1) that] .
  have "deser_entries deserk d1 n m' r = deser_entries deserk d2 n m' r" if "length r \<le> length it" for m' r
    using Suc.prems that by (intro Suc.IH) auto
  moreover have "d2 r = d1 r" and "d1 r = Inr (v, r') \<Longrightarrow> length r' \<le> length it"
    if "length r \<le> length it" for r v r'
    using Suc.prems [of r] that by auto
  ultimately show ?case
    using key by (auto split: sum.split dest!: key)
qed

lemma deser_entries_reader:
  assumes "consuming_reader deserk"
    and "\<And>i. length i \<le> length it \<Longrightarrow> deserv i \<noteq> Inl model_out_of_fuel"
    and "\<And>i x r. length i \<le> length it \<Longrightarrow> deserv i = Inr (x, r) \<Longrightarrow> length r \<le> length i"
  shows "deser_entries deserk deserv n m it \<noteq> Inl model_out_of_fuel \<and>
    (\<forall>x r. deser_entries deserk deserv n m it = Inr (x, r) \<longrightarrow> length r \<le> length it)"
  using assms(2,3)
proof (induction n arbitrary: m it)
  case 0
  then show ?case by simp
next
  case (Suc n)
  have key: "length r \<le> length it" if "deserk it = Inr (k, r)" for k r
    using consuming_reader.forward [OF assms(1) that] .
  have val: "deserv r \<noteq> Inl model_out_of_fuel" and val_r: "deserv r = Inr (v, r') \<Longrightarrow> length r' \<le> length r"
    if "length r \<le> length it" for r v r'
    using Suc.prems [of r] that by auto
  have "deser_entries deserk deserv n m' r \<noteq> Inl model_out_of_fuel \<and>
      (\<forall>x r'. deser_entries deserk deserv n m' r = Inr (x, r') \<longrightarrow> length r' \<le> length r)"
    if "length r \<le> length it" for m' r
    using Suc.prems that by (intro Suc.IH) auto
  note IH = this
  show ?case
  proof (cases "deserk it")
    case (Inl e)
    with consuming_reader.no_fuel [OF assms(1), of it] show ?thesis by simp
  next
    case (Inr p)
    then obtain k r where p: "deserk it = Inr (k, r)" by (cases p) auto
    note r = key [OF p]
    show ?thesis
    proof (cases "deserv r")
      case (Inl e)
      with p val [OF r] show ?thesis by simp
    next
      case (Inr q)
      then obtain v r' where q: "deserv r = Inr (v, r')" by (cases q) auto
      then have "length r' \<le> length it"
        using val_r [OF r] r by fastforce
      from IH [OF this, of "smap_insert k v m"] this show ?thesis
        by (fastforce simp: p q intro: order_trans)
    qed
  qed
qed

lemma deser_map_reader:
  assumes "consuming_reader deserk"
    and "\<And>i. length i < length it \<Longrightarrow> deserv i \<noteq> Inl model_out_of_fuel"
    and "\<And>i x r. length i < length it \<Longrightarrow> deserv i = Inr (x, r) \<Longrightarrow> length r \<le> length i"
  shows "deser_map deserk deserv it \<noteq> Inl model_out_of_fuel"
    and "deser_map deserk deserv it = Inr (x, r) \<Longrightarrow> length r < length it"
proof -
  have entries: "deser_entries deserk deserv n [] i \<noteq> Inl model_out_of_fuel \<and>
      (\<forall>x r. deser_entries deserk deserv n [] i = Inr (x, r) \<longrightarrow> length r \<le> length i)"
    if "length i < length it" for n i
    using assms that by (intro deser_entries_reader) auto
  have "deser_map deserk deserv it \<noteq> Inl model_out_of_fuel \<and>
      (deser_map deserk deserv it = Inr (x, r) \<longrightarrow> length r < length it)"
  proof (cases "deser_size it")
    case (Inl e)
    with deser_size_no_fuel [of it] show ?thesis by (simp add: deser_map_def)
  next
    case (Inr p)
    then obtain n i where "deser_size it = Inr (n, i)" by (cases p) auto
    moreover from deser_size_forward [OF this] have "length i < length it" by simp
    ultimately show ?thesis
      using entries [of i n] by (fastforce simp: deser_map_def)
  qed
  then show "deser_map deserk deserv it \<noteq> Inl model_out_of_fuel"
    and "deser_map deserk deserv it = Inr (x, r) \<Longrightarrow> length r < length it"
    by blast+
qed

lemma deser_map_forward:
  assumes "consuming_reader deserk" and "consuming_reader deserv"
  shows "deser_map deserk deserv it \<noteq> Inl model_out_of_fuel"
    and "deser_map deserk deserv it = Inr (x, r) \<Longrightarrow> length r < length it"
  using deser_map_reader [OF assms(1), of it deserv] consuming_reader.no_fuel [OF assms(2)]
    consuming_reader.forward [OF assms(2)] by blast+

lemma deser_map_cong:
  assumes "consuming_reader deserk"
    and "\<And>i. length i < length it \<Longrightarrow> d1 i = d2 i"
    and "\<And>i x r. length i < length it \<Longrightarrow> d1 i = Inr (x, r) \<Longrightarrow> length r \<le> length i"
  shows "deser_map deserk d1 it = deser_map deserk d2 it"
proof -
  have "deser_entries deserk d1 n [] i = deser_entries deserk d2 n [] i" if "length i < length it" for n i
    using assms that by (intro deser_entries_cong) auto
  then show ?thesis
    by (auto simp: deser_map_def split: sum.splits dest!: deser_size_forward)
qed

section \<open>Nested maps\<close>

text \<open>On an input shorter than the fuel, the reader never runs out of it, only moves forward, and does not
  depend on how much fuel there is.\<close>

lemma deser_nested_fuel_reader:
  assumes "consuming_reader deserk" and "consuming_reader deserv" and "length it < fuel"
  shows "deser_nested_fuel deserk deserv fuel it \<noteq> Inl model_out_of_fuel \<and>
    (\<forall>x r. deser_nested_fuel deserk deserv fuel it = Inr (x, r) \<longrightarrow> length r < length it)"
  using assms(3)
proof (induction fuel arbitrary: it)
  case 0
  then show ?case by simp
next
  case (Suc fuel)
  note data = deser_map_forward [OF assms(1,2)]
  show ?case
  proof (cases "deser_map deserk deserv it")
    case (Inl e)
    with data(1) [of it] show ?thesis by simp
  next
    case (Inr p)
    then obtain d i where d: "deser_map deserk deserv it = Inr (d, i)" by (cases p) auto
    from data(2) [OF this] have i: "length i < length it" .
    have "deser_nested_fuel deserk deserv fuel j \<noteq> Inl model_out_of_fuel \<and>
        (\<forall>x r. deser_nested_fuel deserk deserv fuel j = Inr (x, r) \<longrightarrow> length r < length j)"
      if "length j < length i" for j
      using Suc.prems i that by (intro Suc.IH) simp
    then have "deser_map deserk (deser_nested_fuel deserk deserv fuel) i \<noteq> Inl model_out_of_fuel"
      and "deser_map deserk (deser_nested_fuel deserk deserv fuel) i = Inr (x, r) \<Longrightarrow> length r < length i" for x r
      by (intro deser_map_reader [OF assms(1)]; force)+
    then show ?thesis
      using d i by (fastforce split: sum.splits)
  qed
qed

lemma deser_nested_fuel_irrelevant:
  assumes "consuming_reader deserk" and "consuming_reader deserv"
    and "length it < fuel" and "length it < fuel'"
  shows "deser_nested_fuel deserk deserv fuel it = deser_nested_fuel deserk deserv fuel' it"
  using assms(3,4)
proof (induction fuel arbitrary: it fuel')
  case 0
  then show ?case by simp
next
  case (Suc fuel)
  from Suc.prems obtain f where f: "fuel' = Suc f" by (cases fuel') auto
  have "deser_map deserk (deser_nested_fuel deserk deserv fuel) i =
      deser_map deserk (deser_nested_fuel deserk deserv f) i" if "length i < length it" for i
  proof (rule deser_map_cong [OF assms(1)])
    fix j :: bytes
    assume j: "length j < length i"
    then show "deser_nested_fuel deserk deserv fuel j = deser_nested_fuel deserk deserv f j"
      using Suc.prems that f by (intro Suc.IH) auto
    show "length r \<le> length j" if "deser_nested_fuel deserk deserv fuel j = Inr (x, r)" for x r
      using deser_nested_fuel_reader [OF assms(1,2), of j fuel] j \<open>length i < length it\<close> Suc.prems that
      by fastforce
  qed
  moreover have "length i < length it" if "deser_map deserk deserv it = Inr (d, i)" for d i
    using deser_map_forward(2) [OF assms(1,2) that] .
  ultimately show ?case
    unfolding f by (auto split: sum.split)
qed

lemma deser_nested_reader:
  assumes "consuming_reader deserk" and "consuming_reader deserv"
  shows "consuming_reader (deser_nested deserk deserv)"
  using deser_nested_fuel_reader [OF assms]
  by unfold_locales (fastforce simp: deser_nested_def)+

lemma deser_nested_fuel_truncated:
  assumes bk: "bounded_codec serk deserk vk" and bv: "bounded_codec serv deserv vv"
  shows "valid_nested vk vv m \<Longrightarrow> length (concat (ser_nested serk serv m)) < fuel \<Longrightarrow>
    n < length (concat (ser_nested serk serv m)) \<Longrightarrow>
    deser_nested_fuel deserk deserv fuel (take n (concat (ser_nested serk serv m)))
      = Inl (undefined_behaviour out_of_bounds)"
proof (induction m arbitrary: fuel n)
  case (Nested_Map d s)
  note rk = codec.roundtrip [OF bounded_codec.axioms(1) [OF bk]] and rv = codec.roundtrip [OF bounded_codec.axioms(1) [OF bv]]
  note tk = bounded_codec.truncated [OF bk] and tv = bounded_codec.truncated [OF bv]
  let ?d = "concat (ser_map serk serv d)" and ?s = "concat (ser_map serk (ser_nested serk serv) s)"
  have ser: "concat (ser_nested serk serv (Nested_Map d s)) = ?d @ ?s"
    by (simp add: ser_map_map_snd comp_def)
  have vd: "valid_map vk vv d" and vs: "valid_map vk (valid_nested vk vv) s"
    using Nested_Map.prems(1) by (simp_all add: valid_map_map_snd comp_def)
  obtain f where f: "fuel = Suc f" and fs: "length ?s \<le> f"
    using Nested_Map.prems(2) unfolding ser by (cases fuel) auto
  show ?case
  proof (cases "n < length ?d")
    case True
    have "deser_map deserk deserv (take n ?d) = Inl (undefined_behaviour out_of_bounds)"
      using vd True by (intro deser_map_truncated) (auto simp: valid_map_def list_all_iff intro!: rk rv tk tv)
    with True show ?thesis
      by (simp only: ser f) simp
  next
    case False
    have "deser_map deserk deserv (?d @ r) = Inr (d, r)" for r
      using vd by (intro deser_map_ok) (auto simp: valid_map_def list_all_iff intro!: rk rv)
    moreover have "deser_map deserk (deser_nested_fuel deserk deserv f) (take (n - length ?d) ?s)
        = Inl (undefined_behaviour out_of_bounds)"
    proof (rule deser_map_truncated)
      fix t
      assume t: "t \<in> snd ` set s"
      then obtain k where kt: "(k, t) \<in> set s" by force
      have len: "length (concat (ser_nested serk serv t)) < f"
        using length_ser_map_value [OF t, of "ser_nested serk serv" serk] fs by linarith
      have vt: "valid_nested vk vv t"
        using vs t by (auto simp: valid_map_def list_all_iff)
      show "deser_nested_fuel deserk deserv f (concat (ser_nested serk serv t) @ rest) = Inr (t, rest)" for rest
        using len vt by (intro deser_nested_fuel_ok [of vk _ _ vv]) (simp_all add: rk rv)
      show "deser_nested_fuel deserk deserv f (take i (concat (ser_nested serk serv t)))
          = Inl (undefined_behaviour out_of_bounds)" if "i < length (concat (ser_nested serk serv t))" for i
        using kt len vt that by (intro Nested_Map.IH) auto
    next
      show "n - length ?d < length ?s"
        using Nested_Map.prems(3) False unfolding ser by simp
    qed (use vs in \<open>auto simp: valid_map_def list_all_iff intro!: rk tk\<close>)
    moreover have "take n (?d @ ?s) = ?d @ take (n - length ?d) ?s"
      using False by simp
    ultimately show ?thesis
      by (simp only: ser f deser_nested_fuel.simps) simp
  qed
qed

text \<open>C20. Truncated tables. The reader of a nested table of \<open>xpod\<close> values that is given any proper prefix of a
  serialized table reads past the end of the memory: no truncation is detected, and none goes unnoticed as a
  shorter table.\<close>

theorem truncated_table_overreads:
  assumes "valid_nested (\<lambda>s. length s < size_limit) valid_xpod m"
    and "n < length (concat (ser_nested ser_string ser_xpod m))"
  shows "deser_nested deser_string deser_xpod (take n (concat (ser_nested ser_string ser_xpod m)))
    = Inl (undefined_behaviour out_of_bounds)"
proof -
  let ?all = "concat (ser_nested ser_string ser_xpod m)"
  have "deser_nested deser_string deser_xpod (take n ?all)
      = deser_nested_fuel deser_string deser_xpod (Suc (length ?all)) (take n ?all)"
    unfolding deser_nested_def
    by (rule deser_nested_fuel_irrelevant) (use assms(2) in \<open>simp_all add: string_reader.consuming_reader_axioms
      xpod_reader.consuming_reader_axioms\<close>)
  also have "\<dots> = Inl (undefined_behaviour out_of_bounds)"
    using assms by (intro deser_nested_fuel_truncated [OF bounded_string.bounded_codec_axioms
        bounded_xpod.bounded_codec_axioms]) simp_all
  finally show ?thesis .
qed

theorem truncated_table_overreads_witness:
  "deser_nested deser_string deser_xpod
     (take 20 (concat (ser_nested ser_string ser_xpod (Nested_Map [(''a'', Integer 5)] []))))
   = Inl (undefined_behaviour out_of_bounds)"
  by (rule truncated_table_overreads)
    (simp_all add: size_limit_def valid_map_def smap_ok_def ser_map_def ser_size_def ser_string_def
      ser_xpod_def traits_serialize_def ser_char_def)

text \<open>C21. Termination of the reader. On every memory, well-formed or not, the reader of nested tables returns: the
  recursion over the sub tables is bounded by the bytes in front of it, since every table consumes at least one of
  them. What it returns is a table with a later iterator, an exception, or a read past the end.\<close>

theorem table_reader_terminates:
  "deser_nested deser_string deser_xpod it \<noteq> Inl model_out_of_fuel \<and>
   (\<forall>m r. deser_nested deser_string deser_xpod it = Inr (m, r) \<longrightarrow> length r < length it)"
  unfolding deser_nested_def
  using deser_nested_fuel_reader [OF string_reader.consuming_reader_axioms xpod_reader.consuming_reader_axioms,
      of it "Suc (length it)"] by blast

theorem table_reader_terminates_witness:
  "deser_nested deser_string deser_xpod (replicate 18 0) = Inr (Nested_Map [] [], [0, 0]) \<and>
   length [0, 0 :: byte] < length (replicate 18 (0 :: byte))"
proof
  show "deser_nested deser_string deser_xpod (replicate 18 0) = Inr (Nested_Map [] [], [0, 0])"
    by code_simp
  then show "length [0, 0 :: byte] < length (replicate 18 (0 :: byte))"
    using table_reader_terminates [of "replicate 18 0"] by blast
qed

end
