(* ===== verification/Singleton.thy ===== *)
theory Singleton
  imports Std_Map
begin

text \<open>
  \<^verbatim>\<open>lifecycle/singleton.hpp\<close>: named resources with an explicit end of life. The static members of
  \<open>singleton_control\<close> are the state; the methods run under its mutex. (\<open>get\<close> reads \<open>_shutdown\<close> before it takes
  the mutex and \<open>set_operational\<close> writes it without; the model has no other thread in between.)

  A resource is a number, taken in the order of construction; \<open>use_count\<close> counts the
  \<open>std::shared_ptr\<close>s to it, so a resource with count zero has been destroyed. The type \<open>singleton<T, Args...>\<close> is a
  tag that \<open>dynamic_cast\<close> compares. The constructor of \<open>T\<close> is the caller's code: the argument \<open>mk\<close> is its outcome.

  A client performs operations and keeps the list of the pointers it holds.
\<close>

record 't singleton =
  s_type :: 't
  s_name :: string
  s_instance :: "nat option"

record 't singleton_control =
  instances :: "(string, 't singleton option) smap"
  shutdown :: bool
  next_resource :: nat
  use_count :: "nat \<Rightarrow> nat"

definition sg_start :: "'t singleton_control" where
  "sg_start = \<lparr>instances = [], shutdown = False, next_resource = 0, use_count = \<lambda>_. 0\<rparr>"

fun acquire :: "nat option \<Rightarrow> 't singleton_control \<Rightarrow> 't singleton_control" where
  "acquire None S = S"
| "acquire (Some r) S = S\<lparr>use_count := (use_count S)(r := use_count S r + 1)\<rparr>"

fun drop_pointer :: "nat option \<Rightarrow> 't singleton_control \<Rightarrow> 't singleton_control" where
  "drop_pointer None S = S"
| "drop_pointer (Some r) S = S\<lparr>use_count := (use_count S)(r := use_count S r - 1)\<rparr>"

definition singleton_ctor ::
  "'t \<Rightarrow> string \<Rightarrow> unit result \<Rightarrow> 't singleton_control \<Rightarrow> 't singleton result \<times> 't singleton_control" where
  "singleton_ctor ty name mk S =
     (case mk of
        Inl e \<Rightarrow> (Inl e, S)
      | Inr _ \<Rightarrow>
          (Inr \<lparr>s_type = ty, s_name = name, s_instance = Some (next_resource S)\<rparr>,
           acquire (Some (next_resource S)) (S\<lparr>next_resource := next_resource S + 1\<rparr>)))"

definition incompatible :: failure where
  "incompatible = runtime_error ''cbeam::lifecycle::singleton: incompatible singleton type requested.''"

text \<open>The second half of \<open>get\<close>, with a base instance in the map.\<close>

definition get_derived ::
  "'t \<Rightarrow> 't singleton \<Rightarrow> 't singleton_control \<Rightarrow> nat option result \<times> 't singleton_control" where
  "get_derived ty base S =
     (if s_type base = ty then (Inr (s_instance base), acquire (s_instance base) S) else (Inl incompatible, S))"

definition sg_get ::
  "'t \<Rightarrow> string \<Rightarrow> unit result \<Rightarrow> 't singleton_control \<Rightarrow> nat option result \<times> 't singleton_control" where
  "sg_get ty name mk S =
     (if shutdown S then (Inr None, S)
      else
        (let S1 = S\<lparr>instances := smap_insert name None (instances S)\<rparr>
         in case map_of (instances S1) name of
              Some (Some base) \<Rightarrow> get_derived ty base S1
            | _ \<Rightarrow>
                (case singleton_ctor ty name mk S1 of
                   (Inl e, S2) \<Rightarrow> (Inl e, S2)
                 | (Inr base, S2) \<Rightarrow>
                     get_derived ty base (S2\<lparr>instances := smap_assign name (Some base) (instances S2)\<rparr>))))"

text \<open>\<open>unique_ptr::reset\<close> runs the destructor of the singleton, which drops its pointer.\<close>

fun destroy_singleton :: "'t singleton option \<Rightarrow> 't singleton_control \<Rightarrow> 't singleton_control" where
  "destroy_singleton None S = S"
| "destroy_singleton (Some base) S = drop_pointer (s_instance base) S"

definition sg_release :: "string \<Rightarrow> 't singleton_control \<Rightarrow> 't singleton_control" where
  "sg_release name S =
     (case map_of (instances S) name of
        None \<Rightarrow> S
      | Some base \<Rightarrow> (destroy_singleton base S)\<lparr>instances := smap_erase name (instances S)\<rparr>)"

text \<open>\<open>release_instance\<close> drops the pointer, the destructor that follows finds it null. The loop dereferences
  every entry.\<close>

fun reset_loop ::
  "(string, 't singleton option) smap \<Rightarrow> 't singleton_control \<Rightarrow> unit result \<times> 't singleton_control" where
  "reset_loop [] S = (Inr (), S)"
| "reset_loop ((name, None) # rest) S = (Inl (undefined_behaviour null_dereference), S)"
| "reset_loop ((name, Some base) # rest) S =
     reset_loop rest (destroy_singleton (Some (base\<lparr>s_instance := None\<rparr>)) (drop_pointer (s_instance base) S))"

definition sg_reset :: "'t singleton_control \<Rightarrow> unit result \<times> 't singleton_control" where
  "sg_reset S =
     (case reset_loop (instances S) (S\<lparr>shutdown := True\<rparr>) of
        (Inl e, S') \<Rightarrow> (Inl e, S')
      | (Inr _, S') \<Rightarrow> (Inr (), S'\<lparr>instances := []\<rparr>))"

definition set_operational :: "'t singleton_control \<Rightarrow> 't singleton_control" where
  "set_operational S = S\<lparr>shutdown := False\<rparr>"

section \<open>Clients\<close>

datatype 't sg_op =
    Get 't string "unit result"
  | Release string
  | Reset
  | Set_operational
  | Drop nat

text \<open>\<open>Drop r\<close> destroys one of the client's own pointers to \<open>r\<close>.\<close>

fun sg_exec :: "'t sg_op \<Rightarrow> 't singleton_control \<times> nat list \<Rightarrow> unit result \<times> 't singleton_control \<times> nat list" where
  "sg_exec (Get ty name mk) (S, H) =
     (case sg_get ty name mk S of
        (Inl e, S') \<Rightarrow> (Inl e, S', H)
      | (Inr None, S') \<Rightarrow> (Inr (), S', H)
      | (Inr (Some r), S') \<Rightarrow> (Inr (), S', r # H))"
| "sg_exec (Release name) (S, H) = (Inr (), sg_release name S, H)"
| "sg_exec Reset (S, H) = (case sg_reset S of (res, S') \<Rightarrow> (res, S', H))"
| "sg_exec Set_operational (S, H) = (Inr (), set_operational S, H)"
| "sg_exec (Drop r) (S, H) =
     (if r \<in> set H then (Inr (), drop_pointer (Some r) S, remove1 r H) else (Inr (), S, H))"

text \<open>A run ends without a result where the behaviour is undefined; the client catches exceptions and goes on.\<close>

fun sg_run :: "'t sg_op list \<Rightarrow> 't singleton_control \<times> nat list \<Rightarrow> ('t singleton_control \<times> nat list) option" where
  "sg_run [] s = Some s"
| "sg_run (op # ops) s =
     (case sg_exec op s of
        (Inl e, s') \<Rightarrow> if is_undefined e then None else sg_run ops s'
      | (Inr _, s') \<Rightarrow> sg_run ops s')"

section \<open>Invariant\<close>

definition owns :: "'t singleton option \<Rightarrow> nat \<Rightarrow> bool" where
  "owns e r \<longleftrightarrow> (case e of None \<Rightarrow> False | Some b \<Rightarrow> s_instance b = Some r)"

definition owners :: "(string, 't singleton option) smap \<Rightarrow> nat \<Rightarrow> nat" where
  "owners m r = length (filter (\<lambda>e. owns (snd e) r) m)"

definition entry_ok :: "nat \<Rightarrow> 't singleton option \<Rightarrow> bool" where
  "entry_ok n e \<longleftrightarrow> (case e of None \<Rightarrow> True | Some b \<Rightarrow> (\<exists>r < n. s_instance b = Some r))"

text \<open>The count of a resource is the number of its owners: entries of the map and pointers of the client.\<close>

definition sg_inv :: "'t singleton_control \<times> nat list \<Rightarrow> bool" where
  "sg_inv s \<longleftrightarrow> (case s of (S, H) \<Rightarrow>
     smap_ok (instances S) \<and> (\<forall>k e. (k, e) \<in> set (instances S) \<longrightarrow> entry_ok (next_resource S) e) \<and>
     (\<forall>r\<in>set H. r < next_resource S) \<and>
     (\<forall>r. use_count S r = owners (instances S) r + count_list H r))"

lemma owners_assign: "owners (smap_assign k v m) r = owners (smap_erase k m) r + of_bool (owns v r)"
proof -
  have "length (filter P (filter (\<lambda>e. fst e < k) m)) + length (filter P (filter (\<lambda>e. k < fst e) m))
      = length (filter P (filter (\<lambda>e. fst e \<noteq> k) m))" for P
    by (induction m) auto
  from this [of "\<lambda>e. owns (snd e) r"] show ?thesis
    by (simp add: owners_def smap_assign_def smap_erase_def)
qed

lemma owners_erase:
  "smap_ok m \<Longrightarrow> owners m r = owners (smap_erase k m) r + (case map_of m k of None \<Rightarrow> 0 | Some v \<Rightarrow> of_bool (owns v r))"
proof (induction m)
  case Nil
  then show ?case by (simp add: owners_def smap_erase_def)
next
  case (Cons e m)
  have "map_of m k = None" if "fst e = k"
    using Cons.prems that by (auto simp: smap_ok_Cons map_of_eq_None_iff)
  moreover have "smap_erase k m = m" if "fst e = k"
    using Cons.prems that by (auto simp: smap_ok_Cons smap_erase_def filter_id_conv)
  ultimately show ?case
    using Cons by (auto simp: smap_ok_Cons owners_def smap_erase_def split: option.splits)
qed

lemma owners_new:
  assumes "smap_ok m" and "map_of m k = None \<or> map_of m k = Some None"
  shows "owners (smap_assign k v m) r = owners m r + of_bool (owns v r)"
  using assms owners_erase [of m r k] by (auto simp: owners_assign owns_def)

lemma entry_ok_mono: "entry_ok n e \<Longrightarrow> n \<le> n' \<Longrightarrow> entry_ok n' e"
  by (force simp: entry_ok_def split: option.splits)

lemma set_smap_assign: "e \<in> set (smap_assign k v m) \<Longrightarrow> e = (k, v) \<or> e \<in> set m"
  by (auto simp: smap_assign_def)

lemma set_smap_insert: "e \<in> set (smap_insert k v m) \<Longrightarrow> e = (k, v) \<or> e \<in> set m"
  by (auto simp: smap_insert_def dest: set_smap_assign split: if_splits)

text \<open>\<open>get\<close> by cases: the state has been shut down; the name has an instance; it has none, and its constructor
  throws or succeeds.\<close>

lemma sg_get_cases:
  assumes "sg_inv (S, H)"
  obtains (down) "shutdown S" "sg_get ty name mk S = (Inr None, S)"
  | (known) base r where "\<not> shutdown S" "map_of (instances S) name = Some (Some base)" "s_type base = ty"
      "s_instance base = Some r" "r < next_resource S" "sg_get ty name mk S = (Inr (Some r), acquire (Some r) S)"
  | (other) base where "\<not> shutdown S" "map_of (instances S) name = Some (Some base)" "s_type base \<noteq> ty"
      "sg_get ty name mk S = (Inl incompatible, S)"
  | (threw) e where "\<not> shutdown S" "map_of (instances S) name \<in> {None, Some None}" "mk = Inl e"
      "sg_get ty name mk S = (Inl e, S\<lparr>instances := smap_insert name None (instances S)\<rparr>)"
  | (made) base where "\<not> shutdown S" "map_of (instances S) name \<in> {None, Some None}" "mk = Inr ()"
      "base = \<lparr>s_type = ty, s_name = name, s_instance = Some (next_resource S)\<rparr>"
      "sg_get ty name mk S = (Inr (Some (next_resource S)),
         acquire (Some (next_resource S)) (acquire (Some (next_resource S))
           (S\<lparr>next_resource := next_resource S + 1,
             instances := smap_assign name (Some base) (smap_insert name None (instances S))\<rparr>)))"
proof (cases "shutdown S")
  case True
  then show thesis by (intro down) (simp_all add: sg_get_def)
next
  case up: False
  show thesis
  proof (cases "map_of (instances S) name \<in> {None, Some None}")
    case True
    then have null: "map_of (smap_insert name None (instances S)) name = Some None" by auto
    show thesis
    proof (cases mk)
      case (Inl e)
      with up True null show thesis
        by (intro threw) (simp_all add: sg_get_def singleton_ctor_def Let_def)
    next
      case (Inr u)
      with up True null show thesis
        by (intro made [OF _ _ _ refl]) (simp_all add: sg_get_def singleton_ctor_def get_derived_def Let_def)
    qed
  next
    case False
    then obtain base where base: "map_of (instances S) name = Some (Some base)" by auto
    then have "(name, Some base) \<in> set (instances S)" by (rule map_of_SomeD)
    then obtain r where r: "s_instance base = Some r" "r < next_resource S"
      using assms by (fastforce simp: sg_inv_def entry_ok_def)
    have ins: "smap_insert name None (instances S) = instances S"
      using base by (simp add: smap_insert_def)
    show thesis
    proof (cases "s_type base = ty")
      case True
      with up base r ins show thesis
        by (intro known) (simp_all add: sg_get_def get_derived_def)
    next
      case False
      with up base r ins show thesis
        by (intro other) (simp_all add: sg_get_def get_derived_def)
    qed
  qed
qed

lemma sg_inv_get:
  assumes inv: "sg_inv (S, H)" and run: "sg_exec (Get ty name mk) (S, H) = (res, s')"
  shows "sg_inv s'"
proof (cases rule: sg_get_cases [OF inv, of ty name mk])
  case 1
  with inv run show ?thesis by simp
next
  case (2 base r)
  with inv run show ?thesis by (auto simp: sg_inv_def)
next
  case (3 base)
  with inv run show ?thesis by simp
next
  case (4 e)
  then have "owners (smap_insert name None (instances S)) r = owners (instances S) r" for r
    using inv by (auto simp: smap_insert_def owners_new sg_inv_def owns_def)
  moreover have "entry_ok n (None :: 'a singleton option)" for n
    by (simp add: entry_ok_def)
  ultimately show ?thesis
    using inv run 4 by (auto simp: sg_inv_def dest!: set_smap_insert)
next
  case (5 base)
  let ?m1 = "smap_insert name None (instances S)"
  have m1: "smap_ok ?m1" "map_of ?m1 name = Some None"
    using inv 5(2) by (auto simp: sg_inv_def)
  have "owners ?m1 r = owners (instances S) r" for r
    using inv 5(2) by (auto simp: smap_insert_def owners_new sg_inv_def owns_def)
  then have "owners (smap_assign name (Some base) ?m1) r = owners (instances S) r + of_bool (r = next_resource S)" for r
    using owners_new [OF m1(1), of name "Some base" r] m1(2) by (auto simp: 5(4) owns_def)
  moreover have "\<forall>k e. (k, e) \<in> set (smap_assign name (Some base) ?m1) \<longrightarrow> entry_ok (Suc (next_resource S)) e"
  proof (intro allI impI)
    fix k e
    assume "(k, e) \<in> set (smap_assign name (Some base) ?m1)"
    then consider "e = Some base" | "e = None" | "(k, e) \<in> set (instances S)"
      by (auto dest!: set_smap_assign set_smap_insert)
    then show "entry_ok (Suc (next_resource S)) e"
    proof cases
      case 3
      with inv have "entry_ok (next_resource S) e" by (auto simp: sg_inv_def)
      then show ?thesis by (rule entry_ok_mono) simp
    qed (simp_all add: 5(4) entry_ok_def)
  qed
  moreover have "\<forall>r\<in>set H. r < Suc (next_resource S)"
    using inv by (auto simp: sg_inv_def)
  ultimately show ?thesis
    using inv run 5(5) by (auto simp: sg_inv_def)
qed

lemma reset_loop_ok:
  "None \<notin> snd ` set m \<Longrightarrow> \<forall>k e. (k, e) \<in> set m \<longrightarrow> entry_ok n e \<Longrightarrow>
   reset_loop m S = (Inr (), S\<lparr>use_count := \<lambda>r. use_count S r - owners m r\<rparr>)"
proof (induction m arbitrary: S)
  case Nil
  then show ?case by (simp add: owners_def)
next
  case (Cons e m)
  then obtain name base r where e: "e = (name, Some base)" "s_instance base = Some r"
    by (cases e; cases "snd e") (force simp: entry_ok_def)+
  have "owners (e # m) q = of_bool (q = r) + owners m q" for q
    by (auto simp: owners_def owns_def e)
  with Cons show ?case
    by (auto simp: e fun_eq_iff)
qed

lemma reset_loop_null:
  "None \<in> snd ` set m \<Longrightarrow> fst (reset_loop m S) = Inl (undefined_behaviour null_dereference)"
  by (induction m S rule: reset_loop.induct) auto

lemma sg_reset_ok:
  assumes "sg_inv (S, H)" and "None \<notin> snd ` set (instances S)"
  shows "sg_reset S = (Inr (), S\<lparr>shutdown := True, use_count := count_list H, instances := []\<rparr>)"
proof -
  have "reset_loop (instances S) (S\<lparr>shutdown := True\<rparr>) =
      (Inr (), S\<lparr>shutdown := True, use_count := \<lambda>r. use_count S r - owners (instances S) r\<rparr>)"
    using assms reset_loop_ok [of "instances S" "next_resource S" "S\<lparr>shutdown := True\<rparr>"] by (simp add: sg_inv_def)
  moreover have "use_count S r - owners (instances S) r = count_list H r" for r
    using assms(1) by (simp add: sg_inv_def)
  ultimately show ?thesis
    by (simp add: sg_reset_def)
qed

lemma sg_inv_release:
  assumes inv: "sg_inv (S, H)"
  shows "sg_inv (sg_release name S, H)"
proof (cases "map_of (instances S) name")
  case None
  with inv show ?thesis by (simp add: sg_release_def)
next
  case (Some e)
  then have "entry_ok (next_resource S) e"
    using inv by (auto simp: sg_inv_def dest: map_of_SomeD)
  moreover have "owners (instances S) r = owners (smap_erase name (instances S)) r + of_bool (owns e r)" for r
    using inv Some owners_erase [of "instances S" r name] by (simp add: sg_inv_def)
  moreover have "entry_ok (next_resource S) x" if "(k, x) \<in> set (smap_erase name (instances S))" for k x
    using that inv by (auto simp: smap_erase_def sg_inv_def)
  moreover have "e = None \<or> (\<exists>b r. e = Some b \<and> s_instance b = Some r)"
    using calculation(1) by (auto simp: entry_ok_def split: option.splits)
  ultimately show ?thesis
    using inv Some by (auto simp: sg_inv_def sg_release_def owns_def)
qed

lemma count_list_remove1: "r \<in> set H \<Longrightarrow> count_list (remove1 r H) q = count_list H q - of_bool (q = r)"
  by (induction H) (auto simp: count_list_0_iff)

lemma sg_inv_exec:
  assumes "sg_inv s" and "sg_exec op s = (res, s')" and "\<forall>e. res = Inl e \<longrightarrow> \<not> is_undefined e"
  shows "sg_inv s'"
proof -
  obtain S H where s: "s = (S, H)" by force
  show ?thesis
  proof (cases op)
    case (Get ty name mk)
    with assms s show ?thesis using sg_inv_get [of S H ty name mk res s'] by simp
  next
    case (Release name)
    with assms s show ?thesis using sg_inv_release by auto
  next
    case Reset
    show ?thesis
    proof (cases "None \<in> snd ` set (instances S)")
      case True
      from reset_loop_null [OF this, of "S\<lparr>shutdown := True\<rparr>"]
      have "fst (sg_reset S) = Inl (undefined_behaviour null_dereference)"
        by (auto simp: sg_reset_def split: sum.splits prod.splits)
      with assms s Reset show ?thesis by (auto split: prod.splits)
    next
      case False
      have inv: "sg_inv (S, H)"
        using assms(1) s by simp
      from assms(2) s Reset sg_reset_ok [OF inv False]
      have "s' = (S\<lparr>shutdown := True, use_count := count_list H, instances := []\<rparr>, H)"
        by simp
      with inv show ?thesis
        by (simp add: sg_inv_def owners_def)
    qed
  next
    case Set_operational
    with assms s show ?thesis by (auto simp: set_operational_def sg_inv_def)
  next
    case (Drop r)
    have "n + count_list H r - Suc 0 = n + (count_list H r - Suc 0)" if "r \<in> set H" for n
      using that by (cases "count_list H r") (simp_all add: count_list_0_iff)
    with Drop assms s show ?thesis
      by (auto simp: sg_inv_def count_list_remove1 count_list_0_iff dest: notin_set_remove1 split: if_splits)
  qed
qed

lemma sg_inv_run: "sg_run ops s = Some s' \<Longrightarrow> sg_inv s \<Longrightarrow> sg_inv s'"
proof (induction ops arbitrary: s)
  case Nil
  then show ?case by simp
next
  case (Cons op ops)
  obtain res s1 where s1: "sg_exec op s = (res, s1)" by (cases "sg_exec op s") simp
  with Cons.prems have "sg_run ops s1 = Some s'" and "\<forall>e. res = Inl e \<longrightarrow> \<not> is_undefined e"
    by (auto split: sum.splits if_splits)
  with sg_inv_exec [OF Cons.prems(2) s1] show ?case
    by (intro Cons.IH)
qed

lemma sg_inv_start: "sg_inv (sg_start, [])"
  by (simp add: sg_inv_def sg_start_def owners_def)

lemma destroy_frame:
  "instances (destroy_singleton e S) = instances S" "shutdown (destroy_singleton e S) = shutdown S"
proof -
  have "instances (drop_pointer p S) = instances S" and "shutdown (drop_pointer p S) = shutdown S" for p
    by (cases p; simp)+
  then show "instances (destroy_singleton e S) = instances S" "shutdown (destroy_singleton e S) = shutdown S"
    by (cases e; simp)+
qed

lemma sg_exec_keeps:
  assumes "sg_inv (S, H)" and "map_of (instances S) name = Some (Some base)" and "\<not> shutdown S"
    and "op \<noteq> Release name" and "op \<noteq> Reset" and "sg_exec op (S, H) = (res, S', H')"
  shows "map_of (instances S') name = Some (Some base) \<and> \<not> shutdown S'"
proof (cases op)
  case (Get ty n mk)
  show ?thesis
    using assms(2-) Get
    by (cases rule: sg_get_cases [OF assms(1), of ty n mk]) auto
next
  case (Release n)
  with assms show ?thesis
    by (auto simp: sg_release_def destroy_frame split: option.splits)
qed (use assms in \<open>auto simp: set_operational_def split: if_splits\<close>)

lemma sg_run_keeps:
  assumes "sg_run ops (S, H) = Some (S', H')" and "sg_inv (S, H)" and "map_of (instances S) name = Some (Some base)"
    and "\<not> shutdown S" and "Release name \<notin> set ops" and "Reset \<notin> set ops"
  shows "map_of (instances S') name = Some (Some base) \<and> \<not> shutdown S'"
  using assms
proof (induction ops arbitrary: S H)
  case Nil
  then show ?case by simp
next
  case (Cons op ops)
  obtain res S1 H1 where s1: "sg_exec op (S, H) = (res, S1, H1)"
    by (cases "sg_exec op (S, H)") auto
  with Cons.prems(1) have run: "sg_run ops (S1, H1) = Some (S', H')" and ok: "\<forall>e. res = Inl e \<longrightarrow> \<not> is_undefined e"
    by (auto split: sum.splits if_splits)
  have "map_of (instances S1) name = Some (Some base) \<and> \<not> shutdown S1"
    using sg_exec_keeps [OF Cons.prems(2-4) _ _ s1] Cons.prems(5,6) by auto
  with Cons.IH [OF run sg_inv_exec [OF Cons.prems(2) s1 ok]] Cons.prems(5,6) show ?case by auto
qed

lemma sg_get_made:
  assumes "sg_inv (S, H)" and "sg_get ty name mk S = (Inr (Some r), S')"
  shows "\<exists>base. map_of (instances S') name = Some (Some base) \<and> s_type base = ty \<and> s_instance base = Some r \<and>
    \<not> shutdown S' \<and> sg_inv (S', r # H)"
proof -
  have "\<exists>base. map_of (instances S') name = Some (Some base) \<and> s_type base = ty \<and> s_instance base = Some r \<and>
      \<not> shutdown S'"
    using assms(2) by (cases rule: sg_get_cases [OF assms(1), of ty name mk]) auto
  moreover have "sg_inv (S', r # H)"
    using sg_inv_get [OF assms(1), of ty name mk] assms(2) by simp
  ultimately show ?thesis by blast
qed

section \<open>Properties\<close>

text \<open>C14. One instance per name. From the program start, after any operations that the client gets through: when
  \<open>get\<close> has returned a resource for a name, it returns the same resource for that name and type as long as
  nobody releases the name or resets all singletons, whatever other operations happen in between; and asking for the
  name with another type throws and changes nothing.\<close>

theorem singleton_unique:
  assumes "sg_run before (sg_start, []) = Some (S, H)"
    and "sg_get ty name mk S = (Inr (Some r), S1)"
    and "sg_run between (S1, r # H) = Some (S2, H2)"
    and "Release name \<notin> set between" and "Reset \<notin> set between"
  shows "sg_get ty name mk' S2 = (Inr (Some r), acquire (Some r) S2) \<and>
    (ty' \<noteq> ty \<longrightarrow> sg_get ty' name mk' S2 = (Inl incompatible, S2))"
proof -
  have "sg_inv (S, H)"
    using sg_inv_run [OF assms(1) sg_inv_start] .
  from sg_get_made [OF this assms(2)] obtain base
    where base: "map_of (instances S1) name = Some (Some base)" "s_type base = ty" "s_instance base = Some r"
      and up: "\<not> shutdown S1" and inv: "sg_inv (S1, r # H)" by blast
  from sg_run_keeps [OF assms(3) inv base(1) up assms(4,5)]
  have "map_of (instances S2) name = Some (Some base)" and "\<not> shutdown S2" by auto
  then show ?thesis
    using base by (simp add: sg_get_def get_derived_def smap_insert_def)
qed

definition demo_sg :: "nat singleton_control" where
  "demo_sg = snd (sg_get 7 ''log'' (Inr ()) sg_start)"

lemmas demo_sg_simps = sg_get_def singleton_ctor_def get_derived_def sg_start_def smap_insert_def smap_assign_def

theorem singleton_unique_witness:
  "fst (sg_get 7 ''log'' (Inl std_bad_alloc) (sg_release ''other'' demo_sg)) = Inr (Some 0)"
proof -
  have get: "sg_get 7 ''log'' (Inr ()) sg_start = (Inr (Some 0), demo_sg)"
    by (simp add: demo_sg_def demo_sg_simps)
  have rest: "sg_run [Release ''other''] (demo_sg, [0]) = Some (sg_release ''other'' demo_sg, [0])"
    by simp
  have "sg_get 7 ''log'' (Inl std_bad_alloc) (sg_release ''other'' demo_sg)
      = (Inr (Some 0), acquire (Some 0) (sg_release ''other'' demo_sg))"
    by (rule conjunct1 [OF singleton_unique [OF sg_run.simps(1) get rest]]) simp_all
  then show ?thesis by (simp only: fst_conv)
qed

text \<open>Controlled destruction. From the program start, unless a constructor has thrown: \<open>singleton_control::reset\<close>
  succeeds and leaves exactly the resources alive that the client itself still holds pointers to, each with that many
  owners; every later \<open>get\<close> returns a null pointer and creates nothing until \<open>set_operational\<close>.\<close>

lemma singleton_reset_destroys:
  assumes "sg_run ops (sg_start, []) = Some (S, H)" and "None \<notin> snd ` set (instances S)"
  shows "\<exists>S'. sg_reset S = (Inr (), S') \<and> instances S' = [] \<and> use_count S' = count_list H \<and>
    sg_get ty name mk S' = (Inr None, S')"
  using sg_reset_ok [OF sg_inv_run [OF assms(1) sg_inv_start] assms(2)]
  by (simp add: sg_get_def)

lemma singleton_reset_destroys_witness:
  "\<exists>S'. sg_reset demo_sg = (Inr (), S') \<and> instances S' = [] \<and> use_count S' = count_list [0] \<and>
     sg_get 7 ''log'' (Inr ()) S' = (Inr None, S')"
proof (rule singleton_reset_destroys)
  show "sg_run [Get 7 ''log'' (Inr ())] (sg_start, []) = Some (demo_sg, [0])"
    by (simp add: demo_sg_def demo_sg_simps)
  show "None \<notin> snd ` set (instances demo_sg)"
    by (simp add: demo_sg_def demo_sg_simps)
qed

text \<open>A throwing constructor poisons the shutdown. \<open>get\<close> makes the map entry before it constructs the resource, so
  an exception of the constructor leaves an entry with a null pointer behind, and the next \<open>reset\<close> dereferences it.\<close>

lemma throwing_constructor_breaks_reset:
  assumes "sg_run ops (sg_start, []) = Some (S, H)" and "\<not> shutdown S" and "map_of (instances S) name = None"
  shows "\<exists>S'. sg_get ty name (Inl e) S = (Inl e, S') \<and>
    fst (sg_reset S') = Inl (undefined_behaviour null_dereference)"
proof -
  have "map_of (smap_insert name None (instances S)) name = Some None"
    using assms(3) by simp
  from map_of_SomeD [OF this] have "None \<in> snd ` set (smap_insert name None (instances S))"
    by force
  from reset_loop_null [OF this, of "S\<lparr>instances := smap_insert name None (instances S), shutdown := True\<rparr>"]
  show ?thesis
    using assms(2,3) by (auto simp: sg_get_def singleton_ctor_def sg_reset_def split: prod.splits sum.splits)
qed

lemma throwing_constructor_breaks_reset_witness:
  "\<exists>S'. sg_get (7 :: nat) ''log'' (Inl std_bad_alloc) sg_start = (Inl std_bad_alloc, S') \<and>
     fst (sg_reset S') = Inl (undefined_behaviour null_dereference)"
  by (rule throwing_constructor_breaks_reset [of "[]" _ "[]"]) (simp_all add: sg_start_def)

end
