(* ===== verification/Thread_Safe.thy ===== *)
theory Thread_Safe
  imports Std_Map
begin

text \<open>
  \<^verbatim>\<open>container/thread_safe_container.hpp\<close>, \<^verbatim>\<open>thread_safe_map.hpp\<close>, \<^verbatim>\<open>thread_safe_set.hpp\<close> and
  \<^verbatim>\<open>lifecycle/scoped_set.hpp\<close>. The mutex is recursive, so it orders the calls of different threads but lets the
  same thread in again: a destructor, constructor or comparison of an element, run by the container in the middle
  of a call, may call back into the container. \<open>_is_being_modified\<close> is there to refuse that.

  The model is one thread. The user code that runs inside a call is the argument \<open>hook\<close>, a function on the state;
  \<open>in_call\<close> records that the standard container is in the middle of a modification, and a second
  modification then is undefined. Exceptions of the user code stay inside it. A \<open>std::set\<close> is a map to \<open>unit\<close>;
  an iterator is the key it points to, \<open>None\<close> for \<open>end()\<close>.
\<close>

record 'c tsc =
  ts_container :: 'c
  is_being_modified :: bool
  in_call :: bool

type_synonym ('c, 'r) call = "'c tsc \<Rightarrow> 'r result \<times> 'c tsc"

definition ts_new :: "'c \<Rightarrow> 'c tsc" where
  "ts_new c = \<lparr>ts_container = c, is_being_modified = False, in_call = False\<rparr>"

section \<open>Scoped assignment of the flag\<close>

definition scoped_set_ctor :: "bool \<Rightarrow> 'c tsc \<Rightarrow> bool \<times> 'c tsc" where
  "scoped_set_ctor new_val S = (is_being_modified S, S\<lparr>is_being_modified := new_val\<rparr>)"

definition scoped_set_dtor :: "bool \<Rightarrow> 'c tsc \<Rightarrow> 'c tsc" where
  "scoped_set_dtor old_value S = S\<lparr>is_being_modified := old_value\<rparr>"

text \<open>A named object lives to the end of the block, an unnamed one to the end of its own statement.\<close>

definition with_scoped_set :: "bool \<Rightarrow> ('c, 'r) call \<Rightarrow> ('c, 'r) call" where
  "with_scoped_set new_val body S =
     (case scoped_set_ctor new_val S of (old_value, S1) \<Rightarrow>
       (case body S1 of (r, S2) \<Rightarrow> (r, scoped_set_dtor old_value S2)))"

definition after_scoped_set :: "bool \<Rightarrow> ('c, 'r) call \<Rightarrow> ('c, 'r) call" where
  "after_scoped_set new_val body S =
     (case scoped_set_ctor new_val S of (old_value, S1) \<Rightarrow> body (scoped_set_dtor old_value S1))"

section \<open>The container\<close>

definition guarded :: "string \<Rightarrow> ('c, 'r) call \<Rightarrow> ('c, 'r) call" where
  "guarded msg body S = (if is_being_modified S then (Inl (runtime_error msg), S) else body S)"

text \<open>A modifying call of the standard container, with the user code it runs.\<close>

definition std_call :: "('c, unit) call \<Rightarrow> ('c \<Rightarrow> 'r \<times> 'c) \<Rightarrow> ('c, 'r) call" where
  "std_call hook f S =
     (if in_call S then (Inl (undefined_behaviour reentrant_modification), S)
      else (case hook (S\<lparr>in_call := True\<rparr>) of
              (Inl e, S1) \<Rightarrow>
                if is_undefined e then (Inl e, S1)
                else (case f (ts_container S1) of (r, c) \<Rightarrow> (Inr r, S1\<lparr>ts_container := c, in_call := False\<rparr>))
            | (Inr _, S1) \<Rightarrow> (case f (ts_container S1) of (r, c) \<Rightarrow> (Inr r, S1\<lparr>ts_container := c, in_call := False\<rparr>))))"

definition get_lock_guard :: "('c, unit) call" where
  "get_lock_guard = guarded ''cbeam::container::thread_safe_container::get_lock_guard: not allowed during destruction of the container.''
     (\<lambda>S. (Inr (), S))"

definition tsc_dtor :: "'c tsc \<Rightarrow> 'c tsc" where
  "tsc_dtor S = S\<lparr>is_being_modified := True\<rparr>"

definition tsc_clear :: "('a list, unit) call \<Rightarrow> ('a list, unit) call" where
  "tsc_clear hook = guarded ''cbeam::container::thread_safe_container::clear: not allowed during modification of the container.''
     (with_scoped_set True (std_call hook (\<lambda>c. ((), []))))"

definition tsc_empty :: "'a list tsc \<Rightarrow> bool" where
  "tsc_empty S = (ts_container S = [])"

definition tsc_size :: "'a list tsc \<Rightarrow> nat" where
  "tsc_size S = length (ts_container S)"

definition tsc_begin :: "('k \<times> 'v) list tsc \<Rightarrow> 'k option" where
  "tsc_begin S = (case ts_container S of [] \<Rightarrow> None | e # _ \<Rightarrow> Some (fst e))"

section \<open>The map\<close>

definition tsm_at :: "'k \<Rightarrow> string \<Rightarrow> (('k, 'v) smap, 'v) call" where
  "tsm_at key what_arg = guarded ''cbeam::container::thread_safe_map::at: not allowed during destruction of the map.''
     (\<lambda>S. (case map_of (ts_container S) key of Some v \<Rightarrow> Inr v | None \<Rightarrow> Inl (out_of_range what_arg), S))"

definition tsm_find :: "'k \<Rightarrow> string \<Rightarrow> (('k, 'v) smap, 'k option) call" where
  "tsm_find key what_arg = guarded ''cbeam::container::thread_safe_map::find: not allowed during modification of the map.''
     (\<lambda>S. if what_arg \<noteq> [] \<and> map_of (ts_container S) key = None then (Inl (out_of_range what_arg), S)
          else (Inr (if map_of (ts_container S) key = None then None else Some key), S))"

text \<open>\<open>operator[]\<close> makes the element when it is missing; it does not set the flag.\<close>

definition tsm_index :: "'k::linorder \<Rightarrow> 'v \<Rightarrow> (('k, 'v) smap, unit) call \<Rightarrow> (('k, 'v) smap, 'v) call" where
  "tsm_index key dflt hook = guarded ''cbeam::container::thread_safe_map::operator[]: not allowed during modification of the map.''
     (std_call hook (\<lambda>c. (case map_of c key of Some v \<Rightarrow> v | None \<Rightarrow> dflt, smap_insert key dflt c)))"

definition tsm_erase :: "'k \<Rightarrow> (('k, 'v) smap, unit) call \<Rightarrow> (('k, 'v) smap, nat) call" where
  "tsm_erase key hook = guarded ''cbeam::container::thread_safe_map::erase: not allowed during modification of the map.''
     (after_scoped_set True (std_call hook (\<lambda>c. (smap_count key c, smap_erase key c))))"

fun next_key :: "'k \<Rightarrow> ('k, 'v) smap \<Rightarrow> 'k option" where
  "next_key key [] = None"
| "next_key key (e # m) =
     (if fst e = key then (case m of [] \<Rightarrow> None | e' # _ \<Rightarrow> Some (fst e')) else next_key key m)"

text \<open>Erasing at \<open>end()\<close> or at a position of an element that is gone is undefined.\<close>

definition tsm_erase_at :: "'k option \<Rightarrow> (('k, 'v) smap, unit) call \<Rightarrow> (('k, 'v) smap, 'k option) call" where
  "tsm_erase_at position hook = guarded ''cbeam::container::thread_safe_map::erase: not allowed during modification of the map.''
     (with_scoped_set True
       (\<lambda>S. case position of
              None \<Rightarrow> (Inl (undefined_behaviour out_of_bounds), S)
            | Some key \<Rightarrow>
                if map_of (ts_container S) key = None then (Inl (undefined_behaviour use_after_free), S)
                else std_call hook (\<lambda>c. (next_key key c, smap_erase key c)) S))"

definition tsm_count :: "'k \<Rightarrow> ('k, 'v) smap tsc \<Rightarrow> nat" where
  "tsm_count key S = smap_count key (ts_container S)"

definition tsm_insert :: "'k::linorder \<Rightarrow> 'v \<Rightarrow> (('k, 'v) smap, unit) call \<Rightarrow> (('k, 'v) smap, 'k \<times> bool) call" where
  "tsm_insert key v hook = guarded ''cbeam::container::thread_safe_map::insert: not allowed during modification of the map.''
     (with_scoped_set True (std_call hook (\<lambda>c. ((key, map_of c key = None), smap_insert key v c))))"

section \<open>The set\<close>

definition tss_emplace :: "'k::linorder \<Rightarrow> (('k, unit) smap, unit) call \<Rightarrow> (('k, unit) smap, 'k \<times> bool) call" where
  "tss_emplace v hook = guarded ''cbeam::container::thread_safe_set::emplace: not allowed during modification of the set.''
     (with_scoped_set True (std_call hook (\<lambda>c. ((v, map_of c v = None), smap_insert v () c))))"

definition tss_insert :: "'k::linorder \<Rightarrow> (('k, unit) smap, unit) call \<Rightarrow> (('k, unit) smap, bool) call" where
  "tss_insert v hook = guarded ''cbeam::container::thread_safe_set::insert: not allowed during modification of the set.''
     (after_scoped_set True (std_call hook (\<lambda>c. (map_of c v = None, smap_insert v () c))))"

definition tss_erase :: "'k \<Rightarrow> (('k, unit) smap, unit) call \<Rightarrow> (('k, unit) smap, bool) call" where
  "tss_erase v hook = guarded ''cbeam::container::thread_safe_set::erase: not allowed during modification of the set.''
     (after_scoped_set True (std_call hook (\<lambda>c. (smap_count v c > 0, smap_erase v c))))"

definition tss_contains :: "'k \<Rightarrow> ('k, unit) smap tsc \<Rightarrow> bool" where
  "tss_contains v S \<longleftrightarrow> map_of (ts_container S) v \<noteq> None"

section \<open>User code that calls back\<close>

text \<open>The calls of a piece of user code, each of which may itself run user code. The arguments are as above.\<close>

datatype ('k, 'v) tsm_op =
    Ts_At 'k string
  | Ts_Find 'k string
  | Ts_Index 'k 'v "('k, 'v) tsm_op list"
  | Ts_Erase 'k "('k, 'v) tsm_op list"
  | Ts_Erase_At "'k option" "('k, 'v) tsm_op list"
  | Ts_Insert 'k 'v "('k, 'v) tsm_op list"
  | Ts_Clear "('k, 'v) tsm_op list"
  | Ts_Lock

definition forget :: "('c, 'r) call \<Rightarrow> ('c, unit) call" where
  "forget f S = (case f S of (Inl e, S') \<Rightarrow> (Inl e, S') | (Inr _, S') \<Rightarrow> (Inr (), S'))"

fun run_calls :: "('c, unit) call list \<Rightarrow> ('c, unit) call" where
  "run_calls [] S = (Inr (), S)"
| "run_calls (f # fs) S =
     (case f S of
        (Inl e, S') \<Rightarrow> if is_undefined e then (Inl e, S') else run_calls fs S'
      | (Inr _, S') \<Rightarrow> run_calls fs S')"

primrec tsm_exec :: "('k::linorder, 'v) tsm_op \<Rightarrow> (('k, 'v) smap, unit) call" where
  "tsm_exec (Ts_At k what) = forget (tsm_at k what)"
| "tsm_exec (Ts_Find k what) = forget (tsm_find k what)"
| "tsm_exec (Ts_Index k v ops) = forget (tsm_index k v (run_calls (map tsm_exec ops)))"
| "tsm_exec (Ts_Erase k ops) = forget (tsm_erase k (run_calls (map tsm_exec ops)))"
| "tsm_exec (Ts_Erase_At p ops) = forget (tsm_erase_at p (run_calls (map tsm_exec ops)))"
| "tsm_exec (Ts_Insert k v ops) = forget (tsm_insert k v (run_calls (map tsm_exec ops)))"
| "tsm_exec (Ts_Clear ops) = forget (tsc_clear (run_calls (map tsm_exec ops)))"
| "tsm_exec Ts_Lock = forget get_lock_guard"

lemma guarded_refuses: "is_being_modified S \<Longrightarrow> guarded msg f S = (Inl (runtime_error msg), S)"
  by (simp add: guarded_def)

lemmas guarded_calls = tsm_at_def tsm_find_def tsm_index_def tsm_erase_def tsm_erase_at_def tsm_insert_def
  tsc_clear_def get_lock_guard_def tss_emplace_def tss_insert_def tss_erase_def

text \<open>While the flag is set, every call of the user code is refused and the container stays as it is.\<close>

lemma exec_refused:
  assumes "is_being_modified S"
  shows "\<exists>msg. tsm_exec op S = (Inl (runtime_error msg), S)"
  using assms by (cases op) (auto simp: forget_def guarded_calls guarded_refuses)

lemma run_calls_refused: "is_being_modified S \<Longrightarrow> run_calls (map tsm_exec ops) S = (Inr (), S)"
proof (induction ops)
  case Nil
  then show ?case by simp
next
  case (Cons op ops)
  then show ?case
    using exec_refused [of S op] by auto
qed

lemma with_scoped_std_call:
  assumes "\<not> in_call S" and "\<And>S'. is_being_modified S' \<Longrightarrow> hook S' = (Inr (), S')"
  shows "with_scoped_set True (std_call hook f) S =
    (Inr (fst (f (ts_container S))), S\<lparr>ts_container := snd (f (ts_container S))\<rparr>)"
  using assms
  by (cases S) (simp add: with_scoped_set_def scoped_set_ctor_def scoped_set_dtor_def std_call_def split: prod.split)



text \<open>The unnamed guard object. \<open>erase\<close> by key creates its \<open>scoped_set\<close> as an unnamed temporary, so the flag is clear again when
  the element is destroyed: user code of the element that calls back modifies the \<open>std::map\<close> in the middle of its
  own \<open>erase\<close>. The same call by position is refused.\<close>

lemma erase_by_key_unguarded:
  assumes "\<not> is_being_modified S" and "\<not> in_call S"
  shows "fst (tsm_erase k (run_calls (map tsm_exec [Ts_Insert k' v []])) S) = Inl (undefined_behaviour reentrant_modification) \<and>
    fst (tsm_erase_at (Some k) (run_calls (map tsm_exec [Ts_Insert k' v []])) S) \<noteq> Inl (undefined_behaviour reentrant_modification)"
  using assms
  by (simp add: tsm_erase_def tsm_erase_at_def tsm_insert_def guarded_def after_scoped_set_def with_scoped_set_def
      scoped_set_ctor_def scoped_set_dtor_def std_call_def forget_def)

lemma erase_by_key_unguarded_witness:
  "fst (tsm_erase 1 (run_calls (map tsm_exec [Ts_Insert 2 ''b'' []])) (ts_new [(1 :: nat, ''a'')]))
   = Inl (undefined_behaviour reentrant_modification)"
  using erase_by_key_unguarded [of "ts_new [(1 :: nat, ''a'')]" 1 2 "''b''"] by (simp add: ts_new_def)

end
