(* ===== verification/Pointer.thy ===== *)
theory Pointer
  imports Stable_Reference_Buffer
begin

text \<open>
  \<^verbatim>\<open>memory/pointer.hpp\<close>: a raw pointer that holds a reference to its memory when the memory is that of a
  \<open>stable_reference_buffer\<close> or of a \<open>std::shared_ptr\<close>.

  The \<open>stable_reference_buffer\<close> objects that \<open>_mem\<close> points to live in the pool \<open>pw_srbs\<close>, each with the number of
  the \<open>shared_ptr\<close>s to it; the last of these runs the destructor of the object. For \<open>_holder\<close>,
  \<open>pw_holders\<close> counts the owners of each object of the caller. Copying and destroying a pointer are the operations
  C++ generates.
\<close>

record pointer =
  p_ptr :: addr
  p_mem :: "nat option"
  p_holder :: "nat option"

record pworld =
  pw_world :: world
  pw_srbs :: "nat \<rightharpoonup> buffer \<times> nat"
  pw_next :: nat
  pw_holders :: "nat \<Rightarrow> nat"

definition pointer_default :: pointer where
  "pointer_default = \<lparr>p_ptr = nullptr, p_mem = None, p_holder = None\<rparr>"

section \<open>Shared pointers\<close>

text \<open>\<open>std::make_shared\<close> of a buffer object that a constructor has made, or the exception of that constructor.\<close>

definition make_shared_srb :: "buffer result \<times> world \<Rightarrow> pworld \<Rightarrow> nat result \<times> pworld" where
  "make_shared_srb made W =
     (case made of
        (Inl e, w) \<Rightarrow> (Inl e, W\<lparr>pw_world := w\<rparr>)
      | (Inr b, w) \<Rightarrow>
          (Inr (pw_next W),
           W\<lparr>pw_world := w, pw_srbs := (pw_srbs W)(pw_next W \<mapsto> (b, 1)), pw_next := pw_next W + 1\<rparr>))"

definition share_mem :: "nat option \<Rightarrow> pworld \<Rightarrow> pworld" where
  "share_mem mem W =
     (case mem of
        None \<Rightarrow> W
      | Some i \<Rightarrow>
          (case pw_srbs W i of None \<Rightarrow> W | Some (b, n) \<Rightarrow> W\<lparr>pw_srbs := (pw_srbs W)(i \<mapsto> (b, n + 1))\<rparr>))"

definition drop_mem :: "nat option \<Rightarrow> pworld \<Rightarrow> unit result \<times> pworld" where
  "drop_mem mem W =
     (case mem of
        None \<Rightarrow> (Inr (), W)
      | Some i \<Rightarrow>
          (case pw_srbs W i of
             None \<Rightarrow> (Inl (undefined_behaviour use_after_free), W)
           | Some (b, n) \<Rightarrow>
               if n > 1 then (Inr (), W\<lparr>pw_srbs := (pw_srbs W)(i \<mapsto> (b, n - 1))\<rparr>)
               else (case srb_dtor (b, pw_world W) of
                       (r, w) \<Rightarrow> (r, W\<lparr>pw_world := w, pw_srbs := (pw_srbs W)(i := None)\<rparr>))))"

definition share_holder :: "nat option \<Rightarrow> pworld \<Rightarrow> pworld" where
  "share_holder holder W =
     (case holder of None \<Rightarrow> W | Some x \<Rightarrow> W\<lparr>pw_holders := (pw_holders W)(x := pw_holders W x + 1)\<rparr>)"

definition drop_holder :: "nat option \<Rightarrow> pworld \<Rightarrow> pworld" where
  "drop_holder holder W =
     (case holder of None \<Rightarrow> W | Some x \<Rightarrow> W\<lparr>pw_holders := (pw_holders W)(x := pw_holders W x - 1)\<rparr>)"

section \<open>Construction and destruction\<close>

definition pointer_from_raw :: "addr \<Rightarrow> pworld \<Rightarrow> pointer result \<times> pworld" where
  "pointer_from_raw ptr W =
     (case srb_is_known ptr (pw_world W) of
        Inl e \<Rightarrow> (Inl e, W)
      | Inr known \<Rightarrow>
          if known
          then (case make_shared_srb (srb_from_address ptr (pw_world W)) W of
                  (Inl e, W') \<Rightarrow> (Inl e, W')
                | (Inr i, W') \<Rightarrow> (Inr \<lparr>p_ptr = ptr, p_mem = Some i, p_holder = None\<rparr>, W'))
          else (Inr \<lparr>p_ptr = ptr, p_mem = None, p_holder = None\<rparr>, W))"

definition pointer_from_string :: "string \<Rightarrow> pworld \<Rightarrow> pointer result \<times> pworld" where
  "pointer_from_string str_ptr W =
     (case ptr_from_string str_ptr of Inl e \<Rightarrow> (Inl e, W) | Inr p \<Rightarrow> pointer_from_raw p W)"

definition pointer_from_srb :: "buffer \<Rightarrow> pworld \<Rightarrow> pointer result \<times> pworld" where
  "pointer_from_srb mem W =
     (case make_shared_srb (srb_copy_ctor mem (pw_world W)) W of
        (Inl e, W') \<Rightarrow> (Inl e, W')
      | (Inr i, W') \<Rightarrow> (Inr \<lparr>p_ptr = buf_ptr mem, p_mem = Some i, p_holder = None\<rparr>, W'))"

text \<open>From a \<open>shared_ptr\<close> to object \<open>x\<close> of the caller, which is at address \<open>ptr\<close>.\<close>

definition pointer_from_shared :: "addr \<Rightarrow> nat \<Rightarrow> pworld \<Rightarrow> pointer \<times> pworld" where
  "pointer_from_shared ptr x W = (\<lparr>p_ptr = ptr, p_mem = None, p_holder = Some x\<rparr>, share_holder (Some x) W)"

definition pointer_copy_ctor :: "pointer \<Rightarrow> pworld \<Rightarrow> pointer \<times> pworld" where
  "pointer_copy_ctor other W = (other, share_holder (p_holder other) (share_mem (p_mem other) W))"

definition pointer_dtor :: "pointer \<Rightarrow> pworld \<Rightarrow> unit result \<times> pworld" where
  "pointer_dtor p W = drop_mem (p_mem p) (drop_holder (p_holder p) W)"

section \<open>Assignment and conversions\<close>

definition pointer_assign :: "bool \<Rightarrow> pointer \<Rightarrow> pointer \<times> pworld \<Rightarrow> unit result \<times> pointer \<times> pworld" where
  "pointer_assign is_self other s =
     (case s of (p, W) \<Rightarrow>
       if is_self then (Inr (), p, W)
       else
         (let p1 = p\<lparr>p_ptr := p_ptr other, p_holder := p_holder other\<rparr>;
              W1 = drop_holder (p_holder p) (share_holder (p_holder other) W)
          in case p_mem other of
               Some i \<Rightarrow>
                 (case pw_srbs W1 i of
                    None \<Rightarrow> (Inl (undefined_behaviour use_after_free), p1, W1)
                  | Some (b, _) \<Rightarrow>
                      (case make_shared_srb (srb_copy_ctor b (pw_world W1)) W1 of
                         (Inl e, W2) \<Rightarrow> (Inl e, p1, W2)
                       | (Inr j, W2) \<Rightarrow>
                           (case drop_mem (p_mem p1) W2 of (r, W3) \<Rightarrow> (r, p1\<lparr>p_mem := Some j\<rparr>, W3))))
             | None \<Rightarrow> (case drop_mem (p_mem p1) W1 of (r, W2) \<Rightarrow> (r, p1\<lparr>p_mem := None\<rparr>, W2))))"

definition pointer_is_managed :: "pointer \<Rightarrow> bool" where
  "pointer_is_managed p \<longleftrightarrow> p_mem p \<noteq> None"

definition pointer_to_raw :: "pointer \<Rightarrow> addr" where
  "pointer_to_raw p = p_ptr p"

definition pointer_to_string :: "pointer \<Rightarrow> string" where
  "pointer_to_string p = ptr_to_string (p_ptr p)"

definition pointer_to_srb :: "pointer \<Rightarrow> pworld \<Rightarrow> buffer result \<times> pworld" where
  "pointer_to_srb p W =
     (case p_mem p of
        None \<Rightarrow>
          (Inl (runtime_error (''cbeam::pointer(\"'' @ pointer_to_string p @
             ''\") is not an cbeam::container::stable_reference_buffer'')), W)
      | Some i \<Rightarrow>
          (case pw_srbs W i of
             None \<Rightarrow> (Inl (undefined_behaviour use_after_free), W)
           | Some (b, _) \<Rightarrow>
               (case srb_copy_ctor b (pw_world W) of (r, w) \<Rightarrow> (r, W\<lparr>pw_world := w\<rparr>))))"

section \<open>Comparison\<close>

definition pointer_eq :: "pointer \<Rightarrow> pointer \<Rightarrow> bool" where
  "pointer_eq lhs rhs \<longleftrightarrow> pointer_to_raw lhs = pointer_to_raw rhs"

definition pointer_neq :: "pointer \<Rightarrow> pointer \<Rightarrow> bool" where
  "pointer_neq lhs rhs \<longleftrightarrow> \<not> pointer_eq lhs rhs"

definition pointer_less :: "pointer \<Rightarrow> pointer \<Rightarrow> bool" where
  "pointer_less lhs rhs \<longleftrightarrow> pointer_to_raw lhs < pointer_to_raw rhs"

definition pointer_less_eq :: "pointer \<Rightarrow> pointer \<Rightarrow> bool" where
  "pointer_less_eq lhs rhs \<longleftrightarrow> pointer_eq lhs rhs \<or> pointer_less lhs rhs"

definition pointer_greater :: "pointer \<Rightarrow> pointer \<Rightarrow> bool" where
  "pointer_greater lhs rhs \<longleftrightarrow> \<not> pointer_less_eq lhs rhs"

definition pointer_greater_eq :: "pointer \<Rightarrow> pointer \<Rightarrow> bool" where
  "pointer_greater_eq lhs rhs \<longleftrightarrow> \<not> pointer_less lhs rhs"

text \<open>The six operators are those of one linear order on the addresses.\<close>

lemma pointer_order:
  "pointer_less_eq a b \<longleftrightarrow> p_ptr a \<le> p_ptr b" "pointer_greater a b \<longleftrightarrow> p_ptr b < p_ptr a"
  "pointer_greater_eq a b \<longleftrightarrow> p_ptr b \<le> p_ptr a" "pointer_neq a b \<longleftrightarrow> p_ptr a \<noteq> p_ptr b"
  by (auto simp: pointer_less_eq_def pointer_eq_def pointer_less_def pointer_greater_def pointer_greater_eq_def
      pointer_neq_def pointer_to_raw_def)

section \<open>Lifetime\<close>

lemma srb_dtor_effect:
  assumes "world_inv F K n w" and "buf_ptr b \<noteq> nullptr \<Longrightarrow> 0 < K (buf_ptr b)"
  obtains w' where "srb_dtor (b, w) = (Inr (), w')"
    and "world_inv F (K(buf_ptr b := K (buf_ptr b) - 1)) n w'"
    and "w_heap w' = (if K (buf_ptr b) = 1 then (w_heap w)(buf_ptr b := None) else w_heap w)"
proof (rule srb_reset_effect [OF assms])
  fix w'
  assume "srb_reset (b, w) = (Inr (), buffer_default, w')"
    and "world_inv F (K(buf_ptr b := K (buf_ptr b) - 1)) n w'"
    and "w_heap w' = (if K (buf_ptr b) = 1 then (w_heap w)(buf_ptr b := None) else w_heap w)"
  moreover from this(1) have "srb_dtor (b, w) = (Inr (), w')"
    by (simp add: srb_dtor_def buffer_dtor_def buffer_reset_def buffer_default_def heap_free_def)
  ultimately show thesis
    using that by blast
qed simp_all

lemma pointer_from_raw_managed:
  assumes "world_inv F K n (pw_world W)" and "p \<noteq> nullptr" and "0 < K p" and "Suc (K p) < 2 ^ 31"
  obtains w' where "world_inv F (K(p := Suc (K p))) n w'" and "w_heap w' = w_heap (pw_world W)"
    and "pointer_from_raw p W = (Inr \<lparr>p_ptr = p, p_mem = Some (pw_next W), p_holder = None\<rparr>,
      W\<lparr>pw_world := w', pw_srbs := (pw_srbs W)(pw_next W \<mapsto> (\<lparr>buf_size = 0, buf_ptr = p\<rparr>, 1)), pw_next := pw_next W + 1\<rparr>)"
proof -
  have "srb_is_known p (pw_world W) = Inr True"
    using is_known_iff [OF assms(1)] assms(2,3) by simp
  moreover obtain t where "ipm_update uc_traits p incr
        (''cbeam::container::container::stable_reference_buffer: memory address '' @
         ptr_to_string p @ '' was not created by cbeam::stable_reference_buffer'') (w_table (pw_world W))
      = (Inr (of_nat (Suc (K p))), t)"
    and inv: "world_inv F (K(p := Suc (K p))) n ((pw_world W)\<lparr>w_table := t\<rparr>)"
    using acquire [OF assms] by blast
  ultimately show thesis
    by (intro that [OF inv])
      (simp_all add: pointer_from_raw_def srb_from_address_def make_shared_srb_def buffer_default_def Let_def)
qed


definition demo_pworld :: pworld where
  "demo_pworld = \<lparr>pw_world = snd (srb_register \<lparr>buf_size = 2, buf_ptr = 16\<rparr> \<lparr>w_heap = [16 \<mapsto> [1, 2]], w_table = shm_create 64\<rparr>),
     pw_srbs = Map.empty, pw_next = 0, pw_holders = \<lambda>_. 0\<rparr>"

lemma demo_pworld_ok: "world_inv Map.empty ((\<lambda>_. 0)(16 := 1)) 0 (pw_world demo_pworld)"
proof -
  let ?w = "\<lparr>w_heap = Map.empty, w_table = shm_create 64\<rparr>"
  have inv: "world_inv Map.empty (\<lambda>_. 0) 0 ?w"
    by (simp add: world_inv_def heap_ok_def shm_create_view size_limit_def)
  have "room ?w"
    by (simp add: room_def shm_create_view size_limit_def)
  from srb_register_effect [OF inv, of "\<lparr>buf_size = 2, buf_ptr = 16\<rparr>" "[1, 2]", OF _ _ this]
  obtain w' where "srb_register \<lparr>buf_size = 2, buf_ptr = 16\<rparr> (?w\<lparr>w_heap := [16 \<mapsto> [1, 2]]\<rparr>) = (Inr \<lparr>buf_size = 2, buf_ptr = 16\<rparr>, w')"
    and "world_inv Map.empty ((\<lambda>_. 0)(16 := Suc 0)) 0 w'"
    by (auto simp: size_limit_def)
  then show ?thesis
    by (simp add: demo_pworld_def)
qed


end
