(* ===== verification/Json.thy ===== *)
theory Json
  imports Nested_Map Buffer
begin

text \<open>
  \<^verbatim>\<open>include/cbeam/json\<close>: the writer of JSON-like text. As in \<^verbatim>\<open>Serialization\<close>, a writer is the list of
  the chunks it passes to \<open>append\<close>, here of characters. \<open>convert::to_string\<close> of a plain value is the argument
  \<open>show\<close>.

  There is no reader in the library; what makes the text useful is that it determines the table it was written
  from, which is proved for tables of strings nested to any depth.
\<close>

definition escape_character :: char where
  "escape_character = CHR 0x5C"

definition quote_char :: char where
  "quote_char = CHR 0x22"

text \<open>Backslash, quote, carriage return, newline, tab, form feed, backspace.\<close>

definition characters_to_escape :: string where
  "characters_to_escape = [escape_character, quote_char, CHR 0x0D, newline_char, tab_char, CHR 0x0C, CHR 0x08]"

definition json_string :: "string \<Rightarrow> string list" where
  "json_string str = [[quote_char], escape_string str escape_character characters_to_escape, [quote_char]]"

definition json_plain :: "('a \<Rightarrow> string) \<Rightarrow> 'a \<Rightarrow> string list" where
  "json_plain show v =
     [[quote_char], escape_string (show v) escape_character characters_to_escape, [quote_char]]"

text \<open>The entries of a map, each a key with the chunks of its value; \<open>first\<close> is the local variable of the loop.\<close>

fun json_entries :: "('k \<Rightarrow> string list) \<Rightarrow> bool \<Rightarrow> ('k \<times> string list) list \<Rightarrow> string list" where
  "json_entries serk first [] = []"
| "json_entries serk first ((k, v) # es) =
     (if first then [] else ['','']) @ serk k @ ['':''] @ v @ json_entries serk False es"

definition json_map_entries :: "('k \<Rightarrow> string list) \<Rightarrow> ('v \<Rightarrow> string list) \<Rightarrow> ('k, 'v) smap \<Rightarrow> string list" where
  "json_map_entries serk serv m = json_entries serk True (map (map_prod id serv) m)"

definition json_map :: "('k \<Rightarrow> string list) \<Rightarrow> ('v \<Rightarrow> string list) \<Rightarrow> ('k, 'v) smap \<Rightarrow> string list" where
  "json_map serk serv m = [''{''] @ json_map_entries serk serv m @ [''}'']"

text \<open>After the values, \<open>first\<close> still holds when there was none.\<close>

primrec json_nested ::
  "('k \<Rightarrow> string list) \<Rightarrow> ('v \<Rightarrow> string list) \<Rightarrow> ('k, 'v) nested_map \<Rightarrow> string list" where
  "json_nested serk serv (Nested_Map d s) =
     [''{''] @ json_entries serk True (map (map_prod id serv) d) @
     json_entries serk (d = []) (map (map_prod id (json_nested serk serv)) s) @ [''}'']"

text \<open>Writing into a buffer.\<close>

definition json_write :: "(nat \<Rightarrow> choice) \<Rightarrow> string list \<Rightarrow> buffer \<times> heap \<Rightarrow> unit result \<times> buffer \<times> heap" where
  "json_write cs chunks s = append_all buffer_append cs (map (map byte_of_char) chunks) s"

section \<open>Quoted strings\<close>

lemma escape_prefix_free:
  assumes "escape_string s escape_character characters_to_escape @ quote_char # r =
    escape_string s' escape_character characters_to_escape @ quote_char # r'"
  shows "s = s' \<and> r = r'"
  using assms
proof (induction s arbitrary: s')
  case Nil
  then show ?case
    by (cases s') (auto simp: characters_to_escape_def escape_character_def quote_char_def split: if_splits)
next
  case (Cons c s)
  show ?case
  proof (cases s')
    case Nil
    with Cons.prems show ?thesis
      by (auto simp: characters_to_escape_def escape_character_def quote_char_def split: if_splits)
  next
    case (Cons d t)
    have "escape_character \<in> set characters_to_escape"
      by (simp add: characters_to_escape_def)
    with Cons.prems Cons have "c = d" and
      "escape_string s escape_character characters_to_escape @ quote_char # r =
        escape_string t escape_character characters_to_escape @ quote_char # r'"
      by (auto split: if_splits)
    with Cons.IH Cons show ?thesis by simp
  qed
qed

lemma json_string_prefix_free:
  "concat (json_string s) @ r = concat (json_string s') @ r' \<longleftrightarrow> s = s' \<and> r = r'"
  using escape_prefix_free [of s r s' r'] by (auto simp: json_string_def)

lemma json_string_head: "\<exists>t. concat (json_string s) = quote_char # t"
  by (simp add: json_string_def)

section \<open>Entries\<close>

text \<open>The entries of one object, values and sub tables in one list.\<close>

definition json_items :: "(string, 'v) nested_map \<Rightarrow> (string \<times> ('v + (string, 'v) nested_map)) list" where
  "json_items m = map (map_prod id Inl) (table_data m) @ map (map_prod id Inr) (sub_tables m)"

fun json_value :: "string + (string, string) nested_map \<Rightarrow> string list" where
  "json_value (Inl v) = json_string v"
| "json_value (Inr t) = json_nested json_string json_string t"

lemma json_items_inject: "json_items m = json_items m' \<Longrightarrow> m = m'"
proof -
  have data: "map (map_prod id projl) (filter (\<lambda>e. isl (snd e)) (json_items m)) = table_data m" for m :: "(string, 'v) nested_map"
    by (simp add: json_items_def filter_map comp_def map_prod_def split_beta)
  have subs: "map (map_prod id projr) (filter (\<lambda>e. \<not> isl (snd e)) (json_items m)) = sub_tables m" for m :: "(string, 'v) nested_map"
    by (simp add: json_items_def filter_map comp_def map_prod_def split_beta)
  assume "json_items m = json_items m'"
  then show "m = m'"
    by (metis data subs nested_map.expand)
qed

lemma json_entries_append:
  "json_entries serk first (xs @ ys) = json_entries serk first xs @ json_entries serk (first \<and> xs = []) ys"
  by (induction serk first xs rule: json_entries.induct) auto

lemma json_nested_items:
  "json_nested json_string json_string m =
     [''{''] @ json_entries json_string True (map (map_prod id json_value) (json_items m)) @ [''}'']"
  by (cases m) (simp add: json_items_def json_entries_append comp_def map_prod_def case_prod_unfold)

lemma json_nested_head: "\<exists>u. concat (json_nested json_string json_string t) = CHR ''{'' # u"
  by (simp add: json_nested_items)

text \<open>A value is recognised by its first character.\<close>

lemma json_value_prefix_free:
  assumes "\<And>t t' r r'. a = Inr t \<Longrightarrow>
      concat (json_nested json_string json_string t) @ r = concat (json_nested json_string json_string t') @ r' \<Longrightarrow>
      t = t' \<and> r = r'"
    and "concat (json_value a) @ r = concat (json_value b) @ r'"
  shows "a = b \<and> r = r'"
proof -
  have apart: "concat (json_string v) @ q \<noteq> concat (json_nested json_string json_string t) @ q'" for v t q q'
    using json_string_head [of v] json_nested_head [of t] by (auto simp: quote_char_def)
  show ?thesis
  proof (cases a)
    case (Inl v)
    with assms(2) apart show ?thesis
      by (cases b) (simp_all add: json_string_prefix_free)
  next
    case (Inr t)
    show ?thesis
    proof (cases b)
      case (Inl v)
      with assms(2) Inr apart [of v r' t r] show ?thesis by simp
    next
      case (Inr t')
      with assms(2) \<open>a = Inr t\<close> have "t = t' \<and> r = r'"
        by (intro assms(1)) simp_all
      with Inr \<open>a = Inr t\<close> show ?thesis by simp
    qed
  qed
qed

lemma json_entries_prefix_free:
  assumes "\<And>k t t' r r'. (k, Inr t) \<in> set xs \<Longrightarrow>
      concat (json_nested json_string json_string t) @ r = concat (json_nested json_string json_string t') @ r' \<Longrightarrow>
      t = t' \<and> r = r'"
    and "concat (json_entries json_string first (map (map_prod id json_value) xs)) @ CHR ''}'' # r =
      concat (json_entries json_string first (map (map_prod id json_value) ys)) @ CHR ''}'' # r'"
  shows "xs = ys \<and> r = r'"
  using assms
proof (induction xs arbitrary: ys first)
  case Nil
  then show ?case
    by (cases ys; cases first) (auto simp: json_string_def quote_char_def)
next
  case (Cons x xs)
  obtain k a where x: "x = (k, a)" by force
  show ?case
  proof (cases ys)
    case Nil
    with Cons.prems(2) x show ?thesis
      by (cases first) (auto simp: json_string_def quote_char_def)
  next
    case (Cons y zs)
    obtain k' b where y: "y = (k', b)" by force
    let ?tail = "\<lambda>es. concat (json_entries json_string False (map (map_prod id json_value) es))"
    have "concat (json_string k) @ CHR '':'' # concat (json_value a) @ ?tail xs @ CHR ''}'' # r =
        concat (json_string k') @ CHR '':'' # concat (json_value b) @ ?tail zs @ CHR ''}'' # r'"
      using Cons.prems(2) Cons x y by (simp add: id_def split: if_splits)
    then have "k = k'" and vals: "concat (json_value a) @ ?tail xs @ CHR ''}'' # r = concat (json_value b) @ ?tail zs @ CHR ''}'' # r'"
      by (simp_all add: json_string_prefix_free)
    moreover have "a = b \<and> ?tail xs @ CHR ''}'' # r = ?tail zs @ CHR ''}'' # r'"
    proof (rule json_value_prefix_free [OF _ vals])
      show "t = t' \<and> q = q'"
        if "a = Inr t"
          and "concat (json_nested json_string json_string t) @ q = concat (json_nested json_string json_string t') @ q'"
        for t t' q q'
        using Cons.prems(1) [of k t q t' q'] that x by simp
    qed
    moreover from this have "xs = zs \<and> r = r'"
    proof (intro Cons.IH [where first = False])
      show "t = t' \<and> q = q'"
        if "(j, Inr t) \<in> set xs"
          and "concat (json_nested json_string json_string t) @ q = concat (json_nested json_string json_string t') @ q'"
        for j t t' q q'
        using Cons.prems(1) [of j t q t' q'] that by simp
    qed blast
    ultimately show ?thesis
      using Cons x y by simp
  qed
qed

lemma json_nested_prefix_free:
  "concat (json_nested json_string json_string m) @ r = concat (json_nested json_string json_string m') @ r' \<Longrightarrow>
   m = m' \<and> r = r'"
proof (induction m arbitrary: m' r r')
  case (Nested_Map d s)
  have "json_items (Nested_Map d s) = json_items m' \<and> r = r'"
  proof (rule json_entries_prefix_free)
    fix k t t' q q'
    assume "(k, Inr t) \<in> set (json_items (Nested_Map d s))"
      and "concat (json_nested json_string json_string t) @ q = concat (json_nested json_string json_string t') @ q'"
    then show "t = t' \<and> q = q'"
      by (intro Nested_Map.IH [of "(k, t)" t]) (auto simp: json_items_def)
  next
    show "concat (json_entries json_string True (map (map_prod id json_value) (json_items (Nested_Map d s)))) @ CHR ''}'' # r =
      concat (json_entries json_string True (map (map_prod id json_value) (json_items m'))) @ CHR ''}'' # r'"
      using Nested_Map.prems by (simp only: json_nested_items) simp
  qed
  then show ?case
    using json_items_inject by blast
qed

section \<open>Into a buffer\<close>

lemma json_write_content:
  assumes "heap_ok h" and "length (concat chunks) < size_limit" and "chunks \<noteq> []" and "hd chunks \<noteq> []"
    and "json_write cs chunks (buffer_default, h) = (Inr u, b, h')"
  shows "buffer_bytes (b, h') = map byte_of_char (concat chunks)"
proof -
  have "append_all buffer_append cs (map (map byte_of_char) chunks) (buffer_default, h) = (Inr u, b, h')"
    using assms(5) by (simp add: json_write_def)
  moreover have "chunks_ok False (map (map byte_of_char) chunks)"
    using assms(3,4) by (cases chunks) auto
  moreover have "length (concat (map (map byte_of_char) chunks)) < size_limit"
    using assms(2) by (simp add: length_concat comp_def)
  ultimately show ?thesis
    using buffer_sink.append_all_content [of "(buffer_default, h)" "map (map byte_of_char) chunks"] assms(1)
    by (simp add: map_concat)
qed

text \<open>C24. JSON text is unambiguous. Two tables of strings, nested to any depth, are written as the same bytes
  if and only if they are equal: escaping keeps the quotes apart, and values, sub tables, commas and braces can be
  told from each other.\<close>

theorem json_text_determines_table:
  assumes "heap_ok h" and "length (concat (json_nested json_string json_string m)) < size_limit"
    and "json_write cs (json_nested json_string json_string m) (buffer_default, h) = (Inr u, b, h')"
    and "heap_ok g" and "length (concat (json_nested json_string json_string n)) < size_limit"
    and "json_write ds (json_nested json_string json_string n) (buffer_default, g) = (Inr v, c, g')"
  shows "buffer_bytes (b, h') = buffer_bytes (c, g') \<longleftrightarrow> m = n"
proof -
  have head: "json_nested json_string json_string t \<noteq> []" "hd (json_nested json_string json_string t) \<noteq> []" for t
    by (simp_all add: json_nested_items)
  have "inj byte_of_char"
    by (metis char_of_byte_of_char injI)
  then have "buffer_bytes (b, h') = buffer_bytes (c, g') \<longleftrightarrow>
      concat (json_nested json_string json_string m) = concat (json_nested json_string json_string n)"
    using json_write_content [OF assms(1,2) head assms(3)] json_write_content [OF assms(4,5) head assms(6)]
    by (simp add: inj_map_eq_map)
  with json_nested_prefix_free [of m "[]" n "[]"] show ?thesis by auto
qed

abbreviation demo_json :: "(string, string) nested_map \<Rightarrow> unit result \<times> buffer \<times> heap" where
  "demo_json m \<equiv> json_write (\<lambda>_. (16, \<lambda>_. 0)) (json_nested json_string json_string m) (buffer_default, Map.empty)"

theorem json_text_determines_table_witness:
  "buffer_bytes (snd (demo_json (Nested_Map [(''a'', ''{}'')] []))) \<noteq>
   buffer_bytes (snd (demo_json (Nested_Map [] [(''a'', Nested_Map [] [])])))"
proof -
  let ?m = "Nested_Map [(''a'', ''{}'')] []" and ?n = "Nested_Map [] [(''a'', Nested_Map [] [])]"
  have runs: "fst (demo_json ?m) = Inr ()" "fst (demo_json ?n) = Inr ()"
    by code_simp+
  obtain b h' c g' where mn: "demo_json ?m = (Inr (), b, h')" "demo_json ?n = (Inr (), c, g')"
    using runs by (metis prod.collapse)
  have "length (concat (json_nested json_string json_string ?m)) < size_limit"
    and "length (concat (json_nested json_string json_string ?n)) < size_limit"
    by (simp_all add: size_limit_def json_string_def)
  from json_text_determines_table [OF _ this(1) mn(1) _ this(2) mn(2)]
  have "buffer_bytes (b, h') \<noteq> buffer_bytes (c, g')"
    by (simp add: heap_ok_def)
  then show ?thesis
    unfolding mn by simp
qed

end
