(* ===== verification/Utf8.thy ===== *)
theory Utf8
  imports Cbeam_Prelude
begin

text \<open>
  \<^verbatim>\<open>encoding/utf8.hpp\<close>: the test whether a string is UTF-8. The loop over the index is recursion on the
  rest of the string; \<open>i + n < len\<close> says that the rest has at least \<open>n\<close> more bytes.

  The references are the grammar of sequences the test accepts, and the encoder of code points.
\<close>

unbundle bit_operations_syntax

definition bad_continuation :: "byte \<Rightarrow> bool" where
  "bad_continuation b \<longleftrightarrow> \<not> (b AND 0x80 \<noteq> 0) \<or> b AND 0x40 \<noteq> 0"

function is_valid_utf8 :: "bytes \<Rightarrow> bool" where
  "is_valid_utf8 [] = True"
| "is_valid_utf8 (c # s) =
     (if c < 0x80 then is_valid_utf8 s
      else if 0xC2 \<le> c \<and> c \<le> 0xDF \<and> 1 \<le> length s then
        (if bad_continuation (s ! 0) then False else is_valid_utf8 (drop 1 s))
      else if 0xE0 \<le> c \<and> c \<le> 0xEF \<and> 2 \<le> length s then
        (if bad_continuation (s ! 0) \<or> bad_continuation (s ! 1) then False else is_valid_utf8 (drop 2 s))
      else if 0xF0 \<le> c \<and> c \<le> 0xF4 \<and> 3 \<le> length s then
        (if bad_continuation (s ! 0) \<or> bad_continuation (s ! 1) \<or> bad_continuation (s ! 2) then False
         else is_valid_utf8 (drop 3 s))
      else False)"
  by pat_completeness auto
termination
  by (relation "measure length") auto

declare is_valid_utf8.simps(2) [simp del]

definition has_utf8_specific_encoding :: "bytes \<Rightarrow> bool" where
  "has_utf8_specific_encoding s = (if \<forall>c\<in>set s. \<not> c \<ge> 128 then False else is_valid_utf8 s)"

section \<open>The sequences\<close>

definition continuation :: "byte \<Rightarrow> bool" where
  "continuation b \<longleftrightarrow> 0x80 \<le> b \<and> b < 0xC0"

fun utf8_sequence :: "bytes \<Rightarrow> bool" where
  "utf8_sequence [a] \<longleftrightarrow> a < 0x80"
| "utf8_sequence [a, b] \<longleftrightarrow> 0xC2 \<le> a \<and> a \<le> 0xDF \<and> continuation b"
| "utf8_sequence [a, b, c] \<longleftrightarrow> 0xE0 \<le> a \<and> a \<le> 0xEF \<and> continuation b \<and> continuation c"
| "utf8_sequence [a, b, c, d] \<longleftrightarrow> 0xF0 \<le> a \<and> a \<le> 0xF4 \<and> continuation b \<and> continuation c \<and> continuation d"
| "utf8_sequence _ \<longleftrightarrow> False"

text \<open>The encoding of a code point, by the definition of UTF-8.\<close>

definition utf8_encode :: "nat \<Rightarrow> bytes" where
  "utf8_encode n =
     (if n < 0x80 then [of_nat n]
      else if n < 0x800 then [of_nat (0xC0 + n div 64), of_nat (0x80 + n mod 64)]
      else if n < 0x10000 then
        [of_nat (0xE0 + n div 4096), of_nat (0x80 + n div 64 mod 64), of_nat (0x80 + n mod 64)]
      else
        [of_nat (0xF0 + n div 262144), of_nat (0x80 + n div 4096 mod 64), of_nat (0x80 + n div 64 mod 64),
         of_nat (0x80 + n mod 64)])"

lemma bit_byte: "n < 8 \<Longrightarrow> bit (b :: byte) n \<longleftrightarrow> odd (unat b div 2 ^ n)"
  by (metis bit_iff_odd bit_unsigned_iff possible_bit_nat)

lemma and_power_byte: "b AND 2 ^ n \<noteq> (0 :: byte) \<longleftrightarrow> bit b n"
  using and_exp_eq_0_iff_not_bit [of b n] by blast

lemma bad_continuation_iff: "bad_continuation b \<longleftrightarrow> \<not> continuation b"
proof -
  let ?x = "unat b"
  have "b AND 0x80 \<noteq> 0 \<longleftrightarrow> odd (?x div 128)" and "b AND 0x40 \<noteq> 0 \<longleftrightarrow> odd (?x div 64)"
    using and_power_byte [of b 7] and_power_byte [of b 6] by (simp_all add: bit_byte)
  moreover have "odd (?x div 128) \<longleftrightarrow> 128 \<le> ?x"
    using byte_less [of b] by (cases "?x < 128") (simp_all add: div_if)
  moreover have "odd (?x div 64) \<longleftrightarrow> 192 \<le> ?x" if "128 \<le> ?x"
  proof (cases "?x < 192")
    case True
    with that have "?x div 64 = 2"
      by (intro div_nat_eqI) simp_all
    with True show ?thesis by simp
  next
    case False
    with byte_less [of b] have "?x div 64 = 3"
      by (intro div_nat_eqI) simp_all
    with False show ?thesis by simp
  qed
  moreover have "continuation b \<longleftrightarrow> 128 \<le> ?x \<and> ?x < 192"
    by (simp add: continuation_def word_le_nat_alt word_less_nat_alt)
  ultimately show ?thesis
    by (auto simp: bad_continuation_def)
qed

section \<open>What the test accepts\<close>

lemma utf8_sequence_cases:
  assumes "utf8_sequence t"
  obtains a where "t = [a]" "a < 0x80"
  | a b where "t = [a, b]" "0xC2 \<le> a" "a \<le> 0xDF" "continuation b"
  | a b c where "t = [a, b, c]" "0xE0 \<le> a" "a \<le> 0xEF" "continuation b" "continuation c"
  | a b c d where "t = [a, b, c, d]" "0xF0 \<le> a" "a \<le> 0xF4" "continuation b" "continuation c" "continuation d"
  using assms by (cases t rule: utf8_sequence.cases) auto

lemma is_valid_utf8_append:
  assumes "utf8_sequence t"
  shows "is_valid_utf8 (t @ s) = is_valid_utf8 s"
  using assms
proof (cases rule: utf8_sequence_cases)
  case (1 a)
  then show ?thesis by (simp add: is_valid_utf8.simps)
next
  case (2 a b)
  then have "\<not> a < 0x80" by (simp add: word_le_nat_alt word_less_nat_alt)
  with 2 show ?thesis by (simp add: is_valid_utf8.simps(2) [of a] bad_continuation_iff)
next
  case (3 a b c)
  then have "\<not> a < 0x80" and "\<not> a \<le> 0xDF" by (simp_all add: word_le_nat_alt word_less_nat_alt)
  with 3 show ?thesis by (simp add: is_valid_utf8.simps(2) [of a] bad_continuation_iff)
next
  case (4 a b c d)
  then have "\<not> a < 0x80" and "\<not> a \<le> 0xDF" and "\<not> a \<le> 0xEF" by (simp_all add: word_le_nat_alt word_less_nat_alt)
  with 4 show ?thesis by (simp add: is_valid_utf8.simps(2) [of a] bad_continuation_iff)
qed

lemma is_valid_utf8_split:
  assumes "is_valid_utf8 (c # s)"
  obtains t r where "utf8_sequence t" and "c # s = t @ r" and "is_valid_utf8 r"
proof -
  consider "c < 0x80" "is_valid_utf8 s"
    | a r where "s = a # r" "0xC2 \<le> c" "c \<le> 0xDF" "continuation a" "is_valid_utf8 r"
    | a b r where "s = a # b # r" "0xE0 \<le> c" "c \<le> 0xEF" "continuation a" "continuation b" "is_valid_utf8 r"
    | a b d r where "s = a # b # d # r" "0xF0 \<le> c" "c \<le> 0xF4" "continuation a" "continuation b" "continuation d"
        "is_valid_utf8 r"
    using assms
    by (cases s rule: utf8_sequence.cases)
      (auto simp: is_valid_utf8.simps(2) [of c] bad_continuation_iff split: if_splits)
  then show thesis
  proof cases
    case 1
    then show thesis by (intro that [of "[c]" s]) simp_all
  next
    case (2 a r)
    then show thesis by (intro that [of "[c, a]" r]) simp_all
  next
    case (3 a b r)
    then show thesis by (intro that [of "[c, a, b]" r]) simp_all
  next
    case (4 a b d r)
    then show thesis by (intro that [of "[c, a, b, d]" r]) simp_all
  qed
qed

lemma is_valid_utf8_iff: "is_valid_utf8 s \<longleftrightarrow> (\<exists>ts. s = concat ts \<and> list_all utf8_sequence ts)"
proof
  assume "is_valid_utf8 s"
  then show "\<exists>ts. s = concat ts \<and> list_all utf8_sequence ts"
  proof (induction "length s" arbitrary: s rule: less_induct)
    case less
    show ?case
    proof (cases s)
      case Nil
      then show ?thesis by (auto intro: exI [of _ "[]"])
    next
      case (Cons c r)
      with less.prems obtain t r' where t: "utf8_sequence t" "s = t @ r'" "is_valid_utf8 r'"
        by (metis is_valid_utf8_split)
      have "t \<noteq> []"
        using t(1) by auto
      with t obtain ts where "r' = concat ts" "list_all utf8_sequence ts"
        using less.hyps [of r'] by auto
      with t show ?thesis
        by (intro exI [of _ "t # ts"]) simp
    qed
  qed
next
  assume "\<exists>ts. s = concat ts \<and> list_all utf8_sequence ts"
  then obtain ts where "s = concat ts" and "list_all utf8_sequence ts" by blast
  then show "is_valid_utf8 s"
    by (induction ts arbitrary: s) (simp_all add: is_valid_utf8_append)
qed

lemma utf8_encode_sequence:
  assumes "n < 0x110000"
  shows "utf8_sequence (utf8_encode n)"
proof -
  have small: "unat (of_nat k :: byte) = k" if "k < 256" for k
    using that by (simp add: unat_of_nat)
  have cont: "continuation (of_nat (128 + k))" if "k < 64" for k
    using that small [of "128 + k"] by (simp add: continuation_def word_le_nat_alt word_less_nat_alt)
  consider "n < 0x80" | "0x80 \<le> n" "n < 0x800" | "0x800 \<le> n" "n < 0x10000" | "0x10000 \<le> n"
    by linarith
  then show ?thesis
  proof cases
    case 1
    then show ?thesis
      using small [of n] by (simp add: utf8_encode_def word_less_nat_alt)
  next
    case 2
    then have "2 \<le> n div 64" and "n div 64 \<le> 31" by simp_all
    with 2 show ?thesis
      using small [of "0xC0 + n div 64"] cont [of "n mod 64"] by (simp add: utf8_encode_def word_le_nat_alt)
  next
    case 3
    then have "n div 4096 \<le> 15" by simp
    with 3 show ?thesis
      using small [of "0xE0 + n div 4096"] cont [of "n mod 64"] cont [of "n div 64 mod 64"]
      by (simp add: utf8_encode_def word_le_nat_alt)
  next
    case 4
    then have "n div 262144 \<le> 4" using assms by simp
    with 4 show ?thesis
      using small [of "0xF0 + n div 262144"] cont [of "n mod 64"] cont [of "n div 64 mod 64"] cont [of "n div 4096 mod 64"]
      by (simp add: utf8_encode_def word_le_nat_alt)
  qed
qed

text \<open>C26. The UTF-8 test. It accepts exactly the concatenations of the byte sequences of its grammar, and in particular
  the encoding of every sequence of code points up to 10FFFF.\<close>

theorem utf8_test_accepts:
  "(is_valid_utf8 s \<longleftrightarrow> (\<exists>ts. s = concat ts \<and> list_all utf8_sequence ts)) \<and>
   (list_all (\<lambda>n. n < 0x110000) code_points \<longrightarrow> is_valid_utf8 (concat (map utf8_encode code_points)))"
proof (intro conjI impI)
  show "is_valid_utf8 s \<longleftrightarrow> (\<exists>ts. s = concat ts \<and> list_all utf8_sequence ts)"
    by (rule is_valid_utf8_iff)
  assume "list_all (\<lambda>n. n < 0x110000) code_points"
  then show "is_valid_utf8 (concat (map utf8_encode code_points))"
    by (induction code_points) (simp_all add: is_valid_utf8_append utf8_encode_sequence)
qed

theorem utf8_test_accepts_witness: "is_valid_utf8 (concat (map utf8_encode [0x41, 0xE4, 0x20AC, 0x1F600]))"
  using utf8_test_accepts [of "[]" "[0x41, 0xE4, 0x20AC, 0x1F600]"] by simp

text \<open>The grammar is wider than UTF-8: it has overlong encodings, surrogates, and values above 10FFFF.\<close>

lemma utf8_test_too_wide:
  "is_valid_utf8 [0xE0, 0x80, 0x80]" "is_valid_utf8 [0xED, 0xA0, 0x80]" "is_valid_utf8 [0xF4, 0x90, 0x80, 0x80]"
  by (simp_all add: is_valid_utf8.simps bad_continuation_iff continuation_def)

end
