(* ===== verification/Filesystem_Path.thy ===== *)
theory Filesystem_Path
  imports Cbeam_Prelude
begin

text \<open>
  \<^verbatim>\<open>random/generators.hpp\<close> and \<^verbatim>\<open>filesystem/path.hpp\<close> on a POSIX platform. A \<open>std::filesystem::path\<close> is its native
  string; \<open>components\<close> is the sequence its iterators run through, \<open>path_append\<close> is \<open>operator/\<close>, and two paths are equal when
  their components are. The random number generator with its distribution is the argument \<open>pick\<close>, which
  gets the bounds and the state of the generator. The file system is the record \<open>fs_ops\<close> of the library calls the code
  makes on a state of its own; a call that reports by exception returns the text of the exception, a call that
  reports by \<open>std::error_code\<close> returns the code, zero for success.
\<close>

section \<open>Random strings\<close>

type_synonym 'g picker = "nat \<Rightarrow> nat \<Rightarrow> 'g \<Rightarrow> nat \<times> 'g"

text \<open>The upper bound \<open>n - 1\<close> wraps for \<open>n = 0\<close>.\<close>

definition random_number :: "'g picker \<Rightarrow> nat \<Rightarrow> 'g \<Rightarrow> nat \<times> 'g" where
  "random_number pick n gen = pick 0 (wrap64 (n + size_limit - 1)) gen"

definition random_chars :: string where
  "random_chars = ''0123456789abcdefghijklmnopqrstuvwxyzABCDEFGHIJKLMNOPQRSTUVWXYZ''"

text \<open>\<open>sizeof(chrs)\<close> counts the terminating zero.\<close>

fun random_string :: "'g picker \<Rightarrow> nat \<Rightarrow> 'g \<Rightarrow> string \<times> 'g" where
  "random_string pick 0 gen = ([], gen)"
| "random_string pick (Suc n) gen =
     (case pick 0 (length random_chars + 1 - 2) gen of
        (i, gen') \<Rightarrow> (case random_string pick n gen' of (s, gen'') \<Rightarrow> (random_chars ! i # s, gen'')))"

text \<open>A distribution stays within its bounds.\<close>

definition picker_ok :: "'g picker \<Rightarrow> bool" where
  "picker_ok pick \<longleftrightarrow> (\<forall>lo hi gen. lo \<le> hi \<longrightarrow> lo \<le> fst (pick lo hi gen) \<and> fst (pick lo hi gen) \<le> hi)"

lemma random_number_range: "picker_ok pick \<Longrightarrow> 0 < n \<Longrightarrow> n \<le> size_limit \<Longrightarrow> fst (random_number pick n gen) < n"
proof -
  assume "picker_ok pick" and n: "0 < n" "n \<le> size_limit"
  obtain k where k: "n = Suc k"
    using n(1) by (cases n) auto
  then have "wrap64 (n + size_limit - 1) = n - 1"
    using n(2) by (simp add: wrap64_def)
  with \<open>picker_ok pick\<close> have "fst (random_number pick n gen) \<le> n - 1"
    by (simp add: random_number_def picker_ok_def)
  with n show ?thesis by linarith
qed

lemma random_string_chars:
  assumes "picker_ok pick"
  shows "length (fst (random_string pick n gen)) = n" and "set (fst (random_string pick n gen)) \<subseteq> set random_chars"
proof -
  have "length (fst (random_string pick n gen)) = n \<and> set (fst (random_string pick n gen)) \<subseteq> set random_chars"
  proof (induction n arbitrary: gen)
    case 0
    then show ?case by simp
  next
    case (Suc n)
    obtain i gen' where p: "pick 0 (length random_chars + 1 - 2) gen = (i, gen')" by force
    with assms have "i \<le> length random_chars + 1 - 2"
      by (metis picker_ok_def fst_conv zero_le)
    then have "i < length random_chars"
      by (simp add: random_chars_def)
    then have "random_chars ! i \<in> set random_chars"
      by (rule nth_mem)
    moreover obtain s gen'' where "random_string pick n gen' = (s, gen'')" by force
    ultimately show ?case
      using Suc [of gen'] p by simp
  qed
  then show "length (fst (random_string pick n gen)) = n" and "set (fst (random_string pick n gen)) \<subseteq> set random_chars"
    by auto
qed

section \<open>Paths\<close>

abbreviation slash :: char where "slash \<equiv> CHR ''/''"
abbreviation backslash :: char where "backslash \<equiv> CHR 0x5C"

fun split_slash :: "string \<Rightarrow> string list" where
  "split_slash [] = [[]]"
| "split_slash (c # s) =
     (if c = slash then [] # split_slash s
      else (case split_slash s of [] \<Rightarrow> [[c]] | h # t \<Rightarrow> (c # h) # t))"

definition path_names :: "string \<Rightarrow> string list" where
  "path_names s = filter (\<lambda>n. n \<noteq> []) (split_slash s)"

definition components :: "string \<Rightarrow> string list" where
  "components s =
     (if s \<noteq> [] \<and> hd s = slash then [''/''] else []) @ path_names s @
     (if path_names s \<noteq> [] \<and> last s = slash then [[]] else [])"

definition path_append :: "string \<Rightarrow> string \<Rightarrow> string" where
  "path_append a b =
     (if b \<noteq> [] \<and> hd b = slash then b
      else if a \<noteq> [] \<and> last a \<noteq> slash then a @ slash # b
      else a @ b)"

text \<open>The loop of \<open>normalize\<close>, from the last component to the first.\<close>

fun normalize_loop :: "string list \<Rightarrow> nat \<Rightarrow> string \<Rightarrow> string" where
  "normalize_loop [] num_parent result = result"
| "normalize_loop (c # cs) num_parent result =
     (if c \<noteq> ''/'' \<and> c \<noteq> [backslash] \<and> c \<noteq> [] then
        if c = ''..'' then normalize_loop cs (num_parent + 1) result
        else if num_parent > 0 then normalize_loop cs (num_parent - 1) result
        else if last c = CHR '':'' then normalize_loop cs num_parent (path_append (c @ [slash]) result)
        else normalize_loop cs num_parent (path_append c result)
      else normalize_loop cs num_parent result)"

text \<open>\<open>*p.begin()\<close> of an empty path dereferences the end.\<close>

definition normalize :: "string \<Rightarrow> string result" where
  "normalize p =
     (let result = normalize_loop (rev (components p)) 0 []
      in case components p of
           [] \<Rightarrow> Inl (undefined_behaviour out_of_bounds)
         | c # _ \<Rightarrow> Inr (if c = ''/'' then path_append c result else result))"

record path =
  base_path :: string

definition path_ctor :: "string \<Rightarrow> path result" where
  "path_ctor p = (case normalize p of Inl e \<Rightarrow> Inl e | Inr q \<Rightarrow> Inr \<lparr>base_path = q\<rparr>)"

definition path_eq :: "path \<Rightarrow> path \<Rightarrow> bool" where
  "path_eq a b \<longleftrightarrow> components (base_path a) = components (base_path b)"

definition path_neq :: "path \<Rightarrow> path \<Rightarrow> bool" where
  "path_neq a b \<longleftrightarrow> components (base_path a) \<noteq> components (base_path b)"

definition path_eq_std :: "path \<Rightarrow> string \<Rightarrow> bool" where
  "path_eq_std a other \<longleftrightarrow> components (base_path a) = components other"

definition path_neq_std :: "path \<Rightarrow> string \<Rightarrow> bool" where
  "path_neq_std a other \<longleftrightarrow> components (base_path a) \<noteq> components other"

definition path_to_std :: "path \<Rightarrow> string" where
  "path_to_std a = base_path a"

definition remove_trailing_directory_separators :: "string \<Rightarrow> string" where
  "remove_trailing_directory_separators s = rev (dropWhile (\<lambda>c. c = slash \<or> c = backslash) (rev s))"

section \<open>Directories\<close>

record 'fs fs_ops =
  fs_exists :: "string \<Rightarrow> 'fs \<Rightarrow> string + bool"
  fs_is_directory :: "string \<Rightarrow> 'fs \<Rightarrow> string + bool"
  fs_remove_all :: "string \<Rightarrow> 'fs \<Rightarrow> (string + unit) \<times> 'fs"
  fs_create_directories :: "string \<Rightarrow> 'fs \<Rightarrow> (string + unit) \<times> 'fs"
  fs_copy :: "string \<Rightarrow> string \<Rightarrow> 'fs \<Rightarrow> (string + unit) \<times> 'fs"
  fs_entries :: "string \<Rightarrow> 'fs \<Rightarrow> string + string list"
  fs_rename_ec :: "string \<Rightarrow> string \<Rightarrow> 'fs \<Rightarrow> nat \<times> 'fs"
  fs_remove_all_ec :: "string \<Rightarrow> 'fs \<Rightarrow> nat \<times> 'fs"
  fs_message :: "nat \<Rightarrow> string"

text \<open>The exceptions of the library leave \<open>get_subdirs\<close> and \<open>copy_to\<close> as they are.\<close>

definition fs_throw :: "string \<Rightarrow> failure" where
  "fs_throw what = system_error what"

fun filter_dirs :: "'fs fs_ops \<Rightarrow> (string \<Rightarrow> bool) \<Rightarrow> 'fs \<Rightarrow> string list \<Rightarrow> string list result" where
  "filter_dirs ops matches fs [] = Inr []"
| "filter_dirs ops matches fs (e # es) =
     (case fs_is_directory ops e fs of
        Inl what \<Rightarrow> Inl (fs_throw what)
      | Inr is_dir \<Rightarrow>
          (case filter_dirs ops matches fs es of
             Inl f \<Rightarrow> Inl f
           | Inr ds \<Rightarrow> Inr (if is_dir \<and> matches e then e # ds else ds)))"

definition get_subdirs :: "'fs fs_ops \<Rightarrow> (string \<Rightarrow> bool) \<Rightarrow> path \<Rightarrow> 'fs \<Rightarrow> string list result" where
  "get_subdirs ops matches p fs =
     (case fs_exists ops (base_path p) fs of
        Inl what \<Rightarrow> Inl (fs_throw what)
      | Inr False \<Rightarrow> Inr []
      | Inr True \<Rightarrow>
          (case fs_is_directory ops (base_path p) fs of
             Inl what \<Rightarrow> Inl (fs_throw what)
           | Inr False \<Rightarrow> Inr []
           | Inr True \<Rightarrow>
               (case fs_entries ops (base_path p) fs of
                  Inl what \<Rightarrow> Inl (fs_throw what)
                | Inr es \<Rightarrow> filter_dirs ops matches fs es)))"

text \<open>The body of the \<open>try\<close> of \<open>create_directory\<close>: the value of \<open>success\<close>, or the text of the exception.\<close>

definition create_directory_body :: "'fs fs_ops \<Rightarrow> bool \<Rightarrow> path \<Rightarrow> 'fs \<Rightarrow> (string + bool) \<times> 'fs" where
  "create_directory_body ops delete_prior_creating p fs =
     (case (if delete_prior_creating then fs_remove_all ops (base_path p) fs else (Inr (), fs)) of
        (Inl what, fs1) \<Rightarrow> (Inl what, fs1)
      | (Inr _, fs1) \<Rightarrow>
          (case fs_exists ops (base_path p) fs1 of
             Inl what \<Rightarrow> (Inl what, fs1)
           | Inr ex \<Rightarrow>
               (case (if \<not> ex then fs_create_directories ops (base_path p) fs1 else (Inr (), fs1)) of
                  (Inl what, fs2) \<Rightarrow> (Inl what, fs2)
                | (Inr _, fs2) \<Rightarrow> (fs_exists ops (base_path p) fs2, fs2))))"

definition create_directory :: "'fs fs_ops \<Rightarrow> bool \<Rightarrow> path \<Rightarrow> 'fs \<Rightarrow> unit result \<times> 'fs" where
  "create_directory ops delete_prior_creating p fs =
     (case create_directory_body ops delete_prior_creating p fs of
        (r, fs') \<Rightarrow>
          (if r = Inr True then (Inr (), fs')
           else (Inl (runtime_error (''cbeam::filesystem::path::create(\"'' @ base_path p @ ''\"): '' @
                   (case r of Inl what \<Rightarrow> what | Inr _ \<Rightarrow> ''unknown error''))), fs')))"

definition path_remove :: "'fs fs_ops \<Rightarrow> 'g picker \<Rightarrow> path \<Rightarrow> 'fs \<times> 'g \<Rightarrow> unit result \<times> 'fs \<times> 'g" where
  "path_remove ops pick p s =
     (case s of (fs, gen) \<Rightarrow>
       (case random_string pick 16 gen of (suffix, gen') \<Rightarrow>
         (let temp_path = remove_trailing_directory_separators (base_path p) @ suffix
          in case fs_rename_ec ops (base_path p) temp_path fs of (error, fs1) \<Rightarrow>
               if error \<noteq> 0 then (Inl (runtime_error (fs_message ops error)), fs1, gen')
               else
                 (case fs_remove_all_ec ops temp_path fs1 of (error, fs2) \<Rightarrow>
                    if error \<noteq> 0 then
                      (case fs_rename_ec ops temp_path (base_path p) fs2 of (error, fs3) \<Rightarrow>
                        (Inl (runtime_error (fs_message ops error)), fs3, gen'))
                    else (Inr (), fs2, gen')))))"

definition copy_to :: "'fs fs_ops \<Rightarrow> 'g picker \<Rightarrow> path \<Rightarrow> string \<Rightarrow> 'fs \<times> 'g \<Rightarrow> unit result \<times> 'fs \<times> 'g" where
  "copy_to ops pick p target s =
     (case s of (fs, gen) \<Rightarrow>
       (case fs_exists ops (base_path p) fs of
          Inl what \<Rightarrow> (Inl (fs_throw what), s)
        | Inr ex \<Rightarrow>
            (case (if ex then fs_is_directory ops (base_path p) fs else Inr False) of
               Inl what \<Rightarrow> (Inl (fs_throw what), s)
             | Inr False \<Rightarrow>
                 (Inl (runtime_error (''cbeam::filesystem::path::copy_to: source directory '' @ base_path p @
                    '' does not exist or is not a directory'')), s)
             | Inr True \<Rightarrow>
                 (case fs_exists ops target fs of
                    Inl what \<Rightarrow> (Inl (fs_throw what), s)
                  | Inr target_exists \<Rightarrow>
                      (case (if target_exists
                             then (case path_ctor target of Inl e \<Rightarrow> (Inl e, s) | Inr t \<Rightarrow> path_remove ops pick t s)
                             else (Inr (), s)) of
                         (Inl e, s1) \<Rightarrow> (Inl e, s1)
                       | (Inr _, fs1, gen1) \<Rightarrow>
                           (case fs_copy ops (base_path p) target fs1 of
                              (Inl what, fs2) \<Rightarrow> (Inl (fs_throw what), fs2, gen1)
                            | (Inr _, fs2) \<Rightarrow> (Inr (), fs2, gen1)))))))"

section \<open>What normalization does\<close>

text \<open>The reference: names are pushed on a stack, \<open>..\<close> takes the last one off.\<close>

definition resolve_step :: "string list \<Rightarrow> string \<Rightarrow> string list" where
  "resolve_step stack c =
     (if c = ''/'' \<or> c = [backslash] \<or> c = [] then stack
      else if c = ''..'' then butlast stack else stack @ [c])"

definition resolve :: "string list \<Rightarrow> string list" where
  "resolve cs = foldl resolve_step [] cs"

text \<open>Directory names, each with a separator after it.\<close>

definition join_names :: "string list \<Rightarrow> string" where
  "join_names ns = concat (map (\<lambda>n. n @ [slash]) ns)"

definition name_ok :: "string \<Rightarrow> bool" where
  "name_ok n \<longleftrightarrow> n \<noteq> [] \<and> slash \<notin> set n"

lemma split_slash_ok: "\<forall>n\<in>set (split_slash s). slash \<notin> set n"
  by (induction s) (auto split: list.splits)

lemma path_names_ok: "\<forall>n\<in>set (path_names s). name_ok n"
  using split_slash_ok [of s] by (auto simp: path_names_def name_ok_def)

lemma split_slash_name: "slash \<notin> set n \<Longrightarrow> split_slash (n @ slash # s) = n # split_slash s"
  by (induction n) auto

lemma path_names_join: "\<forall>n\<in>set ns. name_ok n \<Longrightarrow> path_names (join_names ns) = ns"
  by (induction ns) (simp_all add: path_names_def join_names_def split_slash_name name_ok_def)

lemma join_names_head: "\<forall>n\<in>set ns. name_ok n \<Longrightarrow> join_names ns \<noteq> [] \<Longrightarrow> hd (join_names ns) \<noteq> slash"
proof (cases ns)
  case (Cons n ms)
  assume "\<forall>n\<in>set ns. name_ok n"
  with Cons have n: "n \<noteq> []" "slash \<notin> set n"
    by (simp_all add: name_ok_def)
  then have "hd n \<noteq> slash"
    by (metis hd_in_set)
  with Cons n show ?thesis
    by (auto simp: join_names_def hd_append)
qed (simp add: join_names_def)

lemma join_names_Nil [simp]: "join_names ns = [] \<longleftrightarrow> ns = []"
  by (cases ns) (simp_all add: join_names_def)

lemma join_names_last: "ns \<noteq> [] \<Longrightarrow> last (join_names ns) = slash"
  by (induction ns) (auto simp: join_names_def last_append)

lemma path_append_join:
  assumes "name_ok c" and "\<forall>n\<in>set ns. name_ok n"
  shows "path_append c (join_names ns) = join_names (c # ns)"
    and "path_append (c @ [slash]) (join_names ns) = join_names (c # ns)"
proof -
  have "\<not> (join_names ns \<noteq> [] \<and> hd (join_names ns) = slash)"
    using join_names_head [OF assms(2)] by blast
  moreover have "c \<noteq> []" and "last c \<noteq> slash"
    using assms(1) by (auto simp: name_ok_def) (metis last_in_set)
  ultimately show "path_append c (join_names ns) = join_names (c # ns)"
    and "path_append (c @ [slash]) (join_names ns) = join_names (c # ns)"
    by (auto simp: path_append_def join_names_def)
qed

lemma resolve_subset: "set (resolve cs) \<subseteq> {c \<in> set cs. c \<noteq> ''/'' \<and> c \<noteq> [backslash] \<and> c \<noteq> [] \<and> c \<noteq> ''..''}"
proof (induction cs rule: rev_induct)
  case Nil
  then show ?case by (simp add: resolve_def)
next
  case (snoc c cs)
  have "resolve (cs @ [c]) = resolve_step (resolve cs) c"
    by (simp add: resolve_def)
  with snoc show ?case
    by (auto simp: resolve_step_def dest: in_set_butlastD)
qed

lemma normalize_loop_resolve:
  assumes "\<forall>c\<in>set cs. c = ''/'' \<or> c = [] \<or> name_ok c" and "\<forall>n\<in>set ns. name_ok n"
  shows "normalize_loop (rev cs) k (join_names ns) =
    join_names (take (length (resolve cs) - k) (resolve cs) @ ns)"
  using assms
proof (induction cs arbitrary: k ns rule: rev_induct)
  case Nil
  then show ?case by (simp add: resolve_def)
next
  case (snoc c cs)
  have step: "resolve (cs @ [c]) = resolve_step (resolve cs) c"
    by (simp add: resolve_def)
  have IH: "normalize_loop (rev cs) j (join_names ms) = join_names (take (length (resolve cs) - j) (resolve cs) @ ms)"
    if "\<forall>n\<in>set ms. name_ok n" for j ms
    using snoc.IH [of ms j] snoc.prems(1) that by simp
  show ?case
  proof (cases "c = ''/'' \<or> c = [backslash] \<or> c = []")
    case True
    with IH [OF snoc.prems(2)] show ?thesis
      by (auto simp: step resolve_step_def)
  next
    case False
    then have c: "name_ok c"
      using snoc.prems(1) by auto
    show ?thesis
    proof (cases "c = ''..''")
      case True
      with IH [OF snoc.prems(2), of "Suc k"] show ?thesis
        by (simp add: step [unfolded True] resolve_step_def butlast_conv_take min_def)
    next
      case named: False
      show ?thesis
      proof (cases k)
        case 0
        have "\<forall>n\<in>set (c # ns). name_ok n"
          using c snoc.prems(2) by simp
        from IH [OF this, of 0] 0 named False show ?thesis
          by (simp add: step resolve_step_def path_append_join [OF c snoc.prems(2)])
      next
        case (Suc j)
        with IH [OF snoc.prems(2), of j] named False show ?thesis
          by (simp add: step resolve_step_def)
      qed
    qed
  qed
qed

lemma components_ok: "\<forall>c\<in>set (components s). c = ''/'' \<or> c = [] \<or> name_ok c"
  using path_names_ok [of s] by (auto simp: components_def)

lemma resolve_names_ok: "\<forall>n\<in>set (resolve (components s)). name_ok n"
  using resolve_subset [of "components s"] components_ok [of s] by blast

lemma components_join:
  assumes "\<forall>n\<in>set ns. name_ok n"
  shows "components (join_names ns) = ns @ (if ns = [] then [] else [[]])"
    and "components (slash # join_names ns) = ''/'' # ns @ (if ns = [] then [] else [[]])"
  using assms join_names_head [OF assms] join_names_last [of ns] path_names_join [OF assms]
  by (auto simp: components_def path_names_def split: if_splits)

lemma resolve_clean:
  assumes "\<forall>c\<in>set cs. c \<noteq> ''/'' \<and> c \<noteq> [backslash] \<and> c \<noteq> [] \<and> c \<noteq> ''..''"
  shows "resolve cs = cs" and "resolve (cs @ [[]]) = cs" and "resolve (''/'' # cs) = cs" and "resolve (''/'' # cs @ [[]]) = cs"
proof -
  have "foldl resolve_step st cs = st @ cs" for st
    using assms by (induction cs arbitrary: st) (auto simp: resolve_step_def)
  then show "resolve cs = cs" and "resolve (cs @ [[]]) = cs" and "resolve (''/'' # cs) = cs" and "resolve (''/'' # cs @ [[]]) = cs"
    by (simp_all add: resolve_def resolve_step_def)
qed

lemma normalize_eq:
  "normalize p =
     (if components p = [] then Inl (undefined_behaviour out_of_bounds)
      else Inr ((if hd (components p) = ''/'' then [slash] else []) @ join_names (resolve (components p))))"
proof -
  have "normalize_loop (rev (components p)) 0 [] = join_names (resolve (components p))"
    using normalize_loop_resolve [OF components_ok, of "[]" p 0] by (simp add: join_names_def)
  moreover have "path_append ''/'' (join_names (resolve (components p))) = slash # join_names (resolve (components p))"
    using join_names_head [OF resolve_names_ok [of p]] by (auto simp: path_append_def)
  ultimately show ?thesis
    by (cases "components p") (auto simp: normalize_def)
qed

text \<open>C25. Normalization. Except for the empty path, \<open>normalize\<close> keeps the root and resolves the components as a
  stack does, every \<open>..\<close> taking off the name before it; the result ends with a separator, and
  normalizing it again (unless it is empty) gives it back, so equal normalized paths are equal strings.\<close>

theorem normalize_resolves:
  assumes "p \<noteq> []"
  shows "\<exists>q. normalize p = Inr q \<and>
    q = (if hd p = slash then [slash] else []) @ join_names (resolve (components p)) \<and>
    (q \<noteq> [] \<longrightarrow> normalize q = Inr q)"
proof -
  let ?R = "resolve (components p)"
  have "components p \<noteq> []"
    using assms by (cases p) (auto simp: components_def path_names_def split: list.splits if_splits)
  have root: "hd (components p) = ''/'' \<longleftrightarrow> hd p = slash"
    using assms path_names_ok [of p] \<open>components p \<noteq> []\<close>
    by (auto simp: components_def name_ok_def hd_append split: if_splits) (metis hd_in_set list.set_intros(1))
  let ?q = "(if hd p = slash then [slash] else []) @ join_names ?R"
  have q: "normalize p = Inr ?q"
    using \<open>components p \<noteq> []\<close> root by (simp add: normalize_eq)
  have clean: "\<forall>c\<in>set ?R. c \<noteq> ''/'' \<and> c \<noteq> [backslash] \<and> c \<noteq> [] \<and> c \<noteq> ''..''"
    using resolve_subset [of "components p"] by blast
  have "normalize ?q = Inr ?q" if "?q \<noteq> []"
  proof (cases "hd p = slash")
    case True
    then show ?thesis
      using components_join(2) [OF resolve_names_ok [of p]] resolve_clean [OF clean]
      by (cases "?R = []") (simp_all add: normalize_eq [of "slash # _"] normalize_eq [of "[slash]"])
  next
    case False
    with that have "?R \<noteq> []" by simp
    moreover have "hd ?R \<noteq> ''/''"
      using clean \<open>?R \<noteq> []\<close> hd_in_set by blast
    ultimately show ?thesis
      using False components_join(1) [OF resolve_names_ok [of p]] resolve_clean [OF clean]
      by (simp add: normalize_eq [of "join_names _"])
  qed
  with q show ?thesis by blast
qed

theorem normalize_resolves_witness: "normalize ''/a/b/../c'' = Inr ''/a/c/''"
proof -
  have "resolve (components ''/a/b/../c'') = [''a'', ''c'']"
    by code_simp
  then show ?thesis
    using normalize_resolves [of "''/a/b/../c''"] by (simp add: join_names_def)
qed

text \<open>A relative path that climbs out of its start loses the \<open>..\<close>, and \<open>.\<close> counts as a name.\<close>

lemma normalize_drops_parent:
  "normalize ''../a'' = Inr ''a/''" "normalize ''b/./../a'' = Inr ''b/a/''"
  by code_simp+

text \<open>The comparison with a \<open>std::filesystem::path\<close> does not normalize the other side.\<close>

lemma path_eq_std_not_normalized:
  "path_ctor ''a/b'' = Inr p \<Longrightarrow> \<not> path_eq_std p ''a/b''"
  "path_ctor ''a/b'' = Inr p \<Longrightarrow> path_ctor ''a/b/'' = Inr q \<Longrightarrow> path_eq p q"
proof -
  have "path_ctor ''a/b'' = Inr \<lparr>base_path = ''a/b/''\<rparr>" and "path_ctor ''a/b/'' = Inr \<lparr>base_path = ''a/b/''\<rparr>"
    by code_simp+
  moreover have "components ''a/b/'' \<noteq> components ''a/b''"
    by code_simp
  ultimately show "path_ctor ''a/b'' = Inr p \<Longrightarrow> \<not> path_eq_std p ''a/b''"
    and "path_ctor ''a/b'' = Inr p \<Longrightarrow> path_ctor ''a/b/'' = Inr q \<Longrightarrow> path_eq p q"
    by (auto simp: path_eq_std_def path_eq_def)
qed

text \<open>When the removal fails and the directory can be renamed back, the exception carries the message of the
  successful rename.\<close>

lemma path_remove_rollback_message:
  assumes "fs_rename_ec ops (base_path p) t fs = (0, fs1)" and "fs_remove_all_ec ops t fs1 = (e, fs2)" and "e \<noteq> 0"
    and "fs_rename_ec ops t (base_path p) fs2 = (0, fs3)"
    and "t = remove_trailing_directory_separators (base_path p) @ fst (random_string pick 16 gen)"
  shows "fst (path_remove ops pick p (fs, gen)) = Inl (runtime_error (fs_message ops 0))"
proof -
  obtain suffix gen' where "random_string pick 16 gen = (suffix, gen')" by force
  with assms show ?thesis
    by (simp add: path_remove_def)
qed

end
