(* ===== verification/Convert_Map.thy ===== *)
theory Convert_Map
  imports Nested_Map
begin

text \<open>
  \<^verbatim>\<open>convert/map.hpp\<close> and \<^verbatim>\<open>convert/nested_map.hpp\<close>: maps and nested maps as indented text. The conversions of a
  key and of a value to a string are the arguments \<open>showk\<close> and \<open>showv\<close>; \<open>indent\<close> throws for a negative
  level, so every conversion returns a result. Levels are integers; the \<open>int\<close> of the code would overflow only in
  a table nested to a depth of \<open>2\<^sup>3\<^sup>0\<close>.
\<close>

text \<open>One entry per line: the key, one tabulator, the value.\<close>

fun map_to_string :: "('k \<Rightarrow> string) \<Rightarrow> ('v \<Rightarrow> string) \<Rightarrow> ('k \<times> 'v) list \<Rightarrow> int \<Rightarrow> string result" where
  "map_to_string showk showv [] indentation = Inr []"
| "map_to_string showk showv ((k, v) # es) indentation =
     (case (indent indentation, indent 1) of
        (Inr ind, Inr sep) \<Rightarrow>
          (case map_to_string showk showv es indentation of
             Inl e \<Rightarrow> Inl e
           | Inr rest \<Rightarrow> Inr (ind @ showk k @ sep @ showv v @ [newline_char] @ rest))
      | (Inl e, _) \<Rightarrow> Inl e
      | (_, Inl e) \<Rightarrow> Inl e)"

definition map_to_string0 :: "('k \<Rightarrow> string) \<Rightarrow> ('v \<Rightarrow> string) \<Rightarrow> ('k \<times> 'v) list \<Rightarrow> string result" where
  "map_to_string0 showk showv table = map_to_string showk showv table 0"

text \<open>The values at the next level, then every sub table: its key on a line of its own and its entries below.\<close>

fun nested_to_string :: "('k \<Rightarrow> string) \<Rightarrow> ('v \<Rightarrow> string) \<Rightarrow> ('k, 'v) nested_map \<Rightarrow> int \<Rightarrow> string result"
and nested_maps_to_string ::
  "('k \<Rightarrow> string) \<Rightarrow> ('v \<Rightarrow> string) \<Rightarrow> ('k \<times> ('k, 'v) nested_map) list \<Rightarrow> int \<Rightarrow> string result" where
  "nested_to_string showk showv (Nested_Map d s) indentation =
     (case map_to_string showk showv d (indentation + 1) of
        Inl e \<Rightarrow> Inl e
      | Inr a \<Rightarrow>
          (case nested_maps_to_string showk showv s (indentation + 1) of
             Inl e \<Rightarrow> Inl e
           | Inr b \<Rightarrow> Inr (a @ b)))"
| "nested_maps_to_string showk showv [] indentation = Inr []"
| "nested_maps_to_string showk showv ((k, m) # es) indentation =
     (case indent indentation of
        Inl e \<Rightarrow> Inl e
      | Inr ind \<Rightarrow>
          (case nested_to_string showk showv m (indentation + 1) of
             Inl e \<Rightarrow> Inl e
           | Inr body \<Rightarrow>
               (case nested_maps_to_string showk showv es indentation of
                  Inl e \<Rightarrow> Inl e
                | Inr rest \<Rightarrow> Inr (ind @ showk k @ [newline_char] @ body @ rest))))"

definition nested_maps_to_string0 ::
  "('k \<Rightarrow> string) \<Rightarrow> ('v \<Rightarrow> string) \<Rightarrow> ('k \<times> ('k, 'v) nested_map) list \<Rightarrow> string result" where
  "nested_maps_to_string0 showk showv nested_maps = nested_maps_to_string showk showv nested_maps 0"

definition nested_to_string0 :: "('k \<Rightarrow> string) \<Rightarrow> ('v \<Rightarrow> string) \<Rightarrow> ('k, 'v) nested_map \<Rightarrow> string result" where
  "nested_to_string0 showk showv m = nested_to_string showk showv m (- 1)"

section \<open>The outline of a table\<close>

text \<open>The lines of the text, each with its level. A sub table's entries stand two levels below its key.\<close>

definition entry_line :: "('k \<Rightarrow> string) \<Rightarrow> ('v \<Rightarrow> string) \<Rightarrow> nat \<Rightarrow> 'k \<times> 'v \<Rightarrow> nat \<times> string" where
  "entry_line showk showv n e = (n, showk (fst e) @ tab_char # showv (snd e))"

primrec outline :: "('k \<Rightarrow> string) \<Rightarrow> ('v \<Rightarrow> string) \<Rightarrow> ('k, 'v) nested_map \<Rightarrow> nat \<Rightarrow> (nat \<times> string) list" where
  "outline showk showv (Nested_Map d s) n =
     map (entry_line showk showv n) d @
     concat (map (\<lambda>e. (n, showk (fst e)) # snd e (n + 2)) (map (map_prod id (outline showk showv)) s))"

definition render :: "(nat \<times> string) list \<Rightarrow> string" where
  "render ls = concat (map (\<lambda>(n, l). replicate n tab_char @ l @ [newline_char]) ls)"

lemma render_simps [simp]:
  "render [] = []"
  "render ((n, l) # ls) = replicate n tab_char @ l @ newline_char # render ls"
  "render (ls @ ls') = render ls @ render ls'"
  by (simp_all add: render_def)

lemma map_to_string_lines: "map_to_string showk showv d (int n) = Inr (render (map (entry_line showk showv n) d))"
  by (induction d) (auto simp: indent_def entry_line_def)

lemma nested_to_string_lines:
  "i = int n - 1 \<Longrightarrow> nested_to_string showk showv m i = Inr (render (outline showk showv m n))"
  "i = int n \<Longrightarrow> nested_maps_to_string showk showv s i =
     Inr (render (concat (map (\<lambda>e. (n, showk (fst e)) # outline showk showv (snd e) (n + 2)) s)))"
proof (induction showk showv m i and showk showv s i arbitrary: n and n
    rule: nested_to_string_nested_maps_to_string.induct)
  case (1 showk showv d s i)
  have "nested_maps_to_string showk showv s (int n) =
      Inr (render (concat (map (\<lambda>e. (n, showk (fst e)) # outline showk showv (snd e) (n + 2)) s)))"
    using 1 by (simp add: map_to_string_lines)
  with 1(2) show ?case
    by (simp add: map_to_string_lines comp_def)
next
  case (3 showk showv k m es i)
  have ind: "indent i = Inr (replicate n tab_char)"
    using 3(3) by (simp add: indent_def)
  have "nested_to_string showk showv m (i + 1) = Inr (render (outline showk showv m (n + 2)))"
    using 3(3) by (intro 3(1) [OF ind]) simp
  moreover from 3(2) [OF ind this 3(3)] have "nested_maps_to_string showk showv es i =
      Inr (render (concat (map (\<lambda>e. (n, showk (fst e)) # outline showk showv (snd e) (n + 2)) es)))" .
  ultimately show ?case
    using ind by simp
qed simp

text \<open>The text of a nested map. The conversion never throws; its text is the outline of the table: every value on
  a line with its key, every sub table under a line with its key and two tabulators further in, in the order
  of the maps and from level zero.\<close>

lemma nested_map_text: "nested_to_string0 showk showv m = Inr (render (outline showk showv m 0))"
  by (simp add: nested_to_string0_def nested_to_string_lines(1))

end
