(* ===== verification/Lockable.thy ===== *)
theory Lockable
  imports Cbeam_Prelude
begin

text \<open>
  A recursive mutex as \<open>interprocess_shared_memory::lock_guard\<close> and \<open>std::lock_guard\<close> use it. The locale \<open>lockable\<close> is what a
  guard relies on; it is interpreted for the POSIX mutex in \<^verbatim>\<open>Shared_Memory\<close> and for the Windows mutex in \<^verbatim>\<open>Windows_Code\<close>. A
  call that waits for the mutex returns \<open>None\<close>.
\<close>

text \<open>A guard unlocks in its destructor, which must not throw: an exception there ends the program.\<close>

datatype 'a guard_end = Ended "'a result" | Terminated

definition with_guard ::
  "(nat \<Rightarrow> 'k \<Rightarrow> (unit result \<times> 'k) option) \<Rightarrow> (nat \<Rightarrow> 'k \<Rightarrow> unit result \<times> 'k) \<Rightarrow> nat \<Rightarrow> ('k \<Rightarrow> 'a result \<times> 'k) \<Rightarrow> 'k \<Rightarrow>
   ('a guard_end \<times> 'k) option" where
  "with_guard lock unlock t body k =
     (case lock t k of
        None \<Rightarrow> None
      | Some (Inl e, k1) \<Rightarrow> Some (Ended (Inl e), k1)
      | Some (Inr _, k1) \<Rightarrow>
          (case body k1 of
             (r, k2) \<Rightarrow>
               (case unlock t k2 of
                  (Inl e, k3) \<Rightarrow> Some (Terminated, k3)
                | (Inr _, k3) \<Rightarrow> Some (Ended r, k3))))"

text \<open>\<open>held\<close> is the owner and the number of further times it has locked, \<open>usable\<close> that locking does not report an error by
  itself, and \<open>rest\<close> the state without the mutex.\<close>

locale lockable =
  fixes lock :: "nat \<Rightarrow> 'k \<Rightarrow> (unit result \<times> 'k) option"
    and unlock :: "nat \<Rightarrow> 'k \<Rightarrow> unit result \<times> 'k"
    and held :: "'k \<Rightarrow> (nat \<times> nat) option"
    and usable :: "'k \<Rightarrow> bool"
    and rest :: "'k \<Rightarrow> 'r"
    and max_depth :: nat
  assumes lock_free: "usable k \<Longrightarrow> held k = None \<Longrightarrow>
      \<exists>k'. lock t k = Some (Inr (), k') \<and> usable k' \<and> held k' = Some (t, 0) \<and> rest k' = rest k"
    and lock_again: "usable k \<Longrightarrow> held k = Some (t, n) \<Longrightarrow> n < max_depth \<Longrightarrow>
      \<exists>k'. lock t k = Some (Inr (), k') \<and> usable k' \<and> held k' = Some (t, Suc n) \<and> rest k' = rest k"
    and lock_other: "held k = Some (u, n) \<Longrightarrow> u \<noteq> t \<Longrightarrow> lock t k = None"
    and unlock_own: "usable k \<Longrightarrow> held k = Some (t, n) \<Longrightarrow>
      \<exists>k'. unlock t k = (Inr (), k') \<and> usable k' \<and> held k' = (case n of 0 \<Rightarrow> None | Suc m \<Rightarrow> Some (t, m)) \<and> rest k' = rest k"
    and unlock_free: "usable k \<Longrightarrow> held k = None \<Longrightarrow> \<exists>e. unlock t k = (Inl e, k)"
    and unlock_other: "held k = Some (u, n) \<Longrightarrow> u \<noteq> t \<Longrightarrow> \<exists>e. unlock t k = (Inl e, k)"
begin

definition free_for :: "nat \<Rightarrow> 'k \<Rightarrow> bool" where
  "free_for t k \<longleftrightarrow> usable k \<and> (held k = None \<or> (\<exists>n < max_depth. held k = Some (t, n)))"

text \<open>Locking what is free for the thread and unlocking it gives the mutex back as it was.\<close>

lemma lock_unlock:
  assumes "free_for t k"
  obtains k1 n where "lock t k = Some (Inr (), k1)" and "usable k1" and "held k1 = Some (t, n)" and "rest k1 = rest k"
    and "\<And>k2. usable k2 \<Longrightarrow> held k2 = held k1 \<Longrightarrow> \<exists>k3. unlock t k2 = (Inr (), k3) \<and> usable k3 \<and> held k3 = held k \<and> rest k3 = rest k2"
proof (cases "held k")
  case None
  then obtain k1 where k1: "lock t k = Some (Inr (), k1)" "usable k1" "held k1 = Some (t, 0)" "rest k1 = rest k"
    using assms lock_free [of k t] by (auto simp: free_for_def)
  show thesis
    by (rule that [OF k1]) (use None k1 unlock_own [of _ t 0] in auto)
next
  case (Some a)
  then obtain n where n: "held k = Some (t, n)" "n < max_depth"
    using assms by (auto simp: free_for_def)
  then obtain k1 where k1: "lock t k = Some (Inr (), k1)" "usable k1" "held k1 = Some (t, Suc n)" "rest k1 = rest k"
    using assms lock_again [of k t n] by (auto simp: free_for_def)
  show thesis
    by (rule that [OF k1]) (use n k1 unlock_own [of _ t "Suc n"] in auto)
qed

text \<open>A guard around a body that leaves the mutex alone: the result is that of the body, the mutex is as before, and the body
  sees the rest of the state as it was.\<close>

lemma guard_returns:
  assumes "free_for t k" and "\<And>k1. usable k1 \<Longrightarrow> usable (snd (body k1)) \<and> held (snd (body k1)) = held k1"
  shows "\<exists>k1 k3. rest k1 = rest k \<and> with_guard lock unlock t body k = Some (Ended (fst (body k1)), k3) \<and>
    held k3 = held k \<and> usable k3 \<and> rest k3 = rest (snd (body k1))"
proof -
  obtain k1 n where k1: "lock t k = Some (Inr (), k1)" "usable k1" "rest k1 = rest k"
    and release: "\<And>k2. usable k2 \<Longrightarrow> held k2 = held k1 \<Longrightarrow> \<exists>k3. unlock t k2 = (Inr (), k3) \<and> usable k3 \<and> held k3 = held k \<and> rest k3 = rest k2"
    using lock_unlock [OF assms(1)] by blast
  obtain k3 where "unlock t (snd (body k1)) = (Inr (), k3)" "usable k3" "held k3 = held k" "rest k3 = rest (snd (body k1))"
    using release [of "snd (body k1)"] assms(2) [OF k1(2)] by auto
  then show ?thesis
    using k1 by (cases "body k1") (fastforce simp: with_guard_def)
qed

lemma guard_waits: "held k = Some (u, n) \<Longrightarrow> u \<noteq> t \<Longrightarrow> with_guard lock unlock t body k = None"
  by (simp add: with_guard_def lock_other)

text \<open>What a copy of a guard does: two guards unlock what was locked once, and the second ends the program.\<close>

lemma copied_guard_terminates:
  assumes "usable k" and "held k = None"
  shows "\<exists>k1 k2 e. lock t k = Some (Inr (), k1) \<and> unlock t k1 = (Inr (), k2) \<and> unlock t k2 = (Inl e, k2)"
proof -
  have "free_for t k" using assms by (simp add: free_for_def)
  then obtain k1 n where k1: "lock t k = Some (Inr (), k1)" "usable k1"
    and "\<exists>k3. unlock t k1 = (Inr (), k3) \<and> usable k3 \<and> held k3 = held k \<and> rest k3 = rest k1"
    using lock_unlock by metis
  then show ?thesis
    using unlock_free assms(2) by metis
qed

end

end
