(* ===== verification/Shared_Memory.thy ===== *)
theory Shared_Memory
  imports Interprocess_Map Step_System Lockable
begin

text \<open>
  \<^verbatim>\<open>concurrency/named_recursive_mutex.hpp\<close> and \<^verbatim>\<open>memory/interprocess_shared_memory.hpp\<close> on POSIX: named shared memory
  objects, the recursive mutex that lives in one of them, and the segment that it protects.

  The state is the part of the kernel the code works with: the names, and the objects with their bytes and, for an
  object that holds a \<open>pthread_mutex_t\<close>, the state of the mutex. Whether a system call succeeds is an
  argument. What POSIX leaves undefined (initializing an initialized mutex, destroying a locked one,
  using one that is not initialized, touching a mapping beyond the end of its object) is \<open>undefined_behaviour\<close>. A
  call that waits for the mutex returns \<open>None\<close>.

  The second half runs the operations of the container, which lock, read, write and unlock in separate steps, in
  any interleaving and shows that each is atomic; \<^verbatim>\<open>Interprocess_Map\<close> rests on this.
\<close>

section \<open>The kernel\<close>

text \<open>A locked mutex has an owner and the number of further times the owner has locked it.\<close>

datatype mutex_state = Uninit | Unlocked | Locked nat nat

record shm_object =
  obj_bytes :: bytes
  obj_mutex :: mutex_state

record kernel =
  k_names :: "string \<Rightarrow> nat option"
  k_objects :: "nat \<Rightarrow> shm_object"
  k_next :: nat

record sys_choice =
  open_ok :: bool
  reopen_ok :: bool
  truncate_ok :: bool
  map_ok :: bool
  init_ok :: bool

definition sizeof_pthread_mutex :: nat where
  "sizeof_pthread_mutex = 40"

text \<open>\<open>ftruncate\<close> cuts or extends with zeros.\<close>

definition resize :: "nat \<Rightarrow> bytes \<Rightarrow> bytes" where
  "resize n bs = take n bs @ replicate (n - length bs) 0"

definition set_bytes :: "nat \<Rightarrow> bytes \<Rightarrow> kernel \<Rightarrow> kernel" where
  "set_bytes i bs K = K\<lparr>k_objects := (k_objects K)(i := (k_objects K i)\<lparr>obj_bytes := bs\<rparr>)\<rparr>"

definition set_mutex :: "nat \<Rightarrow> mutex_state \<Rightarrow> kernel \<Rightarrow> kernel" where
  "set_mutex i m K = K\<lparr>k_objects := (k_objects K)(i := (k_objects K i)\<lparr>obj_mutex := m\<rparr>)\<rparr>"

definition shm_open_create :: "string \<Rightarrow> kernel \<Rightarrow> nat \<times> kernel" where
  "shm_open_create name K =
     (case k_names K name of
        Some i \<Rightarrow> (i, K)
      | None \<Rightarrow>
          (k_next K,
           K\<lparr>k_names := (k_names K)(name := Some (k_next K)),
             k_objects := (k_objects K)(k_next K := \<lparr>obj_bytes = [], obj_mutex = Uninit\<rparr>),
             k_next := k_next K + 1\<rparr>))"

definition shm_unlink :: "string \<Rightarrow> kernel \<Rightarrow> kernel" where
  "shm_unlink name K = K\<lparr>k_names := (k_names K)(name := None)\<rparr>"

section \<open>The named recursive mutex\<close>

definition mutex_message :: "string \<Rightarrow> string" where
  "mutex_message s = ''cbeam::concurrency::named_recursive_mutex'' @ s"

text \<open>The mapping with the mutex, and whether the object is new.\<close>

definition mutex_open :: "sys_choice \<Rightarrow> string \<Rightarrow> kernel \<Rightarrow> (bool \<times> nat) result \<times> kernel" where
  "mutex_open c name K =
     (if \<not> open_ok c then (Inl (system_error (mutex_message ('': Failed to open shared memory: '' @ name))), K)
      else if k_names K name \<noteq> None \<and> \<not> reopen_ok c
      then (Inl (system_error (mutex_message ('': Failed to open existing shared memory: '' @ name))), K)
      else (case shm_open_create name K of (i, K1) \<Rightarrow> (Inr (k_names K name = None, i), K1)))"

definition named_recursive_mutex_ctor :: "nat \<Rightarrow> sys_choice \<Rightarrow> string \<Rightarrow> kernel \<Rightarrow> nat result \<times> kernel" where
  "named_recursive_mutex_ctor name_max c name K =
     (if length name > name_max
      then (Inl (system_error (mutex_message ('': '' @ [CHR 0x27] @ name @ [CHR 0x27] @
        '' exceeds maximum lengths for shm names of '' @ dec_nat name_max))), K)
      else (case mutex_open c name K of
              (Inl e, K1) \<Rightarrow> (Inl e, K1)
            | (Inr (is_new, i), K1) \<Rightarrow>
                if is_new \<and> \<not> truncate_ok c
                then (Inl (system_error (mutex_message ('': Failed to truncate shared memory: '' @ name))), K1)
                else
                  (let K2 = (if is_new then set_bytes i (resize sizeof_pthread_mutex (obj_bytes (k_objects K1 i))) K1 else K1)
                   in if \<not> map_ok c
                      then (Inl (system_error (mutex_message ('': Failed to map shared memory: '' @ name))), K2)
                      else if length (obj_bytes (k_objects K2 i)) < sizeof_pthread_mutex
                      then (Inl (undefined_behaviour out_of_bounds), K2)
                      else if obj_mutex (k_objects K2 i) \<noteq> Uninit
                      then (Inl (undefined_behaviour invalid_mutex), K2)
                      else if \<not> init_ok c
                      then (Inl (system_error (mutex_message ('': Failed to initialize mutex: '' @ name))), K2)
                      else (Inr i, set_mutex i Unlocked K2))))"

definition named_recursive_mutex_dtor :: "nat \<Rightarrow> kernel \<Rightarrow> unit result \<times> kernel" where
  "named_recursive_mutex_dtor i K =
     (case obj_mutex (k_objects K i) of
        Unlocked \<Rightarrow> (Inr (), set_mutex i Uninit K)
      | _ \<Rightarrow> (Inl (undefined_behaviour invalid_mutex), K))"

text \<open>\<open>max_depth\<close> is how often the owner can lock the mutex again. A mutex of recursive type reports an unlock by another
  thread.\<close>

definition mutex_lock :: "nat \<Rightarrow> nat \<Rightarrow> nat \<Rightarrow> kernel \<Rightarrow> (unit result \<times> kernel) option" where
  "mutex_lock max_depth t i K =
     (case obj_mutex (k_objects K i) of
        Uninit \<Rightarrow> Some (Inl (undefined_behaviour invalid_mutex), K)
      | Unlocked \<Rightarrow> Some (Inr (), set_mutex i (Locked t 0) K)
      | Locked owner n \<Rightarrow>
          if owner \<noteq> t then None
          else if n < max_depth then Some (Inr (), set_mutex i (Locked t (n + 1)) K)
          else Some (Inl (system_error (mutex_message ''::lock()'')), K))"

definition mutex_unlock :: "nat \<Rightarrow> nat \<Rightarrow> kernel \<Rightarrow> unit result \<times> kernel" where
  "mutex_unlock t i K =
     (case obj_mutex (k_objects K i) of
        Uninit \<Rightarrow> (Inl (undefined_behaviour invalid_mutex), K)
      | Unlocked \<Rightarrow> (Inl (system_error (mutex_message ''::unlock()'')), K)
      | Locked owner n \<Rightarrow>
          if owner \<noteq> t then (Inl (system_error (mutex_message ''::unlock()'')), K)
          else (Inr (), set_mutex i (if n = 0 then Unlocked else Locked t (n - 1)) K))"

section \<open>The shared memory segment\<close>

record interprocess_shared_memory =
  region_object :: nat
  region_size :: nat
  shared_memory_name :: string
  sm_mutex :: nat

definition sm_message :: "string \<Rightarrow> failure" where
  "sm_message s = runtime_error (''cbeam::memory::interprocess_shared_memory: '' @ s)"

text \<open>An exception in the body of the constructor unlocks the mutex and destroys it.\<close>

definition sm_unwind :: "nat \<Rightarrow> nat \<Rightarrow> failure \<Rightarrow> kernel \<Rightarrow> 'a result \<times> kernel" where
  "sm_unwind t m e K =
     (case mutex_unlock t m K of
        (Inl e', K1) \<Rightarrow> (Inl e', K1)
      | (Inr _, K1) \<Rightarrow>
          (case named_recursive_mutex_dtor m K1 of
             (Inl e', K2) \<Rightarrow> (Inl e', K2)
           | (Inr _, K2) \<Rightarrow> (Inl e, K2)))"

text \<open>The body of the constructor, with the mutex locked.\<close>

definition sm_body ::
  "sys_choice \<Rightarrow> nat \<Rightarrow> nat \<Rightarrow> string \<Rightarrow> nat \<Rightarrow> kernel \<Rightarrow> interprocess_shared_memory result \<times> kernel" where
  "sm_body c t m unique_identifier seg_size K =
     (if \<not> open_ok c then sm_unwind t m (sm_message (''Failed to create/open shared memory: '' @ unique_identifier)) K
      else (case shm_open_create (''/s_'' @ unique_identifier) K of (i, K1) \<Rightarrow>
        if \<not> truncate_ok c
        then sm_unwind t m (sm_message (''Failed to set size of shared memory: '' @ unique_identifier)) K1
        else
          (let K2 = set_bytes i (resize seg_size (obj_bytes (k_objects K1 i))) K1
           in if \<not> map_ok c
              then sm_unwind t m (sm_message (''Failed to map shared memory: '' @ unique_identifier)) K2
              else (case mutex_unlock t m K2 of
                      (Inl e, K3) \<Rightarrow> (Inl e, K3)
                    | (Inr _, K3) \<Rightarrow>
                        (Inr \<lparr>region_object = i, region_size = seg_size,
                              shared_memory_name = ''/s_'' @ unique_identifier, sm_mutex = m\<rparr>, K3)))))"

definition interprocess_shared_memory_ctor ::
  "nat \<Rightarrow> nat \<Rightarrow> sys_choice \<Rightarrow> sys_choice \<Rightarrow> nat \<Rightarrow> string \<Rightarrow> nat \<Rightarrow> kernel \<Rightarrow>
   (interprocess_shared_memory result \<times> kernel) option" where
  "interprocess_shared_memory_ctor name_max max_depth c c' t unique_identifier seg_size K =
     (case named_recursive_mutex_ctor name_max c (''m_'' @ unique_identifier) K of
        (Inl e, K1) \<Rightarrow> Some (Inl e, K1)
      | (Inr m, K1) \<Rightarrow>
          (case mutex_lock max_depth t m K1 of
             None \<Rightarrow> None
           | Some (Inl e, K2) \<Rightarrow>
               (case named_recursive_mutex_dtor m K2 of
                  (Inl e', K3) \<Rightarrow> Some (Inl e', K3)
                | (Inr _, K3) \<Rightarrow> Some (Inl e, K3))
           | Some (Inr _, K2) \<Rightarrow> Some (sm_body c' t m unique_identifier seg_size K2)))"

text \<open>A failing lock is caught and reported; then the mutex is destroyed in any case.\<close>

definition interprocess_shared_memory_dtor ::
  "nat \<Rightarrow> nat \<Rightarrow> interprocess_shared_memory \<Rightarrow> kernel \<Rightarrow> (unit result \<times> kernel) option" where
  "interprocess_shared_memory_dtor max_depth t sm K =
     (case mutex_lock max_depth t (sm_mutex sm) K of
        None \<Rightarrow> None
      | Some (Inl (system_error _), K1) \<Rightarrow> Some (named_recursive_mutex_dtor (sm_mutex sm) K1)
      | Some (Inl e, K1) \<Rightarrow> Some (Inl e, K1)
      | Some (Inr _, K1) \<Rightarrow>
          (case mutex_unlock t (sm_mutex sm) (shm_unlink (shared_memory_name sm) K1) of
             (Inl e, K2) \<Rightarrow> Some (Inl e, K2)
           | (Inr _, K2) \<Rightarrow> Some (named_recursive_mutex_dtor (sm_mutex sm) K2)))"

text \<open>The memory behind \<open>data()\<close>.\<close>

definition sm_data :: "interprocess_shared_memory \<Rightarrow> kernel \<Rightarrow> shm result" where
  "sm_data sm K =
     (let bs = obj_bytes (k_objects K (region_object sm))
      in if length bs < region_size sm then Inl (undefined_behaviour out_of_bounds)
         else Inr \<lparr>shm_bytes = take (region_size sm) bs\<rparr>)"

definition sm_write :: "interprocess_shared_memory \<Rightarrow> shm \<Rightarrow> kernel \<Rightarrow> kernel" where
  "sm_write sm m K =
     set_bytes (region_object sm)
       (shm_bytes m @ drop (length (shm_bytes m)) (obj_bytes (k_objects K (region_object sm)))) K"

definition sm_capacity :: "interprocess_shared_memory \<Rightarrow> nat" where
  "sm_capacity sm = region_size sm"

section \<open>Opening and closing\<close>

text \<open>Different names stand for different objects, and no name for an object not yet made.\<close>

definition kernel_ok :: "kernel \<Rightarrow> bool" where
  "kernel_ok K \<longleftrightarrow> (\<forall>n i. k_names K n = Some i \<longrightarrow> i < k_next K) \<and>
     (\<forall>n n' i. k_names K n = Some i \<and> k_names K n' = Some i \<longrightarrow> n = n')"

lemma kernel_ok_less: "kernel_ok K \<Longrightarrow> k_names K n = Some i \<Longrightarrow> i < k_next K"
  by (simp add: kernel_ok_def)

lemma kernel_ok_inj: "kernel_ok K \<Longrightarrow> k_names K n = Some i \<Longrightarrow> k_names K n' = Some i \<Longrightarrow> n = n'"
  by (simp add: kernel_ok_def)

lemma set_bytes_simps [simp]:
  "k_names (set_bytes i bs K) = k_names K" "k_next (set_bytes i bs K) = k_next K"
  "obj_mutex (k_objects (set_bytes i bs K) j) = obj_mutex (k_objects K j)"
  "obj_bytes (k_objects (set_bytes i bs K) j) = (if j = i then bs else obj_bytes (k_objects K j))"
  by (simp_all add: set_bytes_def)

lemma set_mutex_simps [simp]:
  "k_names (set_mutex i m K) = k_names K" "k_next (set_mutex i m K) = k_next K"
  "obj_bytes (k_objects (set_mutex i m K) j) = obj_bytes (k_objects K j)"
  "obj_mutex (k_objects (set_mutex i m K) j) = (if j = i then m else obj_mutex (k_objects K j))"
  by (simp_all add: set_mutex_def)

lemma set_other [simp]:
  "j \<noteq> i \<Longrightarrow> k_objects (set_bytes i bs K) j = k_objects K j" "j \<noteq> i \<Longrightarrow> k_objects (set_mutex i m K) j = k_objects K j"
  by (simp_all add: set_bytes_def set_mutex_def)

lemma kernel_ok_set [simp]: "kernel_ok (set_bytes i bs K) = kernel_ok K" "kernel_ok (set_mutex i m K) = kernel_ok K"
  by (simp_all add: kernel_ok_def)

lemma length_resize [simp]: "length (resize n bs) = n"
  by (simp add: resize_def)

definition named_bytes :: "string \<Rightarrow> kernel \<Rightarrow> bytes" where
  "named_bytes n K = (case k_names K n of None \<Rightarrow> [] | Some i \<Rightarrow> obj_bytes (k_objects K i))"

lemma shm_open_create_ok:
  assumes "kernel_ok K" and "shm_open_create name K = (i, K1)"
  shows "kernel_ok K1" and "k_names K1 = (k_names K)(name := Some i)" and "obj_bytes (k_objects K1 i) = named_bytes name K"
    and "\<And>n j. k_names K n = Some j \<Longrightarrow> k_objects K1 j = k_objects K j"
proof -
  have "kernel_ok K1 \<and> k_names K1 = (k_names K)(name := Some i) \<and> obj_bytes (k_objects K1 i) = named_bytes name K \<and>
    (\<forall>n j. k_names K n = Some j \<longrightarrow> k_objects K1 j = k_objects K j)"
  proof (cases "k_names K name")
    case None
    have "k_names K n \<noteq> Some (k_next K)" for n
      using kernel_ok_less [OF assms(1), of n "k_next K"] by auto
    then show ?thesis
      using None assms(2) kernel_ok_less [OF assms(1)] kernel_ok_inj [OF assms(1)]
      by (auto simp: shm_open_create_def named_bytes_def kernel_ok_def less_Suc_eq split: if_splits)
  next
    case (Some j)
    then show ?thesis
      using assms by (auto simp: shm_open_create_def named_bytes_def)
  qed
  then show "kernel_ok K1" and "k_names K1 = (k_names K)(name := Some i)" and "obj_bytes (k_objects K1 i) = named_bytes name K"
    and "\<And>n j. k_names K n = Some j \<Longrightarrow> k_objects K1 j = k_objects K j"
    by blast+
qed

lemma mutex_ctor_cases:
  assumes "kernel_ok K" and "named_recursive_mutex_ctor name_max c name K = (Inr i, K1)"
  shows "kernel_ok K1" and "k_names K1 = (k_names K)(name := Some i)" and "obj_mutex (k_objects K1 i) = Unlocked"
    and "sizeof_pthread_mutex \<le> length (obj_bytes (k_objects K1 i))"
    and "\<And>n j. k_names K n = Some j \<Longrightarrow> n \<noteq> name \<Longrightarrow> k_objects K1 j = k_objects K j \<and> j \<noteq> i"
proof -
  obtain K' where opened: "shm_open_create name K = (i, K')"
    and K1: "K1 = set_mutex i Unlocked
      (if k_names K name = None then set_bytes i (resize sizeof_pthread_mutex (obj_bytes (k_objects K' i))) K' else K')"
    and long: "k_names K name = None \<or> sizeof_pthread_mutex \<le> length (obj_bytes (k_objects K' i))"
    using assms(2)
    by (auto simp: named_recursive_mutex_ctor_def mutex_open_def Let_def split: if_splits prod.splits)
  note oc = shm_open_create_ok [OF assms(1) opened]
  show "kernel_ok K1" and "k_names K1 = (k_names K)(name := Some i)" and "obj_mutex (k_objects K1 i) = Unlocked"
    and "sizeof_pthread_mutex \<le> length (obj_bytes (k_objects K1 i))"
    using K1 oc(1,2) long by auto
  fix n j
  assume n: "k_names K n = Some j" "n \<noteq> name"
  then have "j \<noteq> i"
    using kernel_ok_less [OF assms(1), of n j] kernel_ok_inj [OF assms(1), of n j name] opened
    by (auto simp: shm_open_create_def split: option.splits)
  then show "k_objects K1 j = k_objects K j \<and> j \<noteq> i"
    using K1 oc(4) [OF n(1)] by simp
qed

text \<open>The mutex in object \<open>i\<close> is what a guard needs.\<close>

definition mutex_held :: "nat \<Rightarrow> kernel \<Rightarrow> (nat \<times> nat) option" where
  "mutex_held i K = (case obj_mutex (k_objects K i) of Locked t n \<Rightarrow> Some (t, n) | _ \<Rightarrow> None)"

definition mutex_usable :: "nat \<Rightarrow> kernel \<Rightarrow> bool" where
  "mutex_usable i K \<longleftrightarrow> obj_mutex (k_objects K i) \<noteq> Uninit"

lemma set_mutex_twice [simp]: "set_mutex i m (set_mutex i m' K) = set_mutex i m K"
  by (simp add: set_mutex_def)

interpretation posix_mutex: lockable "\<lambda>t. mutex_lock max_depth t i" "\<lambda>t. mutex_unlock t i" "mutex_held i" "mutex_usable i"
    "set_mutex i Uninit" max_depth for max_depth i
  by unfold_locales
    (auto simp: mutex_held_def mutex_usable_def mutex_lock_def mutex_unlock_def split: mutex_state.splits nat.splits)

text \<open>A segment that is open: the names are those of its objects, the mutex is free.\<close>

definition sm_open :: "interprocess_shared_memory \<Rightarrow> kernel \<Rightarrow> bool" where
  "sm_open sm K \<longleftrightarrow> region_object sm \<noteq> sm_mutex sm \<and>
     length (obj_bytes (k_objects K (region_object sm))) = region_size sm \<and>
     obj_mutex (k_objects K (sm_mutex sm)) = Unlocked \<and>
     sizeof_pthread_mutex \<le> length (obj_bytes (k_objects K (sm_mutex sm)))"

lemma named_bytes_frame:
  "k_names K1 n = k_names K n \<Longrightarrow> (\<And>j. k_names K n = Some j \<Longrightarrow> k_objects K1 j = k_objects K j) \<Longrightarrow>
   named_bytes n K1 = named_bytes n K"
  by (auto simp: named_bytes_def split: option.splits)

lemma sm_ctor_ok:
  assumes "kernel_ok K"
    and "interprocess_shared_memory_ctor name_max max_depth c c' t ident seg_size K = Some (Inr sm, K1)"
  shows "sm_open sm K1" and "kernel_ok K1" and "region_size sm = seg_size"
    and "obj_bytes (k_objects K1 (region_object sm)) = resize seg_size (named_bytes (''/s_'' @ ident) K)"
    and "k_names K1 = (k_names K)(''m_'' @ ident := Some (sm_mutex sm), ''/s_'' @ ident := Some (region_object sm))"
    and "shared_memory_name sm = ''/s_'' @ ident"
proof -
  obtain m K2 where m: "named_recursive_mutex_ctor name_max c (''m_'' @ ident) K = (Inr m, K2)"
    using assms(2) by (auto simp: interprocess_shared_memory_ctor_def split: prod.splits sum.splits)
  note mc = mutex_ctor_cases [OF assms(1) m]
  have lock: "mutex_lock max_depth t m K2 = Some (Inr (), set_mutex m (Locked t 0) K2)"
    using mc(3) by (simp add: mutex_lock_def)
  obtain i K3 where opened: "shm_open_create (''/s_'' @ ident) (set_mutex m (Locked t 0) K2) = (i, K3)" by force
  note oc = shm_open_create_ok [OF _ opened, simplified, OF mc(1)]
  have "k_names K2 (''m_'' @ ident) = Some m"
    using mc(2) by simp
  then have K3m: "k_objects K3 m = k_objects (set_mutex m (Locked t 0) K2) m"
    using oc(4) by blast
  let ?K4 = "set_bytes i (resize seg_size (obj_bytes (k_objects K3 i))) K3"
  have unlock: "mutex_unlock t m ?K4 = (Inr (), set_mutex m Unlocked ?K4)"
    using K3m by (simp add: mutex_unlock_def)
  have body: "sm_body c' t m ident seg_size (set_mutex m (Locked t 0) K2) = (Inr sm, K1)"
    using assms(2) m lock by (simp add: interprocess_shared_memory_ctor_def)
  have "sm_unwind t m e K' \<noteq> (Inr sm, K1)" for e K'
    by (auto simp: sm_unwind_def split: prod.splits sum.splits)
  then have res: "sm = \<lparr>region_object = i, region_size = seg_size, shared_memory_name = ''/s_'' @ ident, sm_mutex = m\<rparr>"
      "K1 = set_mutex m Unlocked ?K4"
    using body opened unlock by (auto simp: sm_body_def Let_def split: if_splits)
  have "named_bytes (''/s_'' @ ident) (set_mutex m (Locked t 0) K2) = named_bytes (''/s_'' @ ident) K"
    using mc(2,5) by (intro named_bytes_frame) (auto simp: set_mutex_def)
  moreover have "i \<noteq> m"
    using kernel_ok_inj [OF oc(1), of "''m_'' @ ident" m "''/s_'' @ ident"] oc(2) mc(2) by auto
  ultimately show "sm_open sm K1" and "kernel_ok K1" and "region_size sm = seg_size"
    and "obj_bytes (k_objects K1 (region_object sm)) = resize seg_size (named_bytes (''/s_'' @ ident) K)"
    and "k_names K1 = (k_names K)(''m_'' @ ident := Some (sm_mutex sm), ''/s_'' @ ident := Some (region_object sm))"
    and "shared_memory_name sm = ''/s_'' @ ident"
    using res oc mc(2,4) K3m by (simp_all add: sm_open_def)
qed

lemma sm_dtor_open:
  assumes "sm_open sm K"
  shows "interprocess_shared_memory_dtor max_depth t sm K =
    Some (Inr (), set_mutex (sm_mutex sm) Uninit (shm_unlink (shared_memory_name sm) K))"
  using assms
  by (simp add: interprocess_shared_memory_dtor_def sm_open_def mutex_lock_def mutex_unlock_def
      named_recursive_mutex_dtor_def shm_unlink_def set_mutex_def)

lemma resize_Nil [simp]: "resize n [] = replicate n 0"
  by (simp add: resize_def)

lemma named_bytes_None [simp]: "k_names K n = None \<Longrightarrow> named_bytes n K = []"
  by (simp add: named_bytes_def)

section \<open>Interleaved operations\<close>

text \<open>Every thread performs one operation on the open segment: it takes the lock guard, deserializes, serializes and
  releases the lock. \<open>th_op\<close> is the operation as a function on the bytes of the segment; an exception it throws is
  part of its result, since the guard releases the lock on both ways out.\<close>

datatype 'r thread_pc = T_start | T_locked | T_loaded shm | T_stored 'r | T_done 'r | T_failed failure

record 'r thread =
  th_op :: "shm \<Rightarrow> 'r \<times> shm"
  th_pc :: "'r thread_pc"

text \<open>\<open>ipc_order\<close> records the order in which the threads got the lock.\<close>

record 'r ipc =
  ipc_kernel :: kernel
  ipc_threads :: "'r thread list"
  ipc_order :: "nat list"

definition set_pc :: "nat \<Rightarrow> 'r thread_pc \<Rightarrow> 'r ipc \<Rightarrow> 'r ipc" where
  "set_pc i pc s = s\<lparr>ipc_threads := (ipc_threads s)[i := (ipc_threads s ! i)\<lparr>th_pc := pc\<rparr>]\<rparr>"

definition ipc_step :: "nat \<Rightarrow> interprocess_shared_memory \<Rightarrow> nat \<Rightarrow> 'r ipc \<Rightarrow> 'r ipc option" where
  "ipc_step max_depth sm i s =
     (if i < length (ipc_threads s) then
        (case th_pc (ipc_threads s ! i) of
           T_start \<Rightarrow>
             (case mutex_lock max_depth i (sm_mutex sm) (ipc_kernel s) of
                None \<Rightarrow> None
              | Some (Inl e, K) \<Rightarrow> Some (set_pc i (T_failed e) (s\<lparr>ipc_kernel := K\<rparr>))
              | Some (Inr _, K) \<Rightarrow>
                  Some (set_pc i T_locked (s\<lparr>ipc_kernel := K, ipc_order := ipc_order s @ [i]\<rparr>)))
         | T_locked \<Rightarrow>
             (case sm_data sm (ipc_kernel s) of
                Inl e \<Rightarrow> Some (set_pc i (T_failed e) s)
              | Inr m \<Rightarrow> Some (set_pc i (T_loaded m) s))
         | T_loaded m \<Rightarrow>
             (case th_op (ipc_threads s ! i) m of
                (r, m') \<Rightarrow> Some (set_pc i (T_stored r) (s\<lparr>ipc_kernel := sm_write sm m' (ipc_kernel s)\<rparr>)))
         | T_stored r \<Rightarrow>
             (case mutex_unlock i (sm_mutex sm) (ipc_kernel s) of
                (Inl e, K) \<Rightarrow> Some (set_pc i (T_failed e) (s\<lparr>ipc_kernel := K\<rparr>))
              | (Inr _, K) \<Rightarrow> Some (set_pc i (T_done r) (s\<lparr>ipc_kernel := K\<rparr>)))
         | T_done r \<Rightarrow> None
         | T_failed e \<Rightarrow> None)
      else None)"

definition ipc_start :: "kernel \<Rightarrow> (shm \<Rightarrow> 'r \<times> shm) list \<Rightarrow> 'r ipc" where
  "ipc_start K ops = \<lparr>ipc_kernel = K, ipc_threads = map (\<lambda>f. \<lparr>th_op = f, th_pc = T_start\<rparr>) ops, ipc_order = []\<rparr>"

inductive ipc_reachable ::
  "nat \<Rightarrow> interprocess_shared_memory \<Rightarrow> kernel \<Rightarrow> (shm \<Rightarrow> 'r \<times> shm) list \<Rightarrow> 'r ipc \<Rightarrow> bool"
  for max_depth sm K ops where
  start: "ipc_reachable max_depth sm K ops (ipc_start K ops)"
| step: "ipc_reachable max_depth sm K ops s \<Longrightarrow> ipc_step max_depth sm i s = Some s' \<Longrightarrow>
    ipc_reachable max_depth sm K ops s'"

fun ipc_run :: "nat \<Rightarrow> interprocess_shared_memory \<Rightarrow> nat list \<Rightarrow> 'r ipc \<Rightarrow> 'r ipc option" where
  "ipc_run max_depth sm [] s = Some s"
| "ipc_run max_depth sm (i # is) s =
     (case ipc_step max_depth sm i s of None \<Rightarrow> None | Some s' \<Rightarrow> ipc_run max_depth sm is s')"

interpretation ipc_steps: step_system "ipc_start K ops" "ipc_step max_depth sm" "ipc_reachable max_depth sm K ops"
    "ipc_run max_depth sm" for max_depth sm K ops
  by unfold_locales (auto intro: ipc_reachable.intros elim: ipc_reachable.induct)

text \<open>The specification: the operations one after the other.\<close>

definition serial :: "(shm \<Rightarrow> 'r \<times> shm) list \<Rightarrow> nat list \<Rightarrow> shm \<Rightarrow> shm" where
  "serial ops order m = fold (\<lambda>i x. snd ((ops ! i) x)) order m"

lemma serial_snoc [simp]: "serial ops (order @ [i]) m = snd ((ops ! i) (serial ops order m))"
  by (simp add: serial_def)

definition keeps_capacity :: "(shm \<Rightarrow> 'r \<times> shm) \<Rightarrow> bool" where
  "keeps_capacity f \<longleftrightarrow> (\<forall>m. capacity (snd (f m)) = capacity m)"

text \<open>An operation of a container as the code writes it: take the guard, work on the segment, release. Without another thread at
  work it has the effect of the operation on the bytes of the segment.\<close>

definition locked_operation ::
  "nat \<Rightarrow> nat \<Rightarrow> interprocess_shared_memory \<Rightarrow> (shm \<Rightarrow> 'r result \<times> shm) \<Rightarrow> kernel \<Rightarrow> ('r guard_end \<times> kernel) option" where
  "locked_operation max_depth t sm f K =
     with_guard (\<lambda>t. mutex_lock max_depth t (sm_mutex sm)) (\<lambda>t. mutex_unlock t (sm_mutex sm)) t
       (\<lambda>K1. case sm_data sm K1 of
          Inl e \<Rightarrow> (Inl e, K1)
        | Inr m \<Rightarrow> (case f m of (r, m') \<Rightarrow> (r, sm_write sm m' K1))) K"

lemma set_mutex_eqD: "set_mutex i m K = set_mutex i m K' \<Longrightarrow> obj_bytes (k_objects K j) = obj_bytes (k_objects K' j)"
  by (metis set_mutex_simps(3))

lemma sm_write_keeps_lock:
  "mutex_held i (sm_write sm m K) = mutex_held i K" "mutex_usable i (sm_write sm m K) = mutex_usable i K"
  by (simp_all add: mutex_held_def mutex_usable_def sm_write_def)

lemma locked_operation_correct:
  assumes "sm_open sm K" and "keeps_capacity f"
  shows "\<exists>K' r m'. f \<lparr>shm_bytes = obj_bytes (k_objects K (region_object sm))\<rparr> = (r, m') \<and>
    locked_operation max_depth t sm f K = Some (Ended r, K') \<and> sm_open sm K' \<and>
    obj_bytes (k_objects K' (region_object sm)) = shm_bytes m'"
proof -
  let ?i = "sm_mutex sm"
  let ?body = "\<lambda>K1. case sm_data sm K1 of Inl e \<Rightarrow> (Inl e, K1) | Inr m \<Rightarrow> (case f m of (r, m') \<Rightarrow> (r, sm_write sm m' K1))"
  have free: "posix_mutex.free_for ?i max_depth t K"
    using assms(1) by (simp add: posix_mutex.free_for_def sm_open_def mutex_held_def mutex_usable_def)
  have "mutex_usable ?i K1 \<Longrightarrow> mutex_usable ?i (snd (?body K1)) \<and> mutex_held ?i (snd (?body K1)) = mutex_held ?i K1" for K1
    by (simp add: sm_write_keeps_lock split: sum.split prod.split)
  from posix_mutex.guard_returns [where body = ?body, OF free this]
  obtain K1 K3 where K1: "set_mutex ?i Uninit K1 = set_mutex ?i Uninit K"
    and K3: "with_guard (\<lambda>t. mutex_lock max_depth t ?i) (\<lambda>t. mutex_unlock t ?i) t ?body K = Some (Ended (fst (?body K1)), K3)"
      "mutex_held ?i K3 = mutex_held ?i K" "mutex_usable ?i K3" "set_mutex ?i Uninit K3 = set_mutex ?i Uninit (snd (?body K1))"
    by blast
  obtain r m' where f: "f \<lparr>shm_bytes = obj_bytes (k_objects K (region_object sm))\<rparr> = (r, m')" by (rule prod.exhaust)
  have "capacity (snd (f \<lparr>shm_bytes = obj_bytes (k_objects K (region_object sm))\<rparr>)) =
      capacity \<lparr>shm_bytes = obj_bytes (k_objects K (region_object sm))\<rparr>"
    using assms(2) by (simp only: keeps_capacity_def)
  then have len: "length (shm_bytes m') = region_size sm"
    using assms(1) by (simp add: f capacity_def sm_open_def)
  have body: "?body K1 = (r, sm_write sm m' K1)"
    using f assms(1) set_mutex_eqD [OF K1] by (simp add: sm_data_def sm_open_def)
  have "obj_mutex (k_objects K3 ?i) = Unlocked"
    using K3(2,3) assms(1) by (auto simp: mutex_held_def mutex_usable_def sm_open_def split: mutex_state.splits)
  moreover have bytes: "obj_bytes (k_objects K3 j) = (if j = region_object sm then shm_bytes m' else obj_bytes (k_objects K j))" for j
    using set_mutex_eqD [OF K3(4), of j] set_mutex_eqD [OF K1, of j] len assms(1)
    by (auto simp: body sm_write_def sm_open_def)
  ultimately have "sm_open sm K3"
    using assms(1) len by (simp add: sm_open_def)
  moreover have "locked_operation max_depth t sm f K = Some (Ended r, K3)"
    unfolding locked_operation_def K3(1) by (simp only: body fst_conv)
  ultimately show ?thesis
    using f bytes by auto
qed

lemma capacity_serial:
  "\<forall>f\<in>set ops. keeps_capacity f \<Longrightarrow> set order \<subseteq> {..<length ops} \<Longrightarrow> capacity (serial ops order m) = capacity m"
  by (induction order rule: rev_induct) (auto simp: serial_def keeps_capacity_def)

definition pc_of :: "'r ipc \<Rightarrow> nat \<Rightarrow> 'r thread_pc" where
  "pc_of s i = th_pc (ipc_threads s ! i)"

definition segment :: "interprocess_shared_memory \<Rightarrow> 'r ipc \<Rightarrow> shm" where
  "segment sm s = \<lparr>shm_bytes = obj_bytes (k_objects (ipc_kernel s) (region_object sm))\<rparr>"

definition mutex_of :: "interprocess_shared_memory \<Rightarrow> 'r ipc \<Rightarrow> mutex_state" where
  "mutex_of sm s = obj_mutex (k_objects (ipc_kernel s) (sm_mutex sm))"

fun in_section :: "'r thread_pc \<Rightarrow> bool" where
  "in_section T_locked = True"
| "in_section (T_loaded m) = True"
| "in_section (T_stored r) = True"
| "in_section pc = False"

text \<open>\<open>fin\<close> are the threads that have finished, in order. Their results are those of the serial execution.\<close>

definition results_ok :: "(shm \<Rightarrow> 'r \<times> shm) list \<Rightarrow> shm \<Rightarrow> nat list \<Rightarrow> 'r ipc \<Rightarrow> bool" where
  "results_ok ops m0 fin s \<longleftrightarrow>
     (\<forall>k<length fin. pc_of s (fin ! k) = T_done (fst ((ops ! (fin ! k)) (serial ops (take k fin) m0))))"

definition section_ok ::
  "interprocess_shared_memory \<Rightarrow> (shm \<Rightarrow> 'r \<times> shm) list \<Rightarrow> shm \<Rightarrow> nat list \<Rightarrow> nat \<Rightarrow> 'r ipc \<Rightarrow> bool" where
  "section_ok sm ops m0 fin i s \<longleftrightarrow>
     (case pc_of s i of
        T_locked \<Rightarrow> segment sm s = serial ops fin m0
      | T_loaded m \<Rightarrow> segment sm s = serial ops fin m0 \<and> m = serial ops fin m0
      | T_stored r \<Rightarrow> segment sm s = serial ops (fin @ [i]) m0 \<and> r = fst ((ops ! i) (serial ops fin m0))
      | _ \<Rightarrow> False)"

definition ipc_inv :: "interprocess_shared_memory \<Rightarrow> (shm \<Rightarrow> 'r \<times> shm) list \<Rightarrow> shm \<Rightarrow> nat list \<Rightarrow> nat option \<Rightarrow> 'r ipc \<Rightarrow> bool" where
  "ipc_inv sm ops m0 fin holder s \<longleftrightarrow>
     map th_op (ipc_threads s) = ops \<and> distinct (ipc_order s) \<and> set (ipc_order s) \<subseteq> {..<length ops} \<and>
     (\<forall>i<length ops. i \<notin> set (ipc_order s) \<longrightarrow> pc_of s i = T_start) \<and> results_ok ops m0 fin s \<and>
     (case holder of
        None \<Rightarrow> ipc_order s = fin \<and> mutex_of sm s = Unlocked \<and> segment sm s = serial ops fin m0
      | Some i \<Rightarrow> ipc_order s = fin @ [i] \<and> mutex_of sm s = Locked i 0 \<and> section_ok sm ops m0 fin i s)"

lemma set_pc_simps [simp]:
  "ipc_kernel (set_pc i pc s) = ipc_kernel s" "ipc_order (set_pc i pc s) = ipc_order s"
  "map th_op (ipc_threads (set_pc i pc s)) = map th_op (ipc_threads s)"
  "length (ipc_threads (set_pc i pc s)) = length (ipc_threads s)"
  "segment sm (set_pc i pc s) = segment sm s" "mutex_of sm (set_pc i pc s) = mutex_of sm s"
  by (simp_all add: set_pc_def segment_def mutex_of_def map_update list_update_id)
    (metis list_update_id map_update nth_map list_update_beyond not_le length_map)

lemma pc_of_set_pc: "i < length (ipc_threads s) \<Longrightarrow> pc_of (set_pc i pc s) j = (if j = i then pc else pc_of s j)"
  by (simp add: set_pc_def pc_of_def)

lemma ipc_update_simps [simp]:
  "pc_of (s\<lparr>ipc_kernel := K\<rparr>) = pc_of s" "pc_of (s\<lparr>ipc_order := is\<rparr>) = pc_of s"
  "segment sm (s\<lparr>ipc_order := is\<rparr>) = segment sm s" "mutex_of sm (s\<lparr>ipc_order := is\<rparr>) = mutex_of sm s"
  by (simp_all add: pc_of_def segment_def mutex_of_def fun_eq_iff)

lemma results_ok_other:
  "i \<notin> set fin \<Longrightarrow> i < length (ipc_threads s) \<Longrightarrow> results_ok ops m0 fin s \<Longrightarrow> results_ok ops m0 fin (set_pc i pc s)"
  by (auto simp: results_ok_def pc_of_set_pc)

lemma results_ok_update [simp]:
  "results_ok ops m0 fin (s\<lparr>ipc_kernel := K\<rparr>) = results_ok ops m0 fin s"
  "results_ok ops m0 fin (s\<lparr>ipc_order := is\<rparr>) = results_ok ops m0 fin s"
  by (simp_all add: results_ok_def)

text \<open>Mutual exclusion: a thread in its critical section is the holder of the mutex.\<close>

lemma ipc_inv_section:
  assumes "ipc_inv sm ops m0 fin holder s" and "i < length ops" and "in_section (pc_of s i)"
  shows "holder = Some i"
proof -
  have "i \<in> set (ipc_order s)"
    using assms by (force simp: ipc_inv_def)
  moreover have "i \<notin> set fin"
    using assms(1,3) by (auto simp: ipc_inv_def results_ok_def in_set_conv_nth)
  ultimately show ?thesis
    using assms(1) by (auto simp: ipc_inv_def split: option.splits)
qed

lemma ipc_inv_lock:
  assumes inv: "ipc_inv sm ops m0 fin None s" and i: "i < length ops" "pc_of s i = T_start"
    and neq: "region_object sm \<noteq> sm_mutex sm"
  shows "ipc_inv sm ops m0 fin (Some i)
    (set_pc i T_locked (s\<lparr>ipc_kernel := set_mutex (sm_mutex sm) (Locked i 0) (ipc_kernel s), ipc_order := ipc_order s @ [i]\<rparr>))"
proof -
  have "i \<notin> set fin"
    using inv i(2) by (auto simp: ipc_inv_def results_ok_def in_set_conv_nth)
  moreover have "i < length (ipc_threads s)"
    using inv i(1) by (auto simp: ipc_inv_def)
  ultimately show ?thesis
    using inv i(1) neq
    by (auto simp: ipc_inv_def pc_of_set_pc section_ok_def results_ok_other mutex_of_def segment_def)
qed

lemma ipc_inv_holder:
  assumes "ipc_inv sm ops m0 fin (Some i) s"
  shows "i < length ops" and "length (ipc_threads s) = length ops" and "i \<notin> set fin" and "th_op (ipc_threads s ! i) = ops ! i"
    and "section_ok sm ops m0 fin i s" and "mutex_of sm s = Locked i 0" and "ipc_order s = fin @ [i]"
    and "map th_op (ipc_threads s) = ops" and "distinct (ipc_order s)" and "set (ipc_order s) \<subseteq> {..<length ops}"
proof -
  from assms have *: "map th_op (ipc_threads s) = ops" "ipc_order s = fin @ [i]" "distinct (ipc_order s)"
      "set (ipc_order s) \<subseteq> {..<length ops}" "section_ok sm ops m0 fin i s" "mutex_of sm s = Locked i 0"
    unfolding ipc_inv_def option.case by blast+
  show "ipc_order s = fin @ [i]" and "section_ok sm ops m0 fin i s" and "mutex_of sm s = Locked i 0"
    and "map th_op (ipc_threads s) = ops" and "distinct (ipc_order s)" and "set (ipc_order s) \<subseteq> {..<length ops}"
    by (rule *)+
  show "i < length ops" and "i \<notin> set fin"
    using *(2-4) by auto
  show len: "length (ipc_threads s) = length ops"
    using arg_cong [OF *(1), of length] by simp
  show "th_op (ipc_threads s ! i) = ops ! i"
    using *(1) len \<open>i < length ops\<close> by (metis nth_map)
qed

text \<open>The other threads do not move while the holder does.\<close>

lemma ipc_inv_frame:
  assumes inv: "ipc_inv sm ops m0 fin (Some i) s" and ops: "map th_op (ipc_threads s') = map th_op (ipc_threads s)"
    and order: "ipc_order s' = ipc_order s" and pcs: "\<And>j. j \<noteq> i \<Longrightarrow> pc_of s' j = pc_of s j"
  shows "results_ok ops m0 fin s'" and "\<forall>j<length ops. j \<notin> set (ipc_order s') \<longrightarrow> pc_of s' j = T_start"
    and "mutex_of sm s' = Locked i 0 \<Longrightarrow> section_ok sm ops m0 fin i s' \<Longrightarrow> ipc_inv sm ops m0 fin (Some i) s'"
proof -
  note holder = ipc_inv_holder [OF inv]
  have "pc_of s' (fin ! k) = pc_of s (fin ! k)" if "k < length fin" for k
    using holder(3) that by (intro pcs) (metis nth_mem)
  then show res: "results_ok ops m0 fin s'"
    using inv unfolding ipc_inv_def results_ok_def by metis
  show starts: "\<forall>j<length ops. j \<notin> set (ipc_order s') \<longrightarrow> pc_of s' j = T_start"
    using inv order pcs holder(7) unfolding ipc_inv_def by (metis in_set_conv_decomp)
  show "ipc_inv sm ops m0 fin (Some i) s'" if "mutex_of sm s' = Locked i 0" and "section_ok sm ops m0 fin i s'"
    using holder(7-) ops order res starts that by (simp add: ipc_inv_def)
qed

lemma ipc_inv_load:
  assumes inv: "ipc_inv sm ops m0 fin (Some i) s" and pc: "pc_of s i = T_locked"
  shows "ipc_inv sm ops m0 fin (Some i) (set_pc i (T_loaded (segment sm s)) s)"
  using ipc_inv_holder [OF inv] pc
  by (intro ipc_inv_frame(3) [OF inv]) (simp_all add: pc_of_set_pc section_ok_def)

lemma ipc_inv_store:
  assumes inv: "ipc_inv sm ops m0 fin (Some i) s" and pc: "pc_of s i = T_loaded m" and op: "(ops ! i) m = (r, m')"
    and cap: "capacity m' = capacity m"
  shows "ipc_inv sm ops m0 fin (Some i) (set_pc i (T_stored r) (s\<lparr>ipc_kernel := sm_write sm m' (ipc_kernel s)\<rparr>))"
    (is "ipc_inv _ _ _ _ _ (set_pc i _ ?s)")
proof -
  note holder = ipc_inv_holder [OF inv]
  have m: "m = segment sm s" "m = serial ops fin m0"
    using holder(5) pc by (simp_all add: section_ok_def)
  have "segment sm ?s = m'"
    using cap m(1) by (cases m') (simp add: segment_def sm_write_def capacity_def)
  then have "segment sm ?s = serial ops (fin @ [i]) m0" and "r = fst ((ops ! i) (serial ops fin m0))"
    using op m(2) by simp_all
  moreover have "mutex_of sm ?s = mutex_of sm s"
    by (simp add: mutex_of_def sm_write_def)
  ultimately show ?thesis
    using holder by (intro ipc_inv_frame(3) [OF inv]) (simp_all add: pc_of_set_pc section_ok_def)
qed

lemma ipc_inv_unlock:
  assumes inv: "ipc_inv sm ops m0 fin (Some i) s" and pc: "pc_of s i = T_stored r"
    and neq: "region_object sm \<noteq> sm_mutex sm"
  shows "ipc_inv sm ops m0 (fin @ [i]) None
    (set_pc i (T_done r) (s\<lparr>ipc_kernel := set_mutex (sm_mutex sm) Unlocked (ipc_kernel s)\<rparr>))" (is "ipc_inv _ _ _ _ _ ?s")
proof -
  note holder = ipc_inv_holder [OF inv]
  have r: "r = fst ((ops ! i) (serial ops fin m0))" and seg: "segment sm s = serial ops (fin @ [i]) m0"
    using holder(5) pc by (simp_all add: section_ok_def)
  have pcs: "pc_of ?s j = (if j = i then T_done r else pc_of s j)" for j
    using holder(1,2) by (simp add: pc_of_set_pc)
  have "results_ok ops m0 fin ?s" and starts: "\<forall>j<length ops. j \<notin> set (ipc_order ?s) \<longrightarrow> pc_of ?s j = T_start"
    using ipc_inv_frame(1,2) [OF inv, of ?s] pcs by simp_all
  then have "results_ok ops m0 (fin @ [i]) ?s"
    by (auto simp: results_ok_def pcs nth_append less_Suc_eq r [symmetric])
  moreover have "segment sm ?s = segment sm s" and "mutex_of sm ?s = Unlocked"
    using neq by (simp_all add: segment_def mutex_of_def)
  ultimately show ?thesis
    using seg starts holder(7-) by (simp add: ipc_inv_def)
qed

lemma ipc_inv_step:
  assumes inv: "ipc_inv sm ops m0 fin holder s" and keep: "\<forall>f\<in>set ops. keeps_capacity f"
    and cap: "capacity m0 = region_size sm" and neq: "region_object sm \<noteq> sm_mutex sm"
    and step: "ipc_step max_depth sm i s = Some s'"
  shows "\<exists>fin' holder'. ipc_inv sm ops m0 fin' holder' s'"
proof -
  have i: "i < length (ipc_threads s)" "length (ipc_threads s) = length ops"
    using step inv by (auto simp: ipc_step_def ipc_inv_def split: if_splits)
  show ?thesis
  proof (cases "in_section (pc_of s i)")
    case True
    with inv i have h: "holder = Some i"
      by (metis ipc_inv_section)
    have op: "th_op (ipc_threads s ! i) = ops ! i" and mem: "ops ! i \<in> set ops"
      using ipc_inv_holder [OF inv [unfolded h]] by simp_all
    have "set fin \<subseteq> {..<length ops}"
      using inv h by (auto simp: ipc_inv_def)
    then have c: "capacity (serial ops fin m0) = region_size sm"
      using capacity_serial [OF keep] cap by simp
    show ?thesis
    proof (cases "pc_of s i")
      case T_locked
      then have "segment sm s = serial ops fin m0"
        using inv h by (simp add: ipc_inv_def section_ok_def)
      with c have "length (obj_bytes (k_objects (ipc_kernel s) (region_object sm))) = region_size sm"
        by (metis capacity_def segment_def shm.select_convs(1))
      then have "sm_data sm (ipc_kernel s) = Inr (segment sm s)"
        by (simp add: sm_data_def segment_def)
      with T_locked step i have "s' = set_pc i (T_loaded (segment sm s)) s"
        by (simp add: ipc_step_def pc_of_def)
      with ipc_inv_load [OF inv [unfolded h] T_locked] show ?thesis by blast
    next
      case (T_loaded m)
      obtain r m' where rm: "(ops ! i) m = (r, m')" by force
      with T_loaded step i op have "s' = set_pc i (T_stored r) (s\<lparr>ipc_kernel := sm_write sm m' (ipc_kernel s)\<rparr>)"
        by (simp add: ipc_step_def pc_of_def)
      moreover have "capacity m' = capacity m"
        using keep mem rm by (metis keeps_capacity_def snd_conv)
      ultimately show ?thesis
        using ipc_inv_store [OF inv [unfolded h] T_loaded rm] by blast
    next
      case (T_stored r)
      have "mutex_of sm s = Locked i 0"
        using inv h by (simp add: ipc_inv_def)
      with T_stored step i have "s' = set_pc i (T_done r) (s\<lparr>ipc_kernel := set_mutex (sm_mutex sm) Unlocked (ipc_kernel s)\<rparr>)"
        by (simp add: ipc_step_def pc_of_def mutex_of_def mutex_unlock_def)
      with ipc_inv_unlock [OF inv [unfolded h] T_stored neq] show ?thesis by blast
    qed (use True in simp_all)
  next
    case False
    then have start: "pc_of s i = T_start"
      using step i(1) by (cases "pc_of s i") (simp_all add: ipc_step_def pc_of_def)
    show ?thesis
    proof (cases holder)
      case None
      then have "mutex_of sm s = Unlocked"
        using inv by (simp add: ipc_inv_def)
      with start step i have "s' = set_pc i T_locked
          (s\<lparr>ipc_kernel := set_mutex (sm_mutex sm) (Locked i 0) (ipc_kernel s), ipc_order := ipc_order s @ [i]\<rparr>)"
        by (simp add: ipc_step_def pc_of_def mutex_of_def mutex_lock_def)
      with ipc_inv_lock [OF inv [unfolded None] _ start neq] i show ?thesis by auto
    next
      case (Some j)
      then have "mutex_of sm s = Locked j 0" and "j \<noteq> i"
        using inv start by (auto simp: ipc_inv_def section_ok_def)
      with start step i(1) show ?thesis
        by (simp add: ipc_step_def pc_of_def mutex_of_def mutex_lock_def)
    qed
  qed
qed

lemma ipc_inv_start:
  assumes "sm_open sm K"
  shows "ipc_inv sm ops \<lparr>shm_bytes = obj_bytes (k_objects K (region_object sm))\<rparr> [] None (ipc_start K ops)"
  using assms
  by (auto simp: ipc_inv_def ipc_start_def sm_open_def results_ok_def mutex_of_def segment_def serial_def pc_of_def comp_def)

lemma ipc_inv_reachable:
  assumes "ipc_reachable max_depth sm K ops s" and "sm_open sm K" and "\<forall>f\<in>set ops. keeps_capacity f"
  shows "\<exists>fin holder. ipc_inv sm ops \<lparr>shm_bytes = obj_bytes (k_objects K (region_object sm))\<rparr> fin holder s"
  using assms(1)
proof induction
  case start
  from ipc_inv_start [OF assms(2)] show ?case by blast
next
  case (step s i s')
  with ipc_inv_step [OF _ assms(3)] assms(2) show ?case
    by (fastforce simp: sm_open_def capacity_def)
qed

section \<open>Properties\<close>

lemma ipc_inv_not_failed:
  assumes "ipc_inv sm ops m0 fin holder s" and "i < length ops"
  shows "pc_of s i \<noteq> T_failed e"
proof
  assume pc: "pc_of s i = T_failed e"
  then have "i \<in> set (ipc_order s)"
    using assms by (force simp: ipc_inv_def)
  moreover have "i \<notin> set fin"
    using assms(1) pc by (auto simp: ipc_inv_def results_ok_def in_set_conv_nth)
  ultimately have "holder = Some i"
    using assms(1) by (auto simp: ipc_inv_def split: option.splits)
  with assms(1) pc show False
    using ipc_inv_holder(5) [of sm ops m0 fin i s] by (simp add: section_ok_def)
qed

lemma ipc_inv_done:
  assumes inv: "ipc_inv sm ops m0 fin holder s" and i: "i < length ops" and pc: "pc_of s i = T_done r"
  shows "i \<in> set fin"
proof -
  have "i \<in> set (ipc_order s)"
    using inv i pc by (force simp: ipc_inv_def)
  moreover have "holder \<noteq> Some i"
    using ipc_inv_holder(5) [of sm ops m0 fin i s] inv pc by (auto simp: section_ok_def)
  ultimately show ?thesis
    using inv by (auto simp: ipc_inv_def split: option.splits)
qed

lemma ipc_inv_quiet:
  assumes inv: "ipc_inv sm ops m0 fin holder s" and "\<forall>i<length ops. \<not> in_section (pc_of s i)"
  shows "segment sm s = serial ops fin m0"
proof (cases holder)
  case None
  with inv show ?thesis by (simp add: ipc_inv_def)
next
  case (Some i)
  then have "section_ok sm ops m0 fin i s" and "\<not> in_section (pc_of s i)"
    using ipc_inv_holder(1,5) inv assms(2) by blast+
  then show ?thesis
    by (cases "pc_of s i") (simp_all add: section_ok_def)
qed

lemma ipc_inv_enabled:
  assumes inv: "ipc_inv sm ops m0 fin holder s" and i: "i < length ops" and "\<forall>r. pc_of s i \<noteq> T_done r"
  shows "\<exists>j s'. j < length ops \<and> ipc_step max_depth sm j s = Some s'"
proof (cases holder)
  case None
  have len: "length (ipc_threads s) = length ops" and "mutex_of sm s = Unlocked"
    using inv None by (auto simp: ipc_inv_def)
  moreover have "pc_of s i = T_start"
    using ipc_inv_section [OF inv i] ipc_inv_not_failed [OF inv i] assms(3) None by (cases "pc_of s i") auto
  ultimately have "ipc_step max_depth sm i s \<noteq> None"
    using i by (simp add: ipc_step_def pc_of_def mutex_of_def mutex_lock_def)
  with i show ?thesis by blast
next
  case (Some j)
  note holder = ipc_inv_holder [OF inv [unfolded Some]]
  have "ipc_step max_depth sm j s \<noteq> None"
    using holder(1,2,5) by (cases "pc_of s j") (auto simp: section_ok_def ipc_step_def pc_of_def split: sum.splits prod.splits)
  with holder(1) show ?thesis by blast
qed

text \<open>Two modules count the same block at the same time.\<close>

definition demo_choice :: sys_choice where
  "demo_choice = \<lparr>open_ok = True, reopen_ok = True, truncate_ok = True, map_ok = True, init_ok = True\<rparr>"

definition demo_kernel :: kernel where
  "demo_kernel = \<lparr>k_names = (\<lambda>_. None), k_objects = (\<lambda>_. \<lparr>obj_bytes = [], obj_mutex = Uninit\<rparr>), k_next = 0\<rparr>"

definition count_block :: "shm \<Rightarrow> unit result \<times> shm" where
  "count_block = ipm_update_or_insert uc_traits 16 (\<lambda>n. Inr (n + 1)) 1"

definition demo_opened :: "interprocess_shared_memory \<times> kernel" where
  "demo_opened =
     (case interprocess_shared_memory_ctor 255 10 demo_choice demo_choice 7 ''srb'' 32 demo_kernel of
        Some (Inr sm, K) \<Rightarrow> (sm, K) | _ \<Rightarrow> undefined)"

text \<open>Thread 1 tries to lock while thread 0 is inside and has to wait.\<close>

definition demo_ipc :: "unit result ipc" where
  "demo_ipc = the (ipc_run 10 (fst demo_opened) [0, 0, 0, 0, 1, 1, 1, 1] (ipc_start (snd demo_opened) [count_block, count_block]))"

lemma capacity_store_snd [simp]: "capacity (snd (ipm_store T x m)) = capacity m"
  by (metis capacity_store prod.collapse)

lemma keeps_capacity_ipm_update_or_insert: "keeps_capacity (ipm_update_or_insert T k f d)"
  by (auto simp: keeps_capacity_def ipm_update_or_insert_def split: sum.splits option.splits)

lemma keeps_capacity_ipm:
  "keeps_capacity (ipm_clear T)" "keeps_capacity (ipm_insert T k v)" "keeps_capacity (ipm_erase T k)"
  "keeps_capacity (ipm_update T k f msg)"
  by (auto simp: keeps_capacity_def ipm_clear_def ipm_insert_def ipm_erase_def ipm_update_def
      split: sum.splits option.splits prod.splits intro: capacity_store)

lemma demo_opened: "interprocess_shared_memory_ctor 255 10 demo_choice demo_choice 7 ''srb'' 32 demo_kernel =
    Some (Inr (fst demo_opened), snd demo_opened)"
  by (simp add: demo_opened_def interprocess_shared_memory_ctor_def named_recursive_mutex_ctor_def mutex_open_def
      shm_open_create_def demo_kernel_def demo_choice_def mutex_lock_def sm_body_def mutex_unlock_def Let_def)

lemma demo_kernel_ok: "kernel_ok demo_kernel"
  by (simp add: kernel_ok_def demo_kernel_def)

lemma demo_ipc_reachable: "ipc_reachable 10 (fst demo_opened) (snd demo_opened) [count_block, count_block] demo_ipc"
proof -
  have "\<not> Option.is_none (ipc_run 10 (fst demo_opened) [0, 0, 0, 0, 1, 1, 1, 1]
      (ipc_start (snd demo_opened) [count_block, count_block]))"
    by code_simp
  then have "ipc_run 10 (fst demo_opened) [0, 0, 0, 0, 1, 1, 1, 1] (ipc_start (snd demo_opened) [count_block, count_block]) =
      Some demo_ipc"
    by (auto simp: demo_ipc_def Option.is_none_def)
  then show ?thesis
    by (rule ipc_steps.run_start)
qed

lemma demo_ipc_pcs: "pc_of demo_ipc 0 = T_done (Inr ())" "pc_of demo_ipc 1 = T_done (Inr ())"
  by code_simp+

text \<open>C16. Operations on shared memory are atomic. After a segment has been opened, any number of threads run operations
  that lock, read, write and unlock step by step, in any interleaving. At every moment at most one thread is
  between lock and unlock, no thread has failed, and there is an order of the finished operations such that each has
  returned what it returns when they run one after the other from the segment's first content; whenever no thread is
  inside, the segment holds the result of that serial execution.\<close>

theorem shared_operations_atomic:
  assumes "kernel_ok K0"
    and "interprocess_shared_memory_ctor name_max max_depth c c' t ident seg_size K0 = Some (Inr sm, K)"
    and "\<forall>f\<in>set ops. keeps_capacity f" and "ipc_reachable max_depth sm K ops s"
    and m0: "m0 = \<lparr>shm_bytes = resize seg_size (named_bytes (''/s_'' @ ident) K0)\<rparr>"
  shows "(\<forall>i<length ops. \<forall>j<length ops. in_section (pc_of s i) \<and> in_section (pc_of s j) \<longrightarrow> i = j) \<and>
    (\<forall>i<length ops. \<forall>e. pc_of s i \<noteq> T_failed e) \<and>
    (\<exists>fin. distinct fin \<and> set fin \<subseteq> {..<length ops} \<and> (\<forall>i<length ops. (\<exists>r. pc_of s i = T_done r) \<longleftrightarrow> i \<in> set fin) \<and>
      (\<forall>k<length fin. pc_of s (fin ! k) = T_done (fst ((ops ! (fin ! k)) (serial ops (take k fin) m0)))) \<and>
      ((\<forall>i<length ops. \<not> in_section (pc_of s i)) \<longrightarrow> segment sm s = serial ops fin m0))"
proof -
  note opened = sm_ctor_ok [OF assms(1,2)]
  obtain fin holder where inv: "ipc_inv sm ops m0 fin holder s"
    using ipc_inv_reachable [OF assms(4) opened(1) assms(3)] opened(4) m0 by auto
  have "\<forall>i<length ops. \<forall>j<length ops. in_section (pc_of s i) \<and> in_section (pc_of s j) \<longrightarrow> i = j"
    using ipc_inv_section [OF inv] by (metis option.inject)
  moreover have "\<forall>i<length ops. \<forall>e. pc_of s i \<noteq> T_failed e"
    using ipc_inv_not_failed [OF inv] by blast
  moreover have "distinct fin" and "set fin \<subseteq> {..<length ops}"
    using inv by (auto simp: ipc_inv_def split: option.splits)
  moreover have res: "\<forall>k<length fin. pc_of s (fin ! k) = T_done (fst ((ops ! (fin ! k)) (serial ops (take k fin) m0)))"
    using inv unfolding ipc_inv_def results_ok_def by blast
  moreover have "\<forall>i<length ops. (\<exists>r. pc_of s i = T_done r) \<longleftrightarrow> i \<in> set fin"
    using ipc_inv_done [OF inv] res by (metis in_set_conv_nth)
  moreover have "(\<forall>i<length ops. \<not> in_section (pc_of s i)) \<longrightarrow> segment sm s = serial ops fin m0"
    using ipc_inv_quiet [OF inv] by blast
  ultimately show ?thesis by blast
qed

theorem shared_operations_atomic_witness:
  "segment (fst demo_opened) demo_ipc = snd (count_block (snd (count_block (shm_create 32))))"
proof -
  have keep: "\<forall>f\<in>set [count_block, count_block]. keeps_capacity f"
    using keeps_capacity_ipm_update_or_insert by (simp add: count_block_def)
  have "resize 32 (named_bytes (''/s_'' @ ''srb'') demo_kernel) = replicate 32 0"
    by (simp add: named_bytes_def demo_kernel_def)
  then obtain fin where fin: "distinct fin" "set fin \<subseteq> {..<2}" "0 \<in> set fin" "1 \<in> set fin"
    and seg: "segment (fst demo_opened) demo_ipc = serial [count_block, count_block] fin (shm_create 32)"
    using shared_operations_atomic [OF demo_kernel_ok demo_opened keep demo_ipc_reachable refl] demo_ipc_pcs
    by (auto simp: All_less_Suc shm_create_def numeral_2_eq_2)
  have "set fin = {0, 1}"
    using fin(2-) by (auto simp: less_2_cases_iff)
  with fin(1) have "length fin = 2"
    using distinct_card [of fin] by simp
  then obtain a b where "fin = [a, b]"
    by (metis (no_types, lifting) One_nat_def Suc_1 length_0_conv length_Suc_conv)
  with seg \<open>set fin = {0, 1}\<close> show ?thesis
    by (auto simp: serial_def doubleton_eq_iff)
qed

text \<open>C17. No deadlock. As long as some operation on the segment has not finished, some thread can take a step.\<close>

theorem shared_operations_progress:
  assumes "kernel_ok K0"
    and "interprocess_shared_memory_ctor name_max max_depth c c' t ident seg_size K0 = Some (Inr sm, K)"
    and "\<forall>f\<in>set ops. keeps_capacity f" and "ipc_reachable max_depth sm K ops s"
    and "i < length ops" and "\<forall>r. pc_of s i \<noteq> T_done r"
  shows "\<exists>j s'. j < length ops \<and> ipc_step max_depth sm j s = Some s'"
  using ipc_inv_reachable [OF assms(4) sm_ctor_ok(1) [OF assms(1,2)] assms(3)] ipc_inv_enabled assms(5,6) by blast

theorem shared_operations_progress_witness:
  "\<exists>j s'. j < 2 \<and> ipc_step 10 (fst demo_opened) j (ipc_start (snd demo_opened) [count_block, count_block]) = Some s'"
proof -
  have keep: "\<forall>f\<in>set [count_block, count_block]. keeps_capacity f"
    using keeps_capacity_ipm_update_or_insert by (simp add: count_block_def)
  have "pc_of (ipc_start (snd demo_opened) [count_block, count_block]) 0 \<noteq> T_done r" for r
    by (simp add: pc_of_def ipc_start_def)
  then show ?thesis
    using shared_operations_progress [OF demo_kernel_ok demo_opened keep ipc_reachable.start, of 0]
    by (simp add: numeral_2_eq_2)
qed

text \<open>Opening twice. While a segment is open, opening it again, in the same or another process, initializes a mutex
  that is already initialized, which POSIX leaves undefined.\<close>

lemma second_opening_undefined:
  assumes "kernel_ok K0"
    and "interprocess_shared_memory_ctor name_max max_depth c c' t ident seg_size K0 = Some (Inr sm, K)"
    and "open_ok d" and "reopen_ok d" and "map_ok d"
  shows "interprocess_shared_memory_ctor name_max max_depth' d d' t' ident seg_size' K =
    Some (Inl (undefined_behaviour invalid_mutex), K)"
proof -
  note opened = sm_ctor_ok [OF assms(1,2)]
  have "length (''m_'' @ ident) \<le> name_max"
    using assms(2) by (auto simp: interprocess_shared_memory_ctor_def named_recursive_mutex_ctor_def split: if_splits)
  moreover have "k_names K (''m_'' @ ident) = Some (sm_mutex sm)"
    using opened(5) by simp
  ultimately show ?thesis
    using opened(1) assms(3-)
    by (simp add: interprocess_shared_memory_ctor_def named_recursive_mutex_ctor_def mutex_open_def
        shm_open_create_def sm_open_def)
qed

lemma second_opening_undefined_witness:
  "interprocess_shared_memory_ctor 255 10 demo_choice demo_choice 8 ''srb'' 32 (snd demo_opened) =
    Some (Inl (undefined_behaviour invalid_mutex), snd demo_opened)"
  using second_opening_undefined [OF demo_kernel_ok demo_opened, of demo_choice] by (simp add: demo_choice_def)

text \<open>Closing removes the name of the segment but not that of the mutex. The segment opened next under the name is new
  and zero.\<close>

lemma closed_segment:
  assumes "kernel_ok K0"
    and "interprocess_shared_memory_ctor name_max max_depth c c' t ident seg_size K0 = Some (Inr sm, K)"
  shows "\<exists>K1. interprocess_shared_memory_dtor max_depth t' sm K = Some (Inr (), K1) \<and>
    k_names K1 (''/s_'' @ ident) = None \<and> k_names K1 (''m_'' @ ident) = Some (sm_mutex sm) \<and>
    (interprocess_shared_memory_ctor name_max max_depth d d' t'' ident n K1 = Some (Inr sm', K2) \<longrightarrow>
     sm_data sm' K2 = Inr (shm_create n))"
proof -
  note opened = sm_ctor_ok [OF assms]
  let ?K1 = "set_mutex (sm_mutex sm) Uninit (shm_unlink (shared_memory_name sm) K)"
  have "k_names ?K1 = (k_names K)(''/s_'' @ ident := None)"
    using opened(6) by (simp add: shm_unlink_def)
  moreover have "kernel_ok ?K1"
    using opened(2) by (simp add: kernel_ok_def shm_unlink_def)
  ultimately show ?thesis
    using sm_dtor_open [OF opened(1), of max_depth t'] opened(5)
      sm_ctor_ok [of ?K1 name_max max_depth d d' t'' ident n sm' K2]
    by (auto simp: sm_data_def Let_def shm_create_def)
qed

end
