(* ===== verification/Logging.thy ===== *)
theory Logging
  imports Cbeam_Prelude
begin

text \<open>
  \<^verbatim>\<open>logging/log_manager.hpp\<close> and \<^verbatim>\<open>logging/detail/logging_impl.hpp\<close>: the log file and the process-wide manager that
  creates it on demand. A file is the list of its lines. The text of a message header (time, thread; \<^verbatim>\<open>Thread_Name\<close> has its
  form), and whether the calls of the file system and the making of a header succeed, are arguments. A call that has to wait for a
  mutex of another thread returns \<open>None\<close>; unlocking a mutex that the thread does not own is undefined. Assertions are
  taken to be disabled, as in a release build.
\<close>

section \<open>Mutexes\<close>

text \<open>A \<open>std::recursive_mutex\<close>: the owner and how often it has locked the mutex beyond the first time.\<close>

datatype rmutex = R_free | R_locked nat nat

fun r_try_lock :: "nat \<Rightarrow> rmutex \<Rightarrow> bool \<times> rmutex" where
  "r_try_lock t R_free = (True, R_locked t 0)"
| "r_try_lock t (R_locked owner n) = (if owner = t then (True, R_locked t (n + 1)) else (False, R_locked owner n))"

definition r_lock :: "nat \<Rightarrow> rmutex \<Rightarrow> rmutex option" where
  "r_lock t m = (case r_try_lock t m of (ok, m') \<Rightarrow> if ok then Some m' else None)"

fun r_unlock :: "nat \<Rightarrow> rmutex \<Rightarrow> rmutex result" where
  "r_unlock t R_free = Inl (undefined_behaviour unlock_not_owned)"
| "r_unlock t (R_locked owner n) =
     (if owner \<noteq> t then Inl (undefined_behaviour unlock_not_owned)
      else Inr (if n = 0 then R_free else R_locked t (n - 1)))"

lemma r_unlock_lock: "r_lock t m = Some m' \<Longrightarrow> r_unlock t m' = Inr m"
  by (cases m) (auto simp: r_lock_def split: if_splits)

section \<open>The log file\<close>

record log =
  log_path :: string
  log_mtx :: "nat option"

type_synonym log_files = "string \<Rightarrow> string list"

record append_env =
  header :: string
  header_ok :: bool
  write_ok :: bool

text \<open>\<open>do_append\<close> swallows every exception. Without a header from the caller it makes one itself.\<close>

definition do_append :: "append_env \<Rightarrow> string \<Rightarrow> bool \<Rightarrow> string \<Rightarrow> log_files \<Rightarrow> log_files" where
  "do_append env path has_header str files =
     (if (has_header \<or> header_ok env) \<and> write_ok env then files(path := files path @ [header env @ str]) else files)"

definition start_line :: string where
  "start_line = ''-------------------------------- start of log --------------------------------''"

definition end_line :: string where
  "end_line = ''--------------------------------  end of log  --------------------------------''"

record open_env =
  create_error :: "string option"
  remove_error :: "string option"
  open_append :: append_env

definition log_ctor :: "open_env \<Rightarrow> string \<Rightarrow> log_files \<Rightarrow> log result \<times> log_files" where
  "log_ctor env path files =
     (case create_error env of
        Some what \<Rightarrow> (Inl (system_error what), files)
      | None \<Rightarrow>
          (let files1 = (case remove_error env of
                           None \<Rightarrow> files(path := [])
                         | Some what \<Rightarrow>
                             do_append (open_append env) path False (''Could not delete old log file: '' @ what) files)
           in (Inr \<lparr>log_path = path, log_mtx = None\<rparr>, do_append (open_append env) path False start_line files1)))"

text \<open>The lock of \<open>~log\<close> waits for a thread that is writing.\<close>

definition log_dtor :: "append_env \<Rightarrow> log \<Rightarrow> log_files \<Rightarrow> log_files option" where
  "log_dtor env l files =
     (case log_mtx l of None \<Rightarrow> Some (do_append env (log_path l) False end_line files) | Some _ \<Rightarrow> None)"

text \<open>When the mutex is taken, \<open>append\<close> makes the header first and then waits. An exception there goes to the
  handler, and \<open>unlock\<close> is called without the lock.\<close>

definition log_append_line :: "append_env \<Rightarrow> nat \<Rightarrow> string \<Rightarrow> log \<Rightarrow> log_files \<Rightarrow> (unit result \<times> log_files) option" where
  "log_append_line env t str l files =
     (case log_mtx l of
        None \<Rightarrow> Some (Inr (), do_append env (log_path l) False str files)
      | Some owner \<Rightarrow>
          if header_ok env then None else Some (Inl (undefined_behaviour unlock_not_owned), files))"

section \<open>The manager\<close>

record log_manager =
  lm_files :: log_files
  lm_log :: "log option"
  lm_log_mutex :: rmutex
  lm_shutting_down_mutex :: rmutex
  lm_shutting_down :: bool

definition is_operational_for_logging :: "log_manager \<Rightarrow> bool" where
  "is_operational_for_logging S \<longleftrightarrow> \<not> lm_shutting_down S"

definition log_manager_dtor :: "nat \<Rightarrow> log_manager \<Rightarrow> log_manager option" where
  "log_manager_dtor t S =
     (case r_lock t (lm_shutting_down_mutex S) of
        None \<Rightarrow> None
      | Some _ \<Rightarrow> Some (S\<lparr>lm_shutting_down := True\<rparr>))"

text \<open>The block under \<open>_log_mutex\<close>: the guard releases the mutex on both ways out.\<close>

definition create_log :: "open_env \<Rightarrow> nat \<Rightarrow> string \<Rightarrow> log_manager \<Rightarrow> (unit result \<times> log_manager) option" where
  "create_log env t path S =
     (case r_lock t (lm_log_mutex S) of
        None \<Rightarrow> None
      | Some _ \<Rightarrow>
          (case lm_log S of
             Some _ \<Rightarrow> Some (Inr (), S)
           | None \<Rightarrow>
               (case log_ctor env path (lm_files S) of
                  (Inl e, files) \<Rightarrow> Some (Inl e, S\<lparr>lm_files := files\<rparr>)
                | (Inr l, files) \<Rightarrow> Some (Inr (), S\<lparr>lm_files := files, lm_log := Some l\<rparr>))))"

text \<open>\<open>create_logfile\<close> goes on when \<open>try_lock\<close> fails, and unlocks at its end but not when an exception leaves it.\<close>

definition create_logfile :: "open_env \<Rightarrow> nat \<Rightarrow> string \<Rightarrow> log_manager \<Rightarrow> (unit result \<times> log_manager) option" where
  "create_logfile env t path S =
     (case r_try_lock t (lm_shutting_down_mutex S) of (_, m) \<Rightarrow>
       (let S1 = S\<lparr>lm_shutting_down_mutex := m\<rparr>
        in case (if is_operational_for_logging S1 then create_log env t path S1 else Some (Inr (), S1)) of
             None \<Rightarrow> None
           | Some (Inl e, S2) \<Rightarrow> Some (Inl e, S2)
           | Some (Inr _, S2) \<Rightarrow>
               (case r_unlock t (lm_shutting_down_mutex S2) of
                  Inl e \<Rightarrow> Some (Inl e, S2)
                | Inr m' \<Rightarrow> Some (Inr (), S2\<lparr>lm_shutting_down_mutex := m'\<rparr>))))"

text \<open>Leaving \<open>log_append\<close> releases the guards in reverse order; \<open>leave\<close> is the destructor of a guard.\<close>

definition leave_log :: "nat \<Rightarrow> unit result \<times> log_manager \<Rightarrow> unit result \<times> log_manager" where
  "leave_log t x =
     (case x of (r, S) \<Rightarrow>
       (case r_unlock t (lm_log_mutex S) of Inl e \<Rightarrow> (Inl e, S) | Inr m \<Rightarrow> (r, S\<lparr>lm_log_mutex := m\<rparr>)))"

definition leave_shutting_down :: "nat \<Rightarrow> unit result \<times> log_manager \<Rightarrow> unit result \<times> log_manager" where
  "leave_shutting_down t x =
     (case x of (r, S) \<Rightarrow>
       (case r_unlock t (lm_shutting_down_mutex S) of
          Inl e \<Rightarrow> (Inl e, S)
        | Inr m \<Rightarrow> (r, S\<lparr>lm_shutting_down_mutex := m\<rparr>)))"

definition append_to_log :: "append_env \<Rightarrow> nat \<Rightarrow> string \<Rightarrow> log_manager \<Rightarrow> (unit result \<times> log_manager) option" where
  "append_to_log env t str S =
     (case lm_log S of
        None \<Rightarrow> Some (Inl (undefined_behaviour null_dereference), S)
      | Some l \<Rightarrow>
          (case log_append_line env t str l (lm_files S) of
             None \<Rightarrow> None
           | Some (r, files) \<Rightarrow> Some (r, S\<lparr>lm_files := files\<rparr>)))"

definition log_append :: "open_env \<Rightarrow> append_env \<Rightarrow> nat \<Rightarrow> string \<Rightarrow> string \<Rightarrow> log_manager \<Rightarrow> (unit result \<times> log_manager) option" where
  "log_append oenv env t temp_directory str S =
     (case r_lock t (lm_shutting_down_mutex S) of
        None \<Rightarrow> None
      | Some m \<Rightarrow>
          (let S1 = S\<lparr>lm_shutting_down_mutex := m\<rparr>
           in if \<not> is_operational_for_logging S1 then Some (leave_shutting_down t (Inr (), S1))
              else (case r_lock t (lm_log_mutex S1) of
                      None \<Rightarrow> None
                    | Some m' \<Rightarrow>
                        (let S2 = S1\<lparr>lm_log_mutex := m'\<rparr>
                         in case (if lm_log S2 = None
                                  then create_logfile oenv t (temp_directory @ ''/Cbeam.log'') S2
                                  else Some (Inr (), S2)) of
                              None \<Rightarrow> None
                            | Some (Inl e, S3) \<Rightarrow> Some (leave_shutting_down t (leave_log t (Inl e, S3)))
                            | Some (Inr _, S3) \<Rightarrow>
                                (case append_to_log env t str S3 of
                                   None \<Rightarrow> None
                                 | Some x \<Rightarrow> Some (leave_shutting_down t (leave_log t x)))))))"

text \<open>The overload for narrow strings; \<open>conv\<close> is the conversion to a wide string.\<close>

definition log_append_string ::
  "(string \<Rightarrow> string) \<Rightarrow> open_env \<Rightarrow> append_env \<Rightarrow> nat \<Rightarrow> string \<Rightarrow> string \<Rightarrow> log_manager \<Rightarrow> (unit result \<times> log_manager) option" where
  "log_append_string conv oenv env t temp_directory str S =
     (case r_lock t (lm_shutting_down_mutex S) of
        None \<Rightarrow> None
      | Some m \<Rightarrow>
          (let S1 = S\<lparr>lm_shutting_down_mutex := m\<rparr>
           in if \<not> is_operational_for_logging S1 then Some (leave_shutting_down t (Inr (), S1))
              else (case log_append oenv env t temp_directory (conv str) S1 of
                      None \<Rightarrow> None
                    | Some x \<Rightarrow> Some (leave_shutting_down t x))))"

section \<open>What is written\<close>

text \<open>No thread but \<open>t\<close> is in a call of the manager.\<close>

definition idle :: "nat \<Rightarrow> log_manager \<Rightarrow> bool" where
  "idle t S \<longleftrightarrow> lm_log_mutex S = R_free \<and>
     (case lm_shutting_down_mutex S of R_free \<Rightarrow> True | R_locked owner n \<Rightarrow> owner = t) \<and>
     (case lm_log S of None \<Rightarrow> True | Some l \<Rightarrow> log_mtx l = None)"

definition env_ok :: "append_env \<Rightarrow> bool" where
  "env_ok env \<longleftrightarrow> header_ok env \<and> write_ok env"

definition open_env_ok :: "open_env \<Rightarrow> bool" where
  "open_env_ok env \<longleftrightarrow> create_error env = None \<and> remove_error env = None \<and> env_ok (open_append env)"

lemma do_append_ok: "env_ok env \<Longrightarrow> do_append env path b str files = files(path := files path @ [header env @ str])"
  by (simp add: do_append_def env_ok_def)

text \<open>A message sent to an idle manager ends up as the last line of the log; the first message of the
  process also makes the file, which then starts with the start line. The mutexes are free again.\<close>

lemma log_append_writes:
  assumes "idle t S" and "\<not> lm_shutting_down S" and "open_env_ok oenv" and "env_ok env"
  shows "log_append oenv env t tmp str S =
    (case lm_log S of
       Some l \<Rightarrow>
         Some (Inr (), S\<lparr>lm_files := (lm_files S)(log_path l := lm_files S (log_path l) @ [header env @ str])\<rparr>)
     | None \<Rightarrow>
         Some (Inr (), S\<lparr>lm_files := (lm_files S)(tmp @ ''/Cbeam.log'' :=
             [header (open_append oenv) @ start_line, header env @ str]),
           lm_log := Some \<lparr>log_path = tmp @ ''/Cbeam.log'', log_mtx = None\<rparr>\<rparr>))"
  using assms
  by (cases S)
    (auto simp: idle_def log_append_def r_lock_def is_operational_for_logging_def append_to_log_def log_append_line_def
      do_append_ok leave_log_def leave_shutting_down_def create_logfile_def create_log_def log_ctor_def open_env_ok_def
      Let_def split: option.splits rmutex.splits)

lemma idle_log_append:
  assumes "idle t S" and "\<not> lm_shutting_down S" and "open_env_ok oenv" and "env_ok env"
    and "log_append oenv env t tmp str S = Some (r, S')"
  shows "r = Inr ()" and "idle t S'" and "\<not> lm_shutting_down S'" and "lm_log S' \<noteq> None"
  using assms(5) assms(1,2) by (auto simp: log_append_writes [OF assms(1-4)] idle_def split: option.splits)

lemma log_append_string_same:
  assumes "idle t S" and "\<not> lm_shutting_down S" and "open_env_ok oenv" and "env_ok env"
  shows "log_append_string conv oenv env t tmp str S = log_append oenv env t tmp (conv str) S"
proof -
  obtain m where m: "r_lock t (lm_shutting_down_mutex S) = Some m" and un: "r_unlock t m = Inr (lm_shutting_down_mutex S)"
    using assms(1) r_unlock_lock by (cases "lm_shutting_down_mutex S") (auto simp: idle_def r_lock_def)
  let ?S = "S\<lparr>lm_shutting_down_mutex := m\<rparr>"
  have "idle t ?S"
    using assms(1) m by (cases "lm_shutting_down_mutex S") (auto simp: idle_def r_lock_def)
  then show ?thesis
    using log_append_writes [of t ?S oenv env tmp "conv str"] log_append_writes [OF assms, of tmp "conv str"] m un assms(2-)
    by (cases S; cases "lm_log S")
      (simp_all add: log_append_string_def is_operational_for_logging_def leave_shutting_down_def Let_def)
qed

section \<open>Where it fails\<close>

text \<open>While another thread logs, \<open>create_logfile\<close> does not get the mutex and unlocks it all the same.\<close>

lemma create_logfile_unlocks_other:
  assumes "lm_shutting_down_mutex S = R_locked owner n" and "owner \<noteq> t" and "lm_log_mutex S = R_free"
    and "\<not> lm_shutting_down S" and "lm_log S \<noteq> None"
  shows "create_logfile env t path S = Some (Inl (undefined_behaviour unlock_not_owned), S)"
  using assms
  by (auto simp: create_logfile_def create_log_def r_lock_def is_operational_for_logging_def Let_def split: option.splits)

text \<open>When the directory of the log file cannot be made, the exception leaves the mutex locked: every other thread that
  logs waits forever.\<close>

lemma create_logfile_keeps_lock:
  assumes "lm_shutting_down_mutex S = R_free" and "lm_log_mutex S = R_free" and "\<not> lm_shutting_down S" and "lm_log S = None"
    and "create_error env = Some what"
    and "create_logfile env t path S = Some (r, S')"
  shows "r = Inl (system_error what)" and "lm_shutting_down_mutex S' = R_locked t 0"
    and "t' \<noteq> t \<Longrightarrow> log_append oenv aenv t' tmp str S' = None"
  using assms(6) assms(1-5)
  by (auto simp: create_logfile_def create_log_def r_lock_def is_operational_for_logging_def Let_def
      log_ctor_def log_append_def)

end
