(* ===== verification/Message_Router.thy ===== *)
theory Message_Router
  imports Message_Manager
begin

text \<open>
  The whole \<open>message_manager\<close> of \<^verbatim>\<open>concurrency/message_manager.hpp\<close>: the maps from message ids to queues and to handlers
  with the two mutexes that protect them, the calls of clients, calls of \<open>send_message\<close> from inside a message handler, the
  message logger, and the destruction of handlers.

  \<open>r_queue\<close> holds one queue of \<^verbatim>\<open>Message_Manager\<close> per id; \<open>r_known\<close> says whether \<open>_message_queues\<close> has it. A client call is a thread
  in \<open>r_calls\<close>. All calls hold the mutexes of the maps only inside one step, except \<open>dispose\<close>, which holds both of them
  until it has joined every handler thread: \<open>r_lock\<close> is the call that does so. What the handler function of
  an id sends for a message is the argument \<open>script\<close>; a worker in its handler runs through these sends, kept in
  \<open>r_nested\<close>, before it goes on.

  A handler object is destroyed from the derived class to the base class: its members are gone (\<open>r_destroyed\<close>) before
  \<open>~threaded_object\<close> stops and joins the thread. A step of the thread that still needs the members, or a virtual call not
  ordered after the destructor by the queue mutex, is undefined; the state then has \<open>r_undefined\<close> set and no successor. (What a
  handler function itself reads of its closure while it runs is not modelled.)

  \<open>r_unlogged\<close> records the messages that were sent while no logger was set and is read by no step.
\<close>

datatype 'm call =
    C_send nat 'm nat
  | C_add nat order_type
  | C_wait nat
  | C_dispose nat
  | C_disposing nat "nat list" "nat option"
  | C_done

text \<open>A send of a handler that has not begun, or that waits for the sending thread \<open>k\<close> of a queue to finish.\<close>

datatype 'm nested =
    N_call nat 'm
  | N_wait nat nat

record 'm router =
  r_known :: "nat \<Rightarrow> bool"
  r_queue :: "nat \<Rightarrow> 'm mq"
  r_handlers :: "nat \<Rightarrow> nat list"
  r_calls :: "'m call list"
  r_nested :: "nat \<Rightarrow> nat \<Rightarrow> 'm nested list"
  r_lock :: "nat option"
  r_logger :: "nat \<Rightarrow> bool"
  r_log :: "(nat \<times> 'm \<times> bool) list"
  r_unlogged :: "nat \<Rightarrow> 'm list"
  r_destroyed :: "nat \<Rightarrow> nat \<Rightarrow> bool"
  r_undefined :: bool
  r_terminated :: bool

definition router_empty :: "'m router" where
  "router_empty = \<lparr>r_known = (\<lambda>_. False), r_queue = (\<lambda>_. mq_empty), r_handlers = (\<lambda>_. []), r_calls = [],
     r_nested = (\<lambda>_ _. []), r_lock = None, r_logger = (\<lambda>_. False), r_log = [], r_unlogged = (\<lambda>_. []),
     r_destroyed = (\<lambda>_ _. False), r_undefined = False, r_terminated = False\<rparr>"

definition put_call :: "nat \<Rightarrow> 'm call \<Rightarrow> 'm router \<Rightarrow> 'm router" where
  "put_call k c S = S\<lparr>r_calls := (r_calls S)[k := c]\<rparr>"

definition set_queue :: "nat \<Rightarrow> 'm mq \<Rightarrow> 'm router \<Rightarrow> 'm router" where
  "set_queue d q S = S\<lparr>r_queue := (r_queue S)(d := q)\<rparr>"

definition put_nested :: "nat \<Rightarrow> nat \<Rightarrow> 'm nested list \<Rightarrow> 'm router \<Rightarrow> 'm router" where
  "put_nested d i ns S = S\<lparr>r_nested := (r_nested S)(d := (r_nested S d)(i := ns))\<rparr>"

section \<open>Calls of clients\<close>

text \<open>The first section of \<open>send_message\<close> finds or makes the queue; what follows is a sender of that queue.\<close>

definition start_send :: "nat \<Rightarrow> 'm \<Rightarrow> nat \<Rightarrow> 'm router \<Rightarrow> 'm router option" where
  "start_send d m n S =
     (case mm_next (Send_Message m n) (r_queue S d) of
        None \<Rightarrow> None
      | Some q \<Rightarrow> Some (set_queue d q (S\<lparr>r_known := (r_known S)(d := True)\<rparr>)))"

definition add_handler :: "nat \<Rightarrow> order_type \<Rightarrow> 'm router \<Rightarrow> 'm router option" where
  "add_handler d order S =
     (case mm_next (Add_Handler order) (r_queue S d) of
        None \<Rightarrow> None
      | Some q \<Rightarrow>
          Some (set_queue d q (S\<lparr>r_known := (r_known S)(d := True),
            r_handlers := (r_handlers S)(d := r_handlers S d @ [length (workers (r_queue S d))])\<rparr>)))"

definition start_wait :: "nat \<Rightarrow> 'm router \<Rightarrow> 'm router option" where
  "start_wait d S =
     (if \<not> r_known S d then Some S
      else (case mm_next Wait_Until_Empty (r_queue S d) of None \<Rightarrow> None | Some q \<Rightarrow> Some (set_queue d q S)))"

text \<open>A step of call \<open>k\<close>; \<open>w\<close> is the handler that \<open>clear()\<close> destroys next.\<close>

definition call_step :: "nat \<Rightarrow> nat \<Rightarrow> 'm router \<Rightarrow> 'm router option" where
  "call_step k w S =
     (if k < length (r_calls S) then
        (case r_calls S ! k of
           C_send d m n \<Rightarrow>
             if r_lock S = None then map_option (put_call k C_done) (start_send d m n S) else None
         | C_add d order \<Rightarrow>
             if r_lock S = None then map_option (put_call k C_done) (add_handler d order S) else None
         | C_wait d \<Rightarrow>
             if r_lock S = None then map_option (put_call k C_done) (start_wait d S) else None
         | C_dispose d \<Rightarrow>
             if r_lock S = None
             then Some (put_call k (C_disposing d (r_handlers S d) None)
                    (S\<lparr>r_lock := Some k, r_handlers := (r_handlers S)(d := [])\<rparr>))
             else None
         | C_disposing d [] None \<Rightarrow> Some (put_call k C_done (S\<lparr>r_lock := None\<rparr>))
         | C_disposing d ws None \<Rightarrow>
             if w \<in> set ws
             then (case mm_next (Dispose w) (r_queue S d) of
                     None \<Rightarrow> None
                   | Some q \<Rightarrow>
                       Some (put_call k (C_disposing d (remove1 w ws) (Some (length (destructors (r_queue S d)))))
                         (set_queue d q (S\<lparr>r_destroyed := (r_destroyed S)(d := (r_destroyed S d)(w := True))\<rparr>))))
             else None
         | C_disposing d ws (Some j) \<Rightarrow>
             if destructors (r_queue S d) ! j = D_done then Some (put_call k (C_disposing d ws None) S) else None
         | C_done \<Rightarrow> None)
      else None)"

text \<open>\<open>set_logger\<close> takes neither mutex, and dereferences the null pointer that \<open>operator[]\<close> makes for an unknown id.\<close>

definition set_logger :: "nat \<Rightarrow> bool \<Rightarrow> 'm router \<Rightarrow> 'm router" where
  "set_logger d on_message S =
     (if r_known S d then S\<lparr>r_logger := (r_logger S)(d := on_message)\<rparr> else S\<lparr>r_undefined := True\<rparr>)"

section \<open>Steps of the threads of a queue\<close>

definition log_message :: "nat \<Rightarrow> 'm \<Rightarrow> bool \<Rightarrow> 'm router \<Rightarrow> 'm router" where
  "log_message d m outgoing S =
     (if r_logger S d then S\<lparr>r_log := r_log S @ [(d, m, outgoing)]\<rparr>
      else if outgoing then S\<lparr>r_unlogged := (r_unlogged S)(d := r_unlogged S d @ [m])\<rparr> else S)"

text \<open>The end of \<open>send_message\<close>: the notification and the logging that follows it are one step.\<close>

definition sender_turn :: "nat \<Rightarrow> nat \<Rightarrow> 'm router \<Rightarrow> 'm router option" where
  "sender_turn d i S =
     (case mm_next (Run_Sender i) (r_queue S d) of
        None \<Rightarrow> None
      | Some q \<Rightarrow>
          Some (set_queue d q
            (if i < length (senders (r_queue S d)) then
               (case senders (r_queue S d) ! i of S_notify m \<Rightarrow> log_message d m True S | _ \<Rightarrow> S)
             else S)))"

text \<open>What a thread needs of a handler whose members are destroyed: \<open>on_message\<close> all of them, the test for messages and
  \<open>get_message\<close> a virtual call that is only ordered after the destructor when the thread sees \<open>_running\<close> false.\<close>

fun needs_members :: "'m worker_pc \<Rightarrow> bool \<Rightarrow> bool" where
  "needs_members W_enter running = running"
| "needs_members (W_wait notified) running = (notified \<and> running)"
| "needs_members (W_got (Some m)) running = running"
| "needs_members (W_handle m) running = True"
| "needs_members (W_after n) running = True"
| "needs_members pc running = False"

text \<open>The worker enters its handler with the sends of the script to do, and leaves it when they are done.\<close>

definition enter_handler :: "(nat \<Rightarrow> 'm \<Rightarrow> (nat \<times> 'm) list) \<Rightarrow> nat \<Rightarrow> nat \<Rightarrow> 'm \<Rightarrow> 'm router \<Rightarrow> 'm router" where
  "enter_handler script d i m S = put_nested d i (map (\<lambda>(b, x). N_call b x) (script d m)) (log_message d m False S)"

definition worker_turn ::
  "(nat \<Rightarrow> 'm \<Rightarrow> (nat \<times> 'm) list) \<Rightarrow> bool \<Rightarrow> bool \<Rightarrow> nat \<Rightarrow> nat \<Rightarrow> nat \<Rightarrow> 'm router \<Rightarrow> 'm router option" where
  "worker_turn script throws on_exception rnd d i S =
     (let q = r_queue S d
      in if i < length (workers q) then
           (let w = workers q ! i
            in if r_destroyed S d i \<and> needs_members (w_pc w) (w_running w) \<and> r_nested S d i = []
               then Some (S\<lparr>r_undefined := True\<rparr>)
               else (case w_pc w of
                       W_handle m \<Rightarrow>
                         if r_nested S d i \<noteq> [] then None
                         else map_option (\<lambda>q'. set_queue d q' (S\<lparr>r_terminated := terminated q'\<rparr>))
                                (mm_next (Run_Worker throws on_exception rnd i) q)
                     | W_got (Some m) \<Rightarrow>
                         map_option (\<lambda>q'. set_queue d q' (if w_running w then enter_handler script d i m S else S))
                           (mm_next (Run_Worker throws on_exception rnd i) q)
                     | _ \<Rightarrow> map_option (\<lambda>q'. set_queue d q' S) (mm_next (Run_Worker throws on_exception rnd i) q)))
         else None)"

text \<open>The handler function goes on: the next \<open>send_message\<close> takes \<open>_message_queues_mutex\<close>.\<close>

definition nested_turn :: "nat \<Rightarrow> nat \<Rightarrow> 'm router \<Rightarrow> 'm router option" where
  "nested_turn d i S =
     (case r_nested S d i of
        [] \<Rightarrow> None
      | N_call b x # rest \<Rightarrow>
          if r_lock S = None
          then map_option (put_nested d i (N_wait b (length (senders (r_queue S b))) # rest)) (start_send b x 0 S)
          else None
      | N_wait b k # rest \<Rightarrow>
          if senders (r_queue S b) ! k = S_done then Some (put_nested d i rest S) else None)"

section \<open>The step relation\<close>

datatype 'm rlabel =
    Call "'m call"
  | Go nat nat
  | Set_Logger nat bool
  | Sender_Turn nat nat
  | Worker_Turn bool bool nat nat nat
  | Nested_Turn nat nat
  | Waiter_Turn nat nat
  | Destructor_Turn nat nat

fun client_call :: "'m call \<Rightarrow> bool" where
  "client_call (C_send d m n) = True"
| "client_call (C_add d order) = True"
| "client_call (C_wait d) = True"
| "client_call (C_dispose d) = True"
| "client_call c = False"

text \<open>\<open>std::terminate\<close> in one queue ends the process.\<close>

definition router_next :: "(nat \<Rightarrow> 'm \<Rightarrow> (nat \<times> 'm) list) \<Rightarrow> 'm rlabel \<Rightarrow> 'm router \<Rightarrow> 'm router option" where
  "router_next script l S =
     (if r_undefined S \<or> r_terminated S then None
      else (case l of
        Call c \<Rightarrow> if client_call c then Some (S\<lparr>r_calls := r_calls S @ [c]\<rparr>) else None
      | Go k w \<Rightarrow> call_step k w S
      | Set_Logger d on_message \<Rightarrow> Some (set_logger d on_message S)
      | Sender_Turn d i \<Rightarrow> sender_turn d i S
      | Worker_Turn throws on_exception rnd d i \<Rightarrow> worker_turn script throws on_exception rnd d i S
      | Nested_Turn d i \<Rightarrow> nested_turn d i S
      | Waiter_Turn d i \<Rightarrow> map_option (\<lambda>q. set_queue d q S) (mm_next (Run_Waiter i) (r_queue S d))
      | Destructor_Turn d i \<Rightarrow> map_option (\<lambda>q. set_queue d q S) (mm_next (Run_Destructor i) (r_queue S d))))"

inductive router_reachable :: "(nat \<Rightarrow> 'm \<Rightarrow> (nat \<times> 'm) list) \<Rightarrow> 'm router \<Rightarrow> bool" for script where
  init: "router_reachable script router_empty"
| step: "router_reachable script S \<Longrightarrow> router_next script l S = Some S' \<Longrightarrow> router_reachable script S'"

fun router_run :: "(nat \<Rightarrow> 'm \<Rightarrow> (nat \<times> 'm) list) \<Rightarrow> 'm rlabel list \<Rightarrow> 'm router \<Rightarrow> 'm router option" where
  "router_run script [] S = Some S"
| "router_run script (l # ls) S = (case router_next script l S of None \<Rightarrow> None | Some S' \<Rightarrow> router_run script ls S')"

interpretation manager_steps: step_system router_empty "router_next script" "router_reachable script" "router_run script" for script
  by unfold_locales (auto intro: router_reachable.intros elim: router_reachable.induct)

lemma router_next_cases:
  assumes "router_next script l S = Some S'"
  obtains (call) c where "client_call c" and "S' = S\<lparr>r_calls := r_calls S @ [c]\<rparr>"
  | (go) k w where "call_step k w S = Some S'"
  | (logger) d b where "S' = set_logger d b S"
  | (sender) d i where "sender_turn d i S = Some S'"
  | (worker) th ex rnd d i where "worker_turn script th ex rnd d i S = Some S'"
  | (nested) d i where "nested_turn d i S = Some S'"
  | (queue) d lq q where "mm_next lq (r_queue S d) = Some q" and "S' = set_queue d q S"
      and "(\<exists>i. lq = Run_Waiter i) \<or> (\<exists>i. lq = Run_Destructor i)"
  using assms by (cases l) (auto simp: router_next_def split: if_splits)

section \<open>Each queue is a queue\<close>

lemma router_sel [simp]:
  "r_queue (put_call k c S) = r_queue S" "r_queue (put_nested d i ns S) = r_queue S"
  "r_queue (log_message d m b S) = r_queue S" "r_queue (set_queue d q S) = (r_queue S)(d := q)"
  "r_queue (enter_handler script d i m S) = r_queue S" "r_queue (set_logger d b S) = r_queue S"
  "r_handlers (put_call k c S) = r_handlers S" "r_handlers (put_nested d i ns S) = r_handlers S"
  "r_handlers (log_message d m b S) = r_handlers S" "r_handlers (set_queue d q S) = r_handlers S"
  "r_handlers (enter_handler script d i m S) = r_handlers S" "r_handlers (set_logger d b S) = r_handlers S"
  "r_calls (put_call k c S) = (r_calls S)[k := c]" "r_calls (put_nested d i ns S) = r_calls S"
  "r_calls (log_message d m b S) = r_calls S" "r_calls (set_queue d q S) = r_calls S"
  "r_calls (enter_handler script d i m S) = r_calls S" "r_calls (set_logger d b S) = r_calls S"
  "r_lock (put_call k c S) = r_lock S" "r_lock (put_nested d i ns S) = r_lock S"
  "r_lock (log_message d m b S) = r_lock S" "r_lock (set_queue d q S) = r_lock S"
  "r_lock (enter_handler script d i m S) = r_lock S" "r_lock (set_logger d b S) = r_lock S"
  "r_known (put_call k c S) = r_known S" "r_known (put_nested d i ns S) = r_known S"
  "r_known (log_message d m b S) = r_known S" "r_known (set_queue d q S) = r_known S"
  "r_known (enter_handler script d i m S) = r_known S" "r_known (set_logger d b S) = r_known S"
  "r_nested (put_call k c S) = r_nested S" "r_nested (log_message d m b S) = r_nested S"
  "r_nested (set_queue d q S) = r_nested S" "r_nested (set_logger d b S) = r_nested S"
  "r_nested (put_nested d i ns S) = (r_nested S)(d := (r_nested S d)(i := ns))"
  "r_destroyed (put_call k c S) = r_destroyed S" "r_destroyed (put_nested d i ns S) = r_destroyed S"
  "r_destroyed (log_message d m b S) = r_destroyed S" "r_destroyed (set_queue d q S) = r_destroyed S"
  "r_destroyed (enter_handler script d i m S) = r_destroyed S" "r_destroyed (set_logger d b S) = r_destroyed S"
  by (simp_all add: put_call_def put_nested_def log_message_def set_queue_def enter_handler_def set_logger_def)

definition queue_steps :: "'m router \<Rightarrow> 'm router \<Rightarrow> bool" where
  "queue_steps S S' \<longleftrightarrow> r_queue S' = r_queue S \<or> (\<exists>d l q. mm_next l (r_queue S d) = Some q \<and> r_queue S' = (r_queue S)(d := q))"

lemma queue_steps_same: "r_queue S' = r_queue S \<Longrightarrow> queue_steps S S'"
  by (simp add: queue_steps_def)

lemma queue_stepsI: "mm_next l (r_queue S d) = Some q \<Longrightarrow> r_queue S' = (r_queue S)(d := q) \<Longrightarrow> queue_steps S S'"
  by (auto simp: queue_steps_def)

lemma queue_steps_cong: "queue_steps S S1 \<Longrightarrow> r_queue S' = r_queue S1 \<Longrightarrow> queue_steps S S'"
  by (simp add: queue_steps_def)

lemmas queue_steps_intros = queue_steps_same queue_stepsI

lemma start_queues:
  "start_send d m n S = Some S' \<Longrightarrow> queue_steps S S'" "add_handler d order S = Some S' \<Longrightarrow> queue_steps S S'"
  "start_wait d S = Some S' \<Longrightarrow> queue_steps S S'"
  by (auto simp: start_send_def add_handler_def start_wait_def split: option.splits if_splits intro: queue_steps_intros)

lemma call_step_queues: "call_step k w S = Some S' \<Longrightarrow> queue_steps S S'"
  by (auto simp: call_step_def split: if_splits call.splits list.splits option.splits
      intro: queue_steps_intros queue_steps_cong [OF start_queues(1)] queue_steps_cong [OF start_queues(2)]
        queue_steps_cong [OF start_queues(3)])

lemma worker_turn_queues: "worker_turn script th ex rnd d i S = Some S' \<Longrightarrow> queue_steps S S'"
  by (auto simp: worker_turn_def Let_def split: if_splits worker_pc.splits option.splits intro: queue_steps_intros)

lemma nested_turn_queues: "nested_turn d i S = Some S' \<Longrightarrow> queue_steps S S'"
  by (auto simp: nested_turn_def split: if_splits list.splits nested.splits
      intro: queue_steps_intros queue_steps_cong [OF start_queues(1)])

lemma sender_turn_queues: "sender_turn d i S = Some S' \<Longrightarrow> queue_steps S S'"
  by (auto simp: sender_turn_def split: if_splits option.splits sender.splits intro: queue_steps_intros)

lemma router_next_queues:
  assumes "router_next script l S = Some S'"
  shows "queue_steps S S'"
  using assms call_step_queues worker_turn_queues nested_turn_queues sender_turn_queues
  by (cases rule: router_next_cases) (auto intro: queue_steps_intros)

lemma router_queue_reachable: "router_reachable script S \<Longrightarrow> mm_reachable (r_queue S d)"
proof (induction rule: router_reachable.induct)
  case init
  show ?case by (simp add: router_empty_def mm_reachable.init)
next
  case (step S l S')
  from router_next_queues [OF step.hyps(2)] step.IH show ?case
    by (auto simp: queue_steps_def intro: mm_reachable.step)
qed

section \<open>The logger\<close>

fun notify_msgs :: "'m sender \<Rightarrow> 'm list" where
  "notify_msgs (S_notify m) = [m]"
| "notify_msgs t = []"

text \<open>Messages that are in the queue but whose sender has not logged them yet.\<close>

definition to_log :: "'m mq \<Rightarrow> 'm list" where
  "to_log q = concat (map notify_msgs (senders q))"

definition out_log :: "nat \<Rightarrow> 'm router \<Rightarrow> 'm list" where
  "out_log d S = map (\<lambda>(_, m, _). m) (filter (\<lambda>(e, _, outgoing). e = d \<and> outgoing) (r_log S))"

definition log_ok :: "nat \<Rightarrow> 'm router \<Rightarrow> bool" where
  "log_ok d S \<longleftrightarrow> mset (out_log d S) + mset (r_unlogged S d) + mset (to_log (r_queue S d)) = mset (sent (r_queue S d))"

lemma notify_msgs_wake [simp]: "notify_msgs (wake_sender t) = notify_msgs t"
  by (cases t) auto

lemma to_log_notify [simp]: "to_log (notify_queue_cv q) = to_log q"
  by (simp add: to_log_def notify_queue_cv_def comp_def)

lemma to_log_senders: "senders q' = senders q \<Longrightarrow> to_log q' = to_log q"
  by (simp add: to_log_def)

text \<open>Only a sender changes what is sent or still to be logged.\<close>

lemma mm_next_sent:
  assumes "mm_next l q = Some q'" and "\<And>i. l \<noteq> Run_Sender i"
  shows "sent q' = sent q" and "to_log q' = to_log q"
proof -
  have "sent q' = sent q \<and> to_log q' = to_log q"
  proof (cases l)
    case (Run_Worker th ex rnd i)
    then have "worker_step th ex rnd i q = Some q'"
      using assms(1) by (simp add: mm_next_def split: if_splits)
    then have "sent q' = sent q \<and> senders q' = senders q"
      by (cases rule: worker_step_cases) auto
    then show ?thesis using to_log_senders by blast
  next
    case (Run_Waiter i)
    then have "sent q' = sent q" and "senders q' = senders q"
      using assms(1) by (auto simp: mm_next_def waiter_step_def set_waiter_def split: if_splits waiter.splits)
    then show ?thesis using to_log_senders by blast
  next
    case (Run_Destructor i)
    have upd: "to_log (q\<lparr>destructors := ds\<rparr>) = to_log q" "to_log (stop_worker w q) = to_log q" for q :: "'a mq" and ds w
      by (simp_all add: to_log_def)
    from Run_Destructor show ?thesis
      using assms(1) by (auto simp: mm_next_def destructor_step_def upd split: if_splits destructor.splits)
  qed (use assms in \<open>auto simp: mm_next_def to_log_def split: if_splits\<close>)
  then show "sent q' = sent q" and "to_log q' = to_log q" by auto
qed

lemma to_log_set_sender:
  "i < length (senders q) \<Longrightarrow>
   mset (to_log (set_sender i t q)) + mset (notify_msgs (senders q ! i)) = mset (to_log q) + mset (notify_msgs t)"
  using mset_concat_update [of i "map notify_msgs (senders q)" "notify_msgs t"]
  by (simp add: to_log_def set_sender_def map_update add.commute)

lemma sender_sent:
  assumes "mm_next (Run_Sender i) q = Some q'"
  shows "mset (sent q') + mset (to_log q) = mset (sent q) + mset (to_log q') + mset (notify_msgs (senders q ! i))"
proof -
  have i: "i < length (senders q)" and step: "sender_step i q = Some q'"
    using assms by (auto simp: mm_next_def sender_step_def split: if_splits)
  have locked: ?thesis if "q' = send_locked i m n q" and "notify_msgs (senders q ! i) = []" for m n
    using that to_log_set_sender [OF i, of "S_notify m"] to_log_set_sender [OF i, of "S_wait False m n"]
      to_log_set_sender [of i "q\<lparr>queue := queue q @ [m], sent := sent q @ [m]\<rparr>" "S_notify m"] i
    by (auto simp: send_locked_def to_log_senders [of "q\<lparr>queue := queue q @ [m], sent := sent q @ [m]\<rparr>" q])
  show ?thesis
  proof (cases "senders q ! i")
    case (S_notify m)
    then have "q' = set_sender i S_done (notify_queue_cv q)"
      using step i by (simp add: sender_step_def)
    moreover have "senders (notify_queue_cv q) ! i = S_notify m" and "i < length (senders (notify_queue_cv q))"
      using i S_notify by (simp_all add: notify_queue_cv_def)
    ultimately show ?thesis
      using S_notify to_log_set_sender [of i "notify_queue_cv q" S_done] by simp
  qed (use step i locked in \<open>auto simp: sender_step_def split: if_splits\<close>)
qed

lemma out_log_append: "out_log d (S\<lparr>r_log := r_log S @ [(e, m, b)]\<rparr>) = out_log d S @ (if e = d \<and> b then [m] else [])"
  by (simp add: out_log_def)

text \<open>The steps that touch neither the outgoing log nor what is sent.\<close>

definition quiet_steps :: "'m router \<Rightarrow> 'm router \<Rightarrow> bool" where
  "quiet_steps S S' \<longleftrightarrow> r_unlogged S' = r_unlogged S \<and> (\<forall>d. out_log d S' = out_log d S) \<and>
     (\<forall>d. sent (r_queue S' d) = sent (r_queue S d) \<and> to_log (r_queue S' d) = to_log (r_queue S d))"

lemma quiet_sel [simp]:
  "r_unlogged (put_call k c S) = r_unlogged S" "r_unlogged (put_nested d i ns S) = r_unlogged S"
  "r_unlogged (set_queue d q S) = r_unlogged S" "r_unlogged (set_logger d b S) = r_unlogged S"
  "r_unlogged (enter_handler script d i m S) = r_unlogged S"
  "out_log e (put_call k c S) = out_log e S" "out_log e (put_nested d i ns S) = out_log e S"
  "out_log e (set_queue d q S) = out_log e S" "out_log e (set_logger d b S) = out_log e S"
  "out_log e (enter_handler script d i m S) = out_log e S"
  by (simp_all add: put_call_def put_nested_def set_queue_def set_logger_def enter_handler_def log_message_def out_log_def)

lemma quiet_steps_same:
  "r_unlogged S' = r_unlogged S \<Longrightarrow> (\<And>d. out_log d S' = out_log d S) \<Longrightarrow> r_queue S' = r_queue S \<Longrightarrow> quiet_steps S S'"
  by (simp add: quiet_steps_def)

lemma quiet_stepsI:
  assumes "mm_next l (r_queue S d) = Some q" and "\<And>i. l \<noteq> Run_Sender i" and "r_queue S' = (r_queue S)(d := q)"
    and "r_unlogged S' = r_unlogged S" and "\<And>d. out_log d S' = out_log d S"
  shows "quiet_steps S S'"
  using assms(3-) mm_next_sent [OF assms(1,2)] by (simp add: quiet_steps_def)

lemma quiet_steps_cong:
  "quiet_steps S S1 \<Longrightarrow> r_queue S' = r_queue S1 \<Longrightarrow> r_unlogged S' = r_unlogged S1 \<Longrightarrow>
   (\<And>d. out_log d S' = out_log d S1) \<Longrightarrow> quiet_steps S S'"
  by (simp add: quiet_steps_def)

lemmas quiet_intros = quiet_steps_same quiet_stepsI

lemma out_log_update [simp]:
  "out_log d (S\<lparr>r_known := k\<rparr>) = out_log d S" "out_log d (S\<lparr>r_handlers := h\<rparr>) = out_log d S"
  "out_log d (S\<lparr>r_lock := x\<rparr>) = out_log d S" "out_log d (S\<lparr>r_destroyed := y\<rparr>) = out_log d S"
  "out_log d (S\<lparr>r_undefined := b\<rparr>) = out_log d S" "out_log d (S\<lparr>r_terminated := b\<rparr>) = out_log d S"
  "out_log d (S\<lparr>r_calls := cs\<rparr>) = out_log d S"
  by (simp_all add: out_log_def)

lemma start_quiet:
  "start_send d m n S = Some S' \<Longrightarrow> quiet_steps S S'" "add_handler d order S = Some S' \<Longrightarrow> quiet_steps S S'"
  "start_wait d S = Some S' \<Longrightarrow> quiet_steps S S'"
  by (auto simp: start_send_def add_handler_def start_wait_def split: option.splits if_splits intro: quiet_intros)

lemma call_step_quiet: "call_step k w S = Some S' \<Longrightarrow> quiet_steps S S'"
  by (auto simp: call_step_def split: if_splits call.splits list.splits option.splits
      intro: quiet_intros quiet_steps_cong [OF start_quiet(1)] quiet_steps_cong [OF start_quiet(2)]
        quiet_steps_cong [OF start_quiet(3)])

lemma worker_turn_quiet: "worker_turn script th ex rnd d i S = Some S' \<Longrightarrow> quiet_steps S S'"
  by (auto simp: worker_turn_def Let_def split: if_splits worker_pc.splits option.splits intro: quiet_intros)

lemma nested_turn_quiet: "nested_turn d i S = Some S' \<Longrightarrow> quiet_steps S S'"
  by (auto simp: nested_turn_def split: if_splits list.splits nested.splits
      intro: quiet_intros quiet_steps_cong [OF start_quiet(1)])

lemma mset_shift:
  fixes s :: "'a multiset"
  assumes "a + t = s" and "s' + t = s + t' + n"
  shows "a + n + t' = s'"
proof -
  have "s' + t = (a + n + t') + t"
    using assms by (simp add: ac_simps)
  then show ?thesis by simp
qed

lemma sender_turn_log:
  assumes "sender_turn d i S = Some S'" and "log_ok e S"
  shows "log_ok e S'"
proof -
  obtain q where q: "mm_next (Run_Sender i) (r_queue S d) = Some q"
    using assms(1) by (auto simp: sender_turn_def split: option.splits)
  then have i: "i < length (senders (r_queue S d))"
    by (auto simp: mm_next_def sender_step_def split: if_splits)
  have S': "S' = set_queue d q (case senders (r_queue S d) ! i of S_notify m \<Rightarrow> log_message d m True S | _ \<Rightarrow> S)"
    using assms(1) q i by (simp add: sender_turn_def)
  show ?thesis
  proof (cases "e = d")
    case True
    have "mset (out_log d S') + mset (r_unlogged S' d) =
        mset (out_log d S) + mset (r_unlogged S d) + mset (notify_msgs (senders (r_queue S d) ! i))"
      unfolding S' by (simp add: log_message_def out_log_append split: sender.split) (simp add: out_log_def)
    moreover have "r_queue S' d = q"
      unfolding S' by simp
    ultimately show ?thesis
      using mset_shift [OF _ sender_sent [OF q]] assms(2) True by (simp add: log_ok_def)
  next
    case False
    have "out_log e S' = out_log e S" and "r_unlogged S' e = r_unlogged S e" and "r_queue S' e = r_queue S e"
      unfolding S' using False
      by (auto simp: log_message_def out_log_append split: sender.split) (auto simp: out_log_def)
    with assms(2) show ?thesis by (simp add: log_ok_def)
  qed
qed

lemma log_ok_reachable: "router_reachable script S \<Longrightarrow> log_ok d S"
proof (induction rule: router_reachable.induct)
  case init
  show ?case by (simp add: log_ok_def router_empty_def out_log_def to_log_def mq_empty_def)
next
  case (step S l S')
  have quiet: "log_ok d S'" if "quiet_steps S S'"
    using step.IH that by (simp add: log_ok_def quiet_steps_def)
  from step.hyps(2) show ?case
  proof (cases rule: router_next_cases)
    case (sender e i)
    from sender_turn_log [OF this step.IH] show ?thesis .
  qed (rule quiet; auto intro: quiet_intros call_step_quiet worker_turn_quiet nested_turn_quiet)+
qed

section \<open>The mutexes of the maps\<close>

fun is_disposing :: "'m call \<Rightarrow> bool" where
  "is_disposing (C_disposing d ws x) = True"
| "is_disposing c = False"

text \<open>Exactly the call that holds the mutexes is inside \<open>dispose\<close>.\<close>

definition lock_ok :: "'m router \<Rightarrow> bool" where
  "lock_ok S \<longleftrightarrow> (\<forall>k<length (r_calls S). is_disposing (r_calls S ! k) \<longleftrightarrow> r_lock S = Some k) \<and>
     (\<forall>k. r_lock S = Some k \<longrightarrow> k < length (r_calls S))"

lemma start_calls:
  "start_send d m n S = Some S' \<Longrightarrow> r_calls S' = r_calls S \<and> r_lock S' = r_lock S"
  "add_handler d order S = Some S' \<Longrightarrow> r_calls S' = r_calls S \<and> r_lock S' = r_lock S"
  "start_wait d S = Some S' \<Longrightarrow> r_calls S' = r_calls S \<and> r_lock S' = r_lock S"
  by (auto simp: start_send_def add_handler_def start_wait_def split: option.splits if_splits)

lemma turn_calls:
  "sender_turn d i S = Some S' \<Longrightarrow> r_calls S' = r_calls S \<and> r_lock S' = r_lock S"
  "worker_turn script th ex rnd d i S = Some S' \<Longrightarrow> r_calls S' = r_calls S \<and> r_lock S' = r_lock S"
  "nested_turn d i S = Some S' \<Longrightarrow> r_calls S' = r_calls S \<and> r_lock S' = r_lock S"
proof -
  show "sender_turn d i S = Some S' \<Longrightarrow> r_calls S' = r_calls S \<and> r_lock S' = r_lock S"
    by (auto simp: sender_turn_def split: option.splits if_splits sender.splits)
  show "worker_turn script th ex rnd d i S = Some S' \<Longrightarrow> r_calls S' = r_calls S \<and> r_lock S' = r_lock S"
    by (auto simp: worker_turn_def Let_def split: if_splits worker_pc.splits option.splits)
  show "nested_turn d i S = Some S' \<Longrightarrow> r_calls S' = r_calls S \<and> r_lock S' = r_lock S"
    by (auto simp: nested_turn_def dest: start_calls(1) split: if_splits list.splits nested.splits)
qed

lemma call_step_calls:
  assumes "call_step k w S = Some S'"
  shows "k < length (r_calls S)" and "\<exists>c. r_calls S' = (r_calls S)[k := c] \<and>
    (if is_disposing (r_calls S ! k)
     then (if is_disposing c then r_lock S' = r_lock S else r_lock S' = None)
     else r_lock S = None \<and> (if is_disposing c then r_lock S' = Some k else r_lock S' = None))"
proof -
  show k: "k < length (r_calls S)"
    using assms by (simp add: call_step_def split: if_splits)
  show "\<exists>c. r_calls S' = (r_calls S)[k := c] \<and>
    (if is_disposing (r_calls S ! k)
     then (if is_disposing c then r_lock S' = r_lock S else r_lock S' = None)
     else r_lock S = None \<and> (if is_disposing c then r_lock S' = Some k else r_lock S' = None))"
  proof (cases "r_calls S ! k")
    case (C_disposing d ws x)
    then show ?thesis
      using assms k by (auto simp: call_step_def split: if_splits list.splits option.splits)
  next
    case (C_dispose d)
    then show ?thesis
      using assms k by (auto simp: call_step_def split: if_splits)
  qed (use assms k in \<open>auto simp: call_step_def dest!: start_calls intro!: exI [of _ C_done] split: if_splits\<close>)
qed

lemma lock_ok_call_step: "call_step k w S = Some S' \<Longrightarrow> lock_ok S \<Longrightarrow> lock_ok S'"
  using call_step_calls [of k w S S']
  by (auto simp: lock_ok_def nth_list_update split: if_splits)

lemma lock_ok_reachable: "router_reachable script S \<Longrightarrow> lock_ok S"
proof (induction rule: router_reachable.induct)
  case init
  show ?case by (simp add: lock_ok_def router_empty_def)
next
  case (step S l S')
  have same: "lock_ok S'" if "r_calls S' = r_calls S \<and> r_lock S' = r_lock S"
    using step.IH that by (simp add: lock_ok_def)
  from step.hyps(2) show ?case
  proof (cases rule: router_next_cases)
    case (call c)
    then have "\<not> is_disposing c"
      by (cases c) simp_all
    with call step.IH show ?thesis
      by (auto simp: lock_ok_def nth_append less_Suc_eq)
  next
    case (go k w)
    from lock_ok_call_step [OF this step.IH] show ?thesis .
  qed (rule same; auto dest: turn_calls)+
qed

section \<open>A handler that sends while it is disposed\<close>

text \<open>A worker that is inside its handler stays there until it runs itself.\<close>

definition handling :: "nat \<Rightarrow> 'm mq \<Rightarrow> bool" where
  "handling i q \<longleftrightarrow> i < length (workers q) \<and> (\<exists>m. w_pc (workers q ! i) = W_handle m)"

lemma handling_worker:
  assumes "worker_step th ex rnd k q = Some q'" and "k \<noteq> i" and "handling i q"
  shows "handling i q'"
proof -
  have "\<exists>pc. pcs q' = (pcs q)[k := pc]"
    using assms(1) by (cases rule: worker_step_cases) (auto intro: list_update_id [symmetric] exI [of _ "pcs q ! k"])
  then show ?thesis
    using assms(2,3) by (metis handling_def length_list_update length_pcs nth_list_update_neq pcs_nth)
qed

lemma stop_worker_pc: "w_pc (ws[x := (ws ! x)\<lparr>w_running := False\<rparr>] ! i) = w_pc (ws ! i)"
  by (cases "x < length ws") (auto simp: nth_list_update not_less list_update_beyond)

lemma handling_next:
  assumes "mm_next l q = Some q'" and "\<And>th ex rnd. l \<noteq> Run_Worker th ex rnd i" and "handling i q"
  shows "handling i q'"
proof (cases l)
  case (Run_Worker th ex rnd k)
  then have "worker_step th ex rnd k q = Some q'" and "k \<noteq> i"
    using assms(1,2) by (auto simp: mm_next_def split: if_splits)
  with handling_worker assms(3) show ?thesis by blast
next
  case (Run_Destructor k)
  with assms show ?thesis
    by (auto simp: mm_next_def destructor_step_def handling_def notify_queue_cv_def stop_worker_def stop_worker_pc
        split: if_splits destructor.splits)
next
  case (Run_Sender k)
  with assms show ?thesis
    by (auto simp: mm_next_def sender_step_def send_locked_def set_sender_def notify_queue_cv_def handling_def
        split: if_splits sender.splits)
next
  case (Run_Waiter k)
  with assms show ?thesis
    by (auto simp: mm_next_def waiter_step_def set_waiter_def handling_def split: if_splits waiter.splits)
qed (use assms in \<open>auto simp: mm_next_def handling_def nth_append split: if_splits\<close>)

text \<open>The destructor joins such a worker.\<close>

definition joining :: "nat \<Rightarrow> nat \<Rightarrow> 'm mq \<Rightarrow> bool" where
  "joining j i q \<longleftrightarrow> j < length (destructors q) \<and> destructors q ! j = D_join i \<and> handling i q"

lemma joining_next:
  assumes "mm_next l q = Some q'" and "\<And>th ex rnd. l \<noteq> Run_Worker th ex rnd i" and "joining j i q"
  shows "joining j i q'"
proof -
  have "j < length (destructors q') \<and> destructors q' ! j = D_join i"
  proof (cases l)
    case (Run_Worker th ex rnd k)
    then have "worker_step th ex rnd k q = Some q'"
      using assms(1) by (simp add: mm_next_def split: if_splits)
    then have "destructors q' = destructors q"
      by (cases rule: worker_step_cases) simp_all
    with assms(3) show ?thesis by (simp add: joining_def)
  next
    case (Run_Destructor k)
    with assms show ?thesis
      by (cases "k = j")
        (auto simp: mm_next_def destructor_step_def joining_def handling_def notify_queue_cv_def stop_worker_def
          split: if_splits destructor.splits)
  next
    case (Run_Sender k)
    with assms show ?thesis
      by (auto simp: mm_next_def sender_step_def send_locked_def set_sender_def notify_queue_cv_def joining_def
          split: if_splits sender.splits)
  next
    case (Run_Waiter k)
    with assms show ?thesis
      by (auto simp: mm_next_def waiter_step_def set_waiter_def joining_def split: if_splits waiter.splits)
  qed (use assms in \<open>auto simp: mm_next_def joining_def nth_append split: if_splits\<close>)
  with handling_next [OF assms(1,2)] assms(3) show ?thesis
    by (simp add: joining_def)
qed

definition dispose_stuck :: "nat \<Rightarrow> nat \<Rightarrow> nat \<Rightarrow> nat \<Rightarrow> 'm router \<Rightarrow> bool" where
  "dispose_stuck k d j i S \<longleftrightarrow> r_lock S = Some k \<and> k < length (r_calls S) \<and>
     (\<exists>ws. r_calls S ! k = C_disposing d ws (Some j)) \<and> joining j i (r_queue S d) \<and>
     (\<exists>b x rest. r_nested S d i = N_call b x # rest)"

lemma stuck_call_step:
  assumes "lock_ok S" and "dispose_stuck k d j i S"
  shows "call_step l w S = None"
proof (cases "l < length (r_calls S) \<and> is_disposing (r_calls S ! l)")
  case True
  then have "l = k"
    using assms by (auto simp: lock_ok_def dispose_stuck_def)
  with assms(2) show ?thesis
    by (auto simp: call_step_def dispose_stuck_def joining_def split: list.splits)
next
  case False
  with assms(2) show ?thesis
    by (cases "r_calls S ! l") (auto simp: call_step_def dispose_stuck_def)
qed

lemma stuck_worker_turn:
  assumes "dispose_stuck k d j i S" and "worker_turn script th ex rnd e n S = Some S'"
  shows "dispose_stuck k d j i S'"
proof -
  have other: "\<not> (e = d \<and> n = i)"
    using assms by (auto simp: worker_turn_def dispose_stuck_def joining_def handling_def Let_def)
  have queues: "S' = S\<lparr>r_undefined := True\<rparr> \<or>
      (\<exists>q. mm_next (Run_Worker th ex rnd n) (r_queue S e) = Some q \<and> r_queue S' = (r_queue S)(e := q))"
    using assms(2) by (auto simp: worker_turn_def Let_def split: if_splits worker_pc.splits option.splits)
  have "joining j i (r_queue S' d)"
    using queues assms(1) other by (auto simp: dispose_stuck_def intro: joining_next)
  moreover have "r_nested S' d i = r_nested S d i"
    using assms(2) other
    by (auto simp: worker_turn_def enter_handler_def Let_def split: if_splits worker_pc.splits option.splits)
  ultimately show ?thesis
    using turn_calls(2) [OF assms(2)] assms(1) by (simp add: dispose_stuck_def)
qed

lemma stuck_nested_turn:
  assumes "dispose_stuck k d j i S" and "nested_turn e n S = Some S'"
  shows "dispose_stuck k d j i S'"
  using assms by (auto simp: nested_turn_def dispose_stuck_def split: if_splits list.splits nested.splits)

lemma stuck_sender_turn:
  assumes "dispose_stuck k d j i S" and "sender_turn e n S = Some S'"
  shows "dispose_stuck k d j i S'"
proof -
  obtain q where q: "mm_next (Run_Sender n) (r_queue S e) = Some q" "r_queue S' = (r_queue S)(e := q)" "r_nested S' = r_nested S"
    using assms(2) by (auto simp: sender_turn_def split: option.splits if_splits sender.splits)
  then show ?thesis
    using assms(1) turn_calls(1) [OF assms(2)] joining_next [OF q(1)] by (auto simp: dispose_stuck_def)
qed

lemma stuck_next:
  assumes "lock_ok S" and "dispose_stuck k d j i S" and "router_next script l S = Some S'"
  shows "dispose_stuck k d j i S'"
  using assms(3)
proof (cases rule: router_next_cases)
  case (queue e lq q)
  then have "joining j i (r_queue S' d)"
    using assms(2) joining_next [OF queue(1)] by (auto simp: dispose_stuck_def)
  with queue assms(2) show ?thesis by (simp add: dispose_stuck_def)
next
  case (go l w)
  with stuck_call_step [OF assms(1,2)] show ?thesis by simp
next
  case (call c)
  with assms(2) show ?thesis by (simp add: dispose_stuck_def nth_append)
next
  case (logger e b)
  with assms(2) show ?thesis by (simp add: dispose_stuck_def)
qed (rule stuck_worker_turn [OF assms(2)] stuck_nested_turn [OF assms(2)] stuck_sender_turn [OF assms(2)]; assumption)+

end
