(* ===== verification/Router_Invariant.thy ===== *)
theory Router_Invariant
  imports Message_Router
begin

text \<open>
  The states of \<^verbatim>\<open>Message_Router\<close> are well formed: ids, thread numbers and handler numbers that one part of the state holds
  exist in the part they point to, the handlers have one owner, and the mutexes of the maps are held by at most one call.
  The properties of the whole message manager follow at the end.
\<close>

section \<open>Well-formed states\<close>

text \<open>The handlers of an id that are not destroyed: those of \<open>_threads\<close> and those a call of \<open>dispose\<close> has yet to destroy.\<close>

definition disposing_list :: "nat \<Rightarrow> 'm call \<Rightarrow> nat list" where
  "disposing_list d c = (case c of C_disposing e ws x \<Rightarrow> if e = d then ws else [] | _ \<Rightarrow> [])"

definition live :: "'m router \<Rightarrow> nat \<Rightarrow> nat list" where
  "live S d = r_handlers S d @ (case r_lock S of None \<Rightarrow> [] | Some k \<Rightarrow> disposing_list d (r_calls S ! k))"

text \<open>The thread of each handler that is alive runs, and the handlers that are alive are owned once; \<open>_running\<close> is only cleared
  by the destructor of a handler whose members are gone.\<close>

definition owners_ok :: "'m router \<Rightarrow> nat \<Rightarrow> bool" where
  "owners_ok S d \<longleftrightarrow> distinct (live S d) \<and>
     (\<forall>w. w \<in> set (live S d) \<longleftrightarrow> w < length (workers (r_queue S d)) \<and> \<not> r_destroyed S d w) \<and>
     (\<forall>w. r_destroyed S d w \<longrightarrow> w < length (workers (r_queue S d))) \<and>
     (\<forall>w<length (workers (r_queue S d)). \<not> r_destroyed S d w \<longrightarrow> w_running (workers (r_queue S d) ! w)) \<and>
     (\<forall>w. D_set w \<in> set (destructors (r_queue S d)) \<longrightarrow> r_destroyed S d w)"

text \<open>A handler that sends is inside \<open>on_message\<close>, and the thread it waits for exists.\<close>

definition sends_ok :: "'m router \<Rightarrow> nat \<Rightarrow> bool" where
  "sends_ok S d \<longleftrightarrow> (\<forall>i. r_nested S d i \<noteq> [] \<longrightarrow> handling i (r_queue S d)) \<and>
     (\<forall>i b k. N_wait b k \<in> set (r_nested S d i) \<longrightarrow> k < length (senders (r_queue S b)))"

definition known_ok :: "'m router \<Rightarrow> nat \<Rightarrow> bool" where
  "known_ok S d \<longleftrightarrow> r_known S d \<or> r_queue S d = mq_empty"

definition calls_ok :: "'m router \<Rightarrow> bool" where
  "calls_ok S \<longleftrightarrow> (\<forall>d ws j. C_disposing d ws (Some j) \<in> set (r_calls S) \<longrightarrow> j < length (destructors (r_queue S d)))"

definition router_ok :: "'m router \<Rightarrow> bool" where
  "router_ok S \<longleftrightarrow> lock_ok S \<and> calls_ok S \<and> (\<forall>d. owners_ok S d \<and> sends_ok S d \<and> known_ok S d)"

text \<open>What every step of a queue keeps.\<close>

definition grows :: "'m mq \<Rightarrow> 'm mq \<Rightarrow> bool" where
  "grows q q' \<longleftrightarrow> length (workers q) \<le> length (workers q') \<and> length (senders q) \<le> length (senders q') \<and>
     length (destructors q) \<le> length (destructors q')"

text \<open>What every step keeps that neither adds a handler nor begins to destroy one.\<close>

definition frame :: "'m mq \<Rightarrow> 'm mq \<Rightarrow> bool" where
  "frame q q' \<longleftrightarrow> length (workers q') = length (workers q) \<and>
     (\<forall>w. D_set w \<in> set (destructors q') \<longrightarrow> D_set w \<in> set (destructors q)) \<and>
     (\<forall>w<length (workers q). w_running (workers q ! w) \<longrightarrow> w_running (workers q' ! w) \<or> D_set w \<in> set (destructors q))"

lemma grows_refl [simp]: "grows q q" and frame_refl [simp]: "frame q q"
  by (simp_all add: grows_def frame_def)

lemma running_set_worker [simp]: "w_running (workers (set_worker i pc q) ! w) = w_running (workers q ! w)"
  by (cases "i < length (workers q)") (auto simp: set_worker_def nth_list_update list_update_beyond)

lemma frame_worker:
  assumes "worker_step th ex rnd i q = Some q'"
  shows "frame q q' \<and> grows q q'"
  using assms by (cases rule: worker_step_cases) (auto simp: frame_def grows_def)


lemma frame_sender: "sender_step i q = Some q' \<Longrightarrow> frame q q' \<and> grows q q'"
  by (auto simp: sender_step_def send_locked_def set_sender_def notify_queue_cv_def frame_def grows_def
      split: if_splits sender.splits)

lemma frame_waiter: "waiter_step i q = Some q' \<Longrightarrow> frame q q' \<and> grows q q'"
  by (auto simp: waiter_step_def set_waiter_def frame_def grows_def split: if_splits waiter.splits)

lemma set_update_mem: "y \<in> set (xs[i := x]) \<Longrightarrow> y \<noteq> x \<Longrightarrow> y \<in> set xs"
  by (meson in_set_conv_nth insertE set_update_subset_insert subsetD)

lemma frame_destructor:
  assumes "destructor_step i q = Some q'"
  shows "frame q q' \<and> grows q q'"
proof -
  have i: "i < length (destructors q)"
    using assms by (simp add: destructor_step_def split: if_splits)
  show ?thesis
  proof (cases "destructors q ! i")
    case (D_set w)
    have "D_set w \<in> set (destructors q)"
      using i D_set by (metis nth_mem)
    then show ?thesis
      using assms i D_set
      by (auto simp: destructor_step_def stop_worker_def frame_def grows_def dest!: set_update_mem)
        (metis nth_list_update_neq)
  next
    case (D_notify w)
    then show ?thesis
      using assms i by (auto simp: destructor_step_def notify_queue_cv_def frame_def grows_def dest!: set_update_mem)
  next
    case (D_join w)
    then show ?thesis
      using assms i by (auto simp: destructor_step_def frame_def grows_def dest!: set_update_mem split: if_splits)
  next
    case D_done
    then show ?thesis
      using assms i by (simp add: destructor_step_def)
  qed
qed

lemma frame_next:
  assumes "mm_next l q = Some q'"
  shows "grows q q'" and "(\<And>order. l \<noteq> Add_Handler order) \<Longrightarrow> (\<And>w. l \<noteq> Dispose w) \<Longrightarrow> frame q q'"
proof -
  have "grows q q' \<and> ((\<forall>order. l \<noteq> Add_Handler order) \<longrightarrow> (\<forall>w. l \<noteq> Dispose w) \<longrightarrow> frame q q')"
  proof (cases l)
    case (Send_Message m n)
    with assms show ?thesis by (auto simp: mm_next_def grows_def frame_def split: if_splits)
  next
    case (Add_Handler order)
    with assms show ?thesis by (auto simp: mm_next_def grows_def split: if_splits)
  next
    case Wait_Until_Empty
    with assms show ?thesis by (auto simp: mm_next_def grows_def frame_def split: if_splits)
  next
    case (Dispose w)
    with assms show ?thesis by (auto simp: mm_next_def grows_def split: if_splits)
  qed (use assms frame_worker frame_sender frame_waiter frame_destructor in \<open>simp add: mm_next_def split: if_splits; blast\<close>)+
  then show "grows q q'" and "(\<And>order. l \<noteq> Add_Handler order) \<Longrightarrow> (\<And>w. l \<noteq> Dispose w) \<Longrightarrow> frame q q'"
    by auto
qed

subsection \<open>Owners\<close>

lemma owners_frame:
  assumes "owners_ok S d" and "live S' d = live S d" and "r_destroyed S' d = r_destroyed S d"
    and "frame (r_queue S d) (r_queue S' d)"
  shows "owners_ok S' d"
  using assms by (auto simp: owners_ok_def frame_def)

lemma live_cong:
  "r_handlers S' = r_handlers S \<Longrightarrow> r_calls S' = r_calls S \<Longrightarrow> r_lock S' = r_lock S \<Longrightarrow> live S' d = live S d"
  by (simp add: live_def split: option.split)

text \<open>A step that leaves the handlers and the calls alone.\<close>

definition keeps_owners :: "'m router \<Rightarrow> 'm router \<Rightarrow> bool" where
  "keeps_owners S S' \<longleftrightarrow> r_handlers S' = r_handlers S \<and> r_destroyed S' = r_destroyed S \<and>
     (\<forall>d. frame (r_queue S d) (r_queue S' d))"

lemma keeps_ownersI:
  assumes "mm_next l (r_queue S d) = Some q" and "\<And>order. l \<noteq> Add_Handler order" and "\<And>w. l \<noteq> Dispose w"
    and "r_queue S' = (r_queue S)(d := q)" and "r_handlers S' = r_handlers S" and "r_destroyed S' = r_destroyed S"
  shows "keeps_owners S S'"
  using assms frame_next(2) [OF assms(1-3)] by (simp add: keeps_owners_def)

lemma keeps_owners_same:
  "r_queue S' = r_queue S \<Longrightarrow> r_handlers S' = r_handlers S \<Longrightarrow> r_destroyed S' = r_destroyed S \<Longrightarrow> keeps_owners S S'"
  by (simp add: keeps_owners_def)

lemma keeps_owners_cong:
  "keeps_owners S S1 \<Longrightarrow> r_queue S' = r_queue S1 \<Longrightarrow> r_handlers S' = r_handlers S1 \<Longrightarrow> r_destroyed S' = r_destroyed S1 \<Longrightarrow>
   keeps_owners S S'"
  by (simp add: keeps_owners_def)

lemmas keeps_intros = keeps_owners_same keeps_ownersI

lemma start_keeps:
  "start_send d m n S = Some S' \<Longrightarrow> keeps_owners S S'" "start_wait d S = Some S' \<Longrightarrow> keeps_owners S S'"
  by (auto simp: start_send_def start_wait_def split: option.splits if_splits intro: keeps_intros)

lemma turn_keeps:
  "sender_turn d i S = Some S' \<Longrightarrow> keeps_owners S S'"
  "worker_turn script th ex rnd d i S = Some S' \<Longrightarrow> keeps_owners S S'"
  "nested_turn d i S = Some S' \<Longrightarrow> keeps_owners S S'"
proof -
  show "sender_turn d i S = Some S' \<Longrightarrow> keeps_owners S S'"
    by (auto simp: sender_turn_def split: option.splits if_splits sender.splits intro: keeps_intros)
  show "worker_turn script th ex rnd d i S = Some S' \<Longrightarrow> keeps_owners S S'"
    by (auto simp: worker_turn_def Let_def split: if_splits worker_pc.splits option.splits intro: keeps_intros)
  show "nested_turn d i S = Some S' \<Longrightarrow> keeps_owners S S'"
    by (auto simp: nested_turn_def split: if_splits list.splits nested.splits
        intro: keeps_owners_same keeps_owners_cong [OF start_keeps(1)])
qed

lemma owners_keeps:
  assumes "owners_ok S d" and "keeps_owners S S'" and "r_calls S' = r_calls S \<and> r_lock S' = r_lock S"
  shows "owners_ok S' d"
  using assms owners_frame [OF assms(1) live_cong] by (simp add: keeps_owners_def)

lemma owners_add:
  assumes "owners_ok S d" and "add_handler e order S = Some S'" and "r_lock S = None"
  shows "owners_ok S' d"
proof (cases "d = e")
  case True
  from assms(2) have
    "workers (r_queue S' e) = workers (r_queue S e) @ [\<lparr>w_pc = W_loop, w_running = True, w_order = order\<rparr>]"
    "destructors (r_queue S' e) = destructors (r_queue S e)"
    "r_handlers S' e = r_handlers S e @ [length (workers (r_queue S e))]" "r_destroyed S' = r_destroyed S" "r_lock S' = r_lock S"
    by (auto simp: add_handler_def mm_next_def split: option.splits if_splits)
  then show ?thesis
    using assms(1,3) True by (auto simp: owners_ok_def live_def nth_append less_Suc_eq)
next
  case False
  from assms(2) False have "r_queue S' d = r_queue S d" "r_handlers S' d = r_handlers S d" "r_destroyed S' = r_destroyed S"
      "r_lock S' = r_lock S"
    by (auto simp: add_handler_def split: option.splits)
  then show ?thesis
    using assms(1,3) by (simp add: owners_ok_def live_def)
qed


lemma live_free: "r_lock S = None \<Longrightarrow> live S d = r_handlers S d"
  by (simp add: live_def)

lemma owners_free:
  assumes "owners_ok S d" and "keeps_owners S S1" and "r_lock S = None" and "r_lock S1 = None"
  shows "owners_ok (put_call k c S1) d"
  using assms(2-) by (intro owners_frame [OF assms(1)]) (auto simp: live_free keeps_owners_def)

lemma owners_destroy:
  assumes "owners_ok S d" and "r_lock S = Some k" and "k < length (r_calls S)" and "r_calls S ! k = C_disposing d ws None"
    and "w \<in> set ws" and "mm_next (Dispose w) (r_queue S d) = Some q"
    and "S' = put_call k (C_disposing d (remove1 w ws) x)
           (set_queue d q (S\<lparr>r_destroyed := (r_destroyed S)(d := (r_destroyed S d)(w := True))\<rparr>))"
  shows "owners_ok S' d"
proof -
  have live: "live S d = r_handlers S d @ ws"
    using assms(2,4) by (simp add: live_def disposing_list_def)
  have live': "live S' d = r_handlers S d @ remove1 w ws"
    unfolding assms(7) using assms(2,3) by (simp add: live_def disposing_list_def put_call_def set_queue_def)
  have queue': "workers (r_queue S' d) = workers (r_queue S d)"
    "destructors (r_queue S' d) = destructors (r_queue S d) @ [D_set w]"
    unfolding assms(7) using assms(6) by (auto simp: mm_next_def split: if_splits)
  have destroyed': "r_destroyed S' d = (r_destroyed S d)(w := True)"
    unfolding assms(7) by simp
  have d: "distinct (r_handlers S d @ ws)"
    using assms(1) live by (simp add: owners_ok_def)
  then have set': "set (live S' d) = set (live S d) - {w}"
    using assms(5) unfolding live live' by auto
  have "distinct (live S' d)"
    using d unfolding live' by (auto dest: in_set_remove1 notin_set_remove1)
  then show ?thesis
    using assms(1,5) set' unfolding owners_ok_def queue' destroyed' live by auto
qed

lemma owners_call_step:
  assumes "call_step k w S = Some S'" and "lock_ok S" and "owners_ok S d"
  shows "owners_ok S' d"
proof -
  have k: "k < length (r_calls S)"
    using assms(1) by (simp add: call_step_def split: if_splits)
  have lock: "r_lock S = Some k" if "is_disposing (r_calls S ! k)"
    using that assms(2) k by (simp add: lock_ok_def)
  show ?thesis
  proof (cases "r_calls S ! k")
    case (C_send e m n)
    then show ?thesis
      using assms(1,3) k start_calls(1) start_keeps(1)
      by (fastforce simp: call_step_def split: if_splits intro: owners_free)
  next
    case (C_wait e)
    then show ?thesis
      using assms(1,3) k start_calls(3) start_keeps(2)
      by (fastforce simp: call_step_def split: if_splits intro: owners_free)
  next
    case (C_add e order)
    then obtain S1 where S1: "add_handler e order S = Some S1" "S' = put_call k C_done S1" "r_lock S = None"
      using assms(1) k by (auto simp: call_step_def split: if_splits)
    have "r_lock S1 = None"
      using start_calls(2) [OF S1(1)] S1(3) by simp
    then show ?thesis
      using owners_free [OF owners_add [OF assms(3) S1(1,3)], of S1] S1(2) by (simp add: keeps_owners_same)
  next
    case (C_dispose e)
    then have "S' = put_call k (C_disposing e (r_handlers S e) None) (S\<lparr>r_lock := Some k, r_handlers := (r_handlers S)(e := [])\<rparr>)"
      "r_lock S = None"
      using assms(1) k by (auto simp: call_step_def split: if_splits)
    then show ?thesis
      using k by (intro owners_frame [OF assms(3)]) (auto simp: live_def disposing_list_def put_call_def)
  next
    case (C_disposing e ws x)
    note lk = lock [unfolded C_disposing, simplified]
    show ?thesis
    proof (cases "x = None \<and> ws \<noteq> []")
      case False
      then show ?thesis
        using assms(1) k C_disposing lk
        by (intro owners_frame [OF assms(3)])
          (auto simp: call_step_def live_def disposing_list_def split: if_splits list.splits option.splits)
    next
      case True
      then obtain q j where q: "w \<in> set ws" "mm_next (Dispose w) (r_queue S e) = Some q"
        "S' = put_call k (C_disposing e (remove1 w ws) (Some j))
           (set_queue e q (S\<lparr>r_destroyed := (r_destroyed S)(e := (r_destroyed S e)(w := True))\<rparr>))"
        using assms(1) k C_disposing by (auto simp: call_step_def split: if_splits list.splits option.splits)
      show ?thesis
      proof (cases "d = e")
        case True
        with q \<open>x = None \<and> ws \<noteq> []\<close> C_disposing lk k assms(3) show ?thesis
          by (auto intro: owners_destroy)
      next
        case False
        then show ?thesis
          using q(3) lk k C_disposing by (intro owners_frame [OF assms(3)]) (simp_all add: live_def disposing_list_def)
      qed
    qed
  next
    case C_done
    then show ?thesis
      using assms(1) k by (simp add: call_step_def)
  qed
qed


subsection \<open>Sends of handlers\<close>

lemma terminated_simps [simp]:
  "terminated (set_worker i pc q) = terminated q" "terminated (stop_worker i q) = terminated q"
  "terminated (notify_queue_cv q) = terminated q"
  by (simp_all add: set_worker_def stop_worker_def notify_queue_cv_def)

text \<open>Only a worker in its handler ends the program.\<close>

lemma mm_next_terminated:
  assumes "mm_next l q = Some q'" and "terminated q'"
  shows "\<exists>th ex rnd i m. l = Run_Worker th ex rnd i \<and> i < length (workers q) \<and> w_pc (workers q ! i) = W_handle m"
proof -
  have nt: "\<not> terminated q"
    using assms(1) by (auto simp: mm_next_def)
  show ?thesis
  proof (cases l)
    case (Run_Worker th ex rnd i)
    then have "worker_step th ex rnd i q = Some q'"
      using assms(1) nt by (simp add: mm_next_def)
    then show ?thesis
      using nt assms(2) Run_Worker by (cases rule: worker_step_cases) (auto split: if_splits simp: notify_queue_cv_empty_def)
  next
    case (Run_Sender i)
    then show ?thesis
      using assms nt by (auto simp: mm_next_def sender_step_def send_locked_def set_sender_def split: if_splits sender.splits)
  next
    case (Run_Waiter i)
    then show ?thesis
      using assms nt by (auto simp: mm_next_def waiter_step_def set_waiter_def split: if_splits waiter.splits)
  next
    case (Run_Destructor i)
    then show ?thesis
      using assms nt by (auto simp: mm_next_def destructor_step_def split: if_splits destructor.splits)
  qed (use assms nt in \<open>auto simp: mm_next_def split: if_splits\<close>)
qed

text \<open>A step that is none of a handler.\<close>

definition calm :: "'m router \<Rightarrow> 'm router \<Rightarrow> bool" where
  "calm S S' \<longleftrightarrow> r_nested S' = r_nested S \<and>
     (\<forall>d. grows (r_queue S d) (r_queue S' d) \<and> (\<forall>i. handling i (r_queue S d) \<longrightarrow> handling i (r_queue S' d)) \<and>
       (terminated (r_queue S' d) \<longrightarrow> terminated (r_queue S d)))"

lemma calm_same: "r_queue S' = r_queue S \<Longrightarrow> r_nested S' = r_nested S \<Longrightarrow> calm S S'"
  by (simp add: calm_def)

lemma calmI:
  assumes "mm_next l (r_queue S d) = Some q" and "\<And>th ex rnd i. l \<noteq> Run_Worker th ex rnd i"
    and "r_queue S' = (r_queue S)(d := q)" and "r_nested S' = r_nested S"
  shows "calm S S'"
  using assms(2-4) frame_next(1) [OF assms(1)] handling_next [OF assms(1,2)] mm_next_terminated [OF assms(1)]
  by (auto simp: calm_def)

lemma calm_cong: "calm S S1 \<Longrightarrow> r_queue S' = r_queue S1 \<Longrightarrow> r_nested S' = r_nested S1 \<Longrightarrow> calm S S'"
  by (simp add: calm_def)

lemmas calm_intros = calm_same calmI

lemma start_calm:
  "start_send d m n S = Some S' \<Longrightarrow> calm S S'" "add_handler d order S = Some S' \<Longrightarrow> calm S S'"
  "start_wait d S = Some S' \<Longrightarrow> calm S S'"
  by (auto simp: start_send_def add_handler_def start_wait_def split: option.splits if_splits intro: calm_intros)

lemma call_step_calm: "call_step k w S = Some S' \<Longrightarrow> calm S S'"
  by (auto simp: call_step_def split: if_splits call.splits list.splits option.splits
      intro: calm_intros calm_cong [OF start_calm(1)] calm_cong [OF start_calm(2)] calm_cong [OF start_calm(3)])

lemma sender_turn_calm: "sender_turn d i S = Some S' \<Longrightarrow> calm S S'"
  by (auto simp: sender_turn_def split: option.splits if_splits sender.splits intro: calm_intros)

lemma sends_calm: "sends_ok S d \<Longrightarrow> calm S S' \<Longrightarrow> sends_ok S' d"
  unfolding sends_ok_def calm_def grows_def by (metis less_le_trans)

lemma handling_set_worker: "i < length (workers q) \<Longrightarrow> handling i (set_worker i (W_handle m) q)"
  by (simp add: handling_def set_worker_def)

text \<open>A worker that runs is not in the middle of a send, and only enters its handler with sends to do.\<close>

lemma worker_turn_idle:
  assumes "worker_turn script th ex rnd d i S = Some S'" and "sends_ok S d"
  shows "r_nested S d i = []"
proof (rule ccontr)
  assume n: "r_nested S d i \<noteq> []"
  with assms(2) obtain m where "w_pc (workers (r_queue S d) ! i) = W_handle m"
    by (auto simp: sends_ok_def handling_def)
  with assms(1) n show False
    by (simp add: worker_turn_def Let_def split: if_splits)
qed

lemma worker_turn_nested:
  assumes "worker_turn script th ex rnd d i S = Some S'"
  obtains (same) "r_nested S' = r_nested S"
  | (enter) m where "handling i (r_queue S' d)"
      and "r_nested S' = (r_nested S)(d := (r_nested S d)(i := map (\<lambda>(b, x). N_call b x) (script d m)))"
proof -
  consider "r_nested S' = r_nested S"
    | m q where "i < length (workers (r_queue S d))" "w_pc (workers (r_queue S d) ! i) = W_got (Some m)"
        "w_running (workers (r_queue S d) ! i)" "mm_next (Run_Worker th ex rnd i) (r_queue S d) = Some q"
        "S' = set_queue d q (enter_handler script d i m S)"
    using assms by (auto simp: worker_turn_def Let_def split: if_splits worker_pc.splits option.splits)
  then show thesis
  proof cases
    case 1
    then show thesis by (rule same)
  next
    case (2 m q)
    from 2(1-4) have "q = set_worker i (W_handle m) (r_queue S d)"
      by (simp add: mm_next_def worker_step_def split: if_splits)
    with 2(1,5) show thesis
      by (intro enter [of m]) (simp_all add: handling_set_worker enter_handler_def)
  qed
qed

lemma worker_turn_step:
  assumes "worker_turn script th ex rnd d i S = Some S'"
  shows "r_queue S' = r_queue S \<or>
    (\<exists>q. mm_next (Run_Worker th ex rnd i) (r_queue S d) = Some q \<and> r_queue S' = (r_queue S)(d := q))"
  using assms by (auto simp: worker_turn_def Let_def split: if_splits worker_pc.splits option.splits)

lemma queue_steps_grows: "queue_steps S S' \<Longrightarrow> grows (r_queue S d) (r_queue S' d)"
  using frame_next(1) by (auto simp: queue_steps_def)

lemma worker_turn_sends:
  assumes step: "worker_turn script th ex rnd d i S = Some S'" and ok: "\<And>d. sends_ok S d"
  shows "sends_ok S' e"
proof -
  have idle: "r_nested S d i = []"
    by (rule worker_turn_idle [OF step ok])
  have other: "handling n (r_queue S' e)" if "r_nested S e n \<noteq> []" for n
  proof -
    have "e \<noteq> d \<or> n \<noteq> i" and h: "handling n (r_queue S e)"
      using that idle ok [of e] by (auto simp: sends_ok_def)
    then show ?thesis
      using worker_turn_step [OF step] handling_next [of _ "r_queue S d" _ n] by (auto split: if_splits)
  qed
  have senders: "length (senders (r_queue S b)) \<le> length (senders (r_queue S' b))" for b
    using queue_steps_grows [OF worker_turn_queues [OF step]] by (simp add: grows_def)
  have old: "k < length (senders (r_queue S' b))" if "N_wait b k \<in> set (r_nested S e n)" for b k n
    using that ok [of e] senders [of b] unfolding sends_ok_def by (meson less_le_trans)
  show ?thesis
    using step
  proof (cases rule: worker_turn_nested)
    case same
    then show ?thesis using other old by (auto simp: sends_ok_def)
  next
    case (enter m)
    then show ?thesis using other old by (auto simp: sends_ok_def)
  qed
qed

lemma start_send_senders:
  "start_send b x n S = Some S' \<Longrightarrow> length (senders (r_queue S' b)) = Suc (length (senders (r_queue S b)))"
  by (auto simp: start_send_def mm_next_def split: option.splits if_splits)

lemma nested_turn_sends:
  assumes step: "nested_turn d i S = Some S'" and ok: "\<And>d. sends_ok S d"
  shows "sends_ok S' e"
proof (cases "r_nested S d i")
  case Nil
  with step show ?thesis by (simp add: nested_turn_def)
next
  case (Cons n rest)
  have h: "handling i (r_queue S d)"
    using ok [of d] Cons by (simp add: sends_ok_def)
  show ?thesis
  proof (cases n)
    case (N_call b x)
    with step Cons obtain S1 where S1: "start_send b x 0 S = Some S1"
        "S' = put_nested d i (N_wait b (length (senders (r_queue S b))) # rest) S1"
      by (auto simp: nested_turn_def split: if_splits)
    have calm: "calm S S1"
      by (rule start_calm(1) [OF S1(1)])
    then have "r_nested S1 = r_nested S" and "handling i (r_queue S1 d)"
      using h by (auto simp: calm_def)
    moreover have "k < length (senders (r_queue S1 a))" if "N_wait a k \<in> set rest" for a k
      using sends_calm [OF ok calm, of d] that Cons \<open>r_nested S1 = r_nested S\<close>
      by (metis list.set_intros(2) sends_ok_def)
    ultimately show ?thesis
      using sends_calm [OF ok calm, of e] start_send_senders [OF S1(1)] Cons unfolding S1(2)
      by (auto simp: sends_ok_def)
  next
    case (N_wait b k)
    with step Cons have "S' = put_nested d i rest S"
      by (simp add: nested_turn_def split: if_splits)
    moreover have "k < length (senders (r_queue S a))" if "N_wait a k \<in> set rest" for a k
      using ok [of d] that Cons by (metis list.set_intros(2) sends_ok_def)
    ultimately show ?thesis
      using ok [of e] h by (auto simp: sends_ok_def)
  qed
qed


subsection \<open>Known ids and calls\<close>

text \<open>The queue of an id that is not known stays empty: only a call makes threads, and it makes the id known.\<close>

lemma empty_stuck:
  "mm_next l mq_empty = Some q \<Longrightarrow> (\<exists>m n. l = Send_Message m n) \<or> (\<exists>order. l = Add_Handler order) \<or> l = Wait_Until_Empty"
  by (cases l) (auto simp: mm_next_def mq_empty_def sender_step_def worker_step_def waiter_step_def destructor_step_def)

definition keeps_known :: "'m router \<Rightarrow> 'm router \<Rightarrow> bool" where
  "keeps_known S S' \<longleftrightarrow> (\<forall>d. (r_known S d \<longrightarrow> r_known S' d) \<and>
     (r_known S' d \<or> r_queue S' d = r_queue S d \<or> r_queue S d \<noteq> mq_empty))"

lemma known_keeps: "known_ok S d \<Longrightarrow> keeps_known S S' \<Longrightarrow> known_ok S' d"
  by (auto simp: known_ok_def keeps_known_def)

lemma keeps_known_same: "r_known S' = r_known S \<Longrightarrow> r_queue S' = r_queue S \<Longrightarrow> keeps_known S S'"
  by (simp add: keeps_known_def)

lemma keeps_knownI:
  assumes "mm_next l (r_queue S d) = Some q" and "r_queue S' = (r_queue S)(d := q)" and "r_known S' = r_known S"
    and "\<And>m n. l \<noteq> Send_Message m n" and "\<And>order. l \<noteq> Add_Handler order" and "l \<noteq> Wait_Until_Empty"
  shows "keeps_known S S'"
proof -
  have "r_queue S d \<noteq> mq_empty"
    using assms(1,4-6) empty_stuck by metis
  with assms(2,3) show ?thesis by (simp add: keeps_known_def)
qed

lemma keeps_known_cong: "keeps_known S S1 \<Longrightarrow> r_known S' = r_known S1 \<Longrightarrow> r_queue S' = r_queue S1 \<Longrightarrow> keeps_known S S'"
  by (simp add: keeps_known_def)

lemmas known_intros = keeps_known_same keeps_knownI

lemma start_known:
  "start_send d m n S = Some S' \<Longrightarrow> keeps_known S S'" "add_handler d order S = Some S' \<Longrightarrow> keeps_known S S'"
  "start_wait d S = Some S' \<Longrightarrow> keeps_known S S'"
  by (auto simp: start_send_def add_handler_def start_wait_def keeps_known_def split: option.splits if_splits)

lemma call_step_known: "call_step k w S = Some S' \<Longrightarrow> keeps_known S S'"
  by (auto simp: call_step_def split: if_splits call.splits list.splits option.splits
      intro: known_intros keeps_known_cong [OF start_known(1)] keeps_known_cong [OF start_known(2)]
        keeps_known_cong [OF start_known(3)])

lemma turn_known:
  "sender_turn d i S = Some S' \<Longrightarrow> keeps_known S S'"
  "worker_turn script th ex rnd d i S = Some S' \<Longrightarrow> keeps_known S S'"
  "nested_turn d i S = Some S' \<Longrightarrow> keeps_known S S'"
proof -
  show "sender_turn d i S = Some S' \<Longrightarrow> keeps_known S S'"
    by (auto simp: sender_turn_def split: option.splits if_splits sender.splits intro: known_intros)
  show "worker_turn script th ex rnd d i S = Some S' \<Longrightarrow> keeps_known S S'"
    by (auto simp: worker_turn_def Let_def split: if_splits worker_pc.splits option.splits intro: known_intros)
  show "nested_turn d i S = Some S' \<Longrightarrow> keeps_known S S'"
    by (auto simp: nested_turn_def split: if_splits list.splits nested.splits
        intro: keeps_known_same keeps_known_cong [OF start_known(1)])
qed

lemma calls_grow:
  assumes "calls_ok S" and "queue_steps S S'" and "\<And>d ws j. C_disposing d ws (Some j) \<in> set (r_calls S') \<Longrightarrow>
    C_disposing d ws (Some j) \<in> set (r_calls S) \<or> j < length (destructors (r_queue S' d))"
  shows "calls_ok S'"
  using assms(1,3) queue_steps_grows [OF assms(2)] unfolding calls_ok_def grows_def by (meson less_le_trans)

lemma calls_call_step:
  assumes "call_step k w S = Some S'" and "calls_ok S"
  shows "calls_ok S'"
proof (rule calls_grow [OF assms(2) call_step_queues [OF assms(1)]])
  fix d ws j
  assume c: "C_disposing d ws (Some j) \<in> set (r_calls S')"
  show "C_disposing d ws (Some j) \<in> set (r_calls S) \<or> j < length (destructors (r_queue S' d))"
  proof (cases "C_disposing d ws (Some j) \<in> set (r_calls S)")
    case False
    with c call_step_calls [OF assms(1)] have "r_calls S' ! k = C_disposing d ws (Some j)" and "k < length (r_calls S)"
      by (auto dest: set_update_mem)
    with False assms(1) show ?thesis
      by (auto simp: call_step_def mm_next_def dest!: start_calls split: if_splits call.splits list.splits option.splits)
  qed simp
qed

subsection \<open>The invariant\<close>

lemma router_ok_same_calls:
  assumes "router_ok S" and "r_calls S' = r_calls S \<and> r_lock S' = r_lock S" and "keeps_owners S S'" and "keeps_known S S'"
    and "queue_steps S S'" and "\<And>d. sends_ok S' d"
  shows "router_ok S'"
  using assms calls_grow [OF _ assms(5)] owners_keeps [OF _ assms(3,2)] known_keeps [OF _ assms(4)]
  by (simp add: router_ok_def lock_ok_def)

lemma router_ok_next:
  assumes "router_next script l S = Some S'" and "router_ok S" and "lock_ok S'"
  shows "router_ok S'"
proof -
  note ok = assms(2) [unfolded router_ok_def]
  have queues: "queue_steps S S'"
    by (rule router_next_queues [OF assms(1)])
  have sends: "sends_ok S d" for d
    using ok by simp
  from assms(1) show ?thesis
  proof (cases rule: router_next_cases)
    case (call c)
    have "live S' d = live S d" for d
      using call ok by (auto simp: live_def lock_ok_def nth_append split: option.split)
    moreover have "calls_ok S'"
      using call by (intro calls_grow [OF _ queues]) (use ok in \<open>auto elim: client_call.elims\<close>)
    ultimately show ?thesis
      using call ok assms(3) by (auto simp: router_ok_def owners_ok_def sends_ok_def known_ok_def)
  next
    case (go k w)
    then show ?thesis
      using ok assms(3) owners_call_step [OF go] calls_call_step [OF go] sends_calm [OF _ call_step_calm [OF go]]
        known_keeps [OF _ call_step_known [OF go]]
      by (simp add: router_ok_def)
  next
    case (logger d b)
    then show ?thesis
      using queues by (intro router_ok_same_calls [OF assms(2)] sends_calm [OF sends] calm_same)
        (simp_all add: keeps_owners_same keeps_known_same)
  next
    case (sender d i)
    then show ?thesis
      using queues sends_calm [OF sends sender_turn_calm [OF sender]] turn_calls(1) [OF sender] turn_keeps(1) [OF sender]
        turn_known(1) [OF sender]
      by (intro router_ok_same_calls [OF assms(2)]) simp_all
  next
    case (worker th ex rnd d i)
    then show ?thesis
      using queues worker_turn_sends [OF worker sends] turn_calls(2) [OF worker] turn_keeps(2) [OF worker] turn_known(2) [OF worker]
      by (intro router_ok_same_calls [OF assms(2)]) simp_all
  next
    case (nested d i)
    then show ?thesis
      using queues nested_turn_sends [OF nested sends] turn_calls(3) [OF nested] turn_keeps(3) [OF nested] turn_known(3) [OF nested]
      by (intro router_ok_same_calls [OF assms(2)]) simp_all
  next
    case (queue d lq q)
    then show ?thesis
      using queues by (intro router_ok_same_calls [OF assms(2)] sends_calm [OF sends])
        (auto intro: keeps_ownersI keeps_knownI calmI)
  qed
qed

lemma router_ok_init: "router_ok router_empty"
  by (simp add: router_ok_def lock_ok_def calls_ok_def owners_ok_def sends_ok_def known_ok_def router_empty_def live_def mq_empty_def)

lemma router_ok_reachable: "router_reachable script S \<Longrightarrow> router_ok S"
  by (induction rule: router_reachable.induct)
    (auto intro: router_ok_init router_ok_next lock_ok_reachable router_reachable.step)


section \<open>Runs\<close>

text \<open>A handler of id 1 that answers each message \<open>m\<close> by sending \<open>m + 1\<close> to id 2.\<close>

definition relay :: "nat \<Rightarrow> nat \<Rightarrow> (nat \<times> nat) list" where
  "relay d m = (if d = 1 then [(2, m + 1)] else [])"

definition one_message :: "nat rlabel list" where
  "one_message = [Call (C_add 1 FIFO), Go 0 0, Set_Logger 1 True, Call (C_send 1 5 0), Go 1 0, Sender_Turn 1 0, Sender_Turn 1 0,
     Worker_Turn False False 0 1 0, Worker_Turn False False 0 1 0, Worker_Turn False False 0 1 0]"

definition in_handler :: "nat router" where
  "in_handler = the (router_run relay one_message router_empty)"

lemma in_handler_run: "router_run relay one_message router_empty = Some in_handler"
proof -
  have "router_run relay one_message router_empty \<noteq> None"
    by code_simp
  then show ?thesis by (simp add: in_handler_def)
qed

lemma in_handler_reachable: "router_reachable relay in_handler"
  by (rule manager_steps.run_start [OF in_handler_run])


text \<open>The same run, then a call of \<open>dispose\<close> up to the join of the thread that is still in its handler.\<close>

definition dispose_labels :: "nat rlabel list" where
  "dispose_labels = [Call (C_dispose 1), Go 2 0, Go 2 0, Destructor_Turn 1 0, Destructor_Turn 1 0]"

definition disposing_state :: "nat router" where
  "disposing_state = the (router_run relay (one_message @ dispose_labels) router_empty)"

lemma disposing_state_run: "router_run relay (one_message @ dispose_labels) router_empty = Some disposing_state"
proof -
  have "router_run relay (one_message @ dispose_labels) router_empty \<noteq> None"
    by code_simp
  then show ?thesis by (simp add: disposing_state_def)
qed

lemma disposing_state_reachable: "router_reachable relay disposing_state"
  by (rule manager_steps.run_start [OF disposing_state_run])

lemma disposing_state_stuck: "dispose_stuck 2 1 0 0 disposing_state"
proof -
  have "r_lock disposing_state = Some 2" "length (r_calls disposing_state) = 3"
    "r_calls disposing_state ! 2 = C_disposing 1 [] (Some 0)"
    "destructors (r_queue disposing_state 1) = [D_join 0]" "length (workers (r_queue disposing_state 1)) = 1"
    "w_pc (workers (r_queue disposing_state 1) ! 0) = W_handle 5" "r_nested disposing_state 1 0 = [N_call 2 6]"
    by code_simp+
  then show ?thesis
    by (simp add: dispose_stuck_def joining_def handling_def)
qed

lemma stuck_run:
  assumes "router_run script ls S = Some S'" and "router_reachable script S" and "dispose_stuck k d j i S"
  shows "dispose_stuck k d j i S'"
  using assms by (rule manager_steps.run_keeps [where P = "dispose_stuck k d j i"]) (rule stuck_next [OF lock_ok_reachable])

section \<open>Properties\<close>

text \<open>C6. The state of the message manager is well formed at every moment. At most one call holds the mutexes of the two maps;
  every handler that is not destroyed has one owner and a running thread; every thread and handler number that the state
  holds exists; a handler function in the middle of a send is run by a thread inside \<open>on_message\<close>; an id that is not
  in the map has no messages and no threads.\<close>

theorem router_well_formed:
  assumes "router_reachable script S"
  shows "router_ok S"
  by (rule router_ok_reachable [OF assms])

theorem router_well_formed_witness: "router_ok in_handler"
  by (rule router_well_formed [OF in_handler_reachable])

text \<open>C3. Queues of different ids do not disturb each other. In the whole manager, with client calls, handlers that send
  to other ids, \<open>dispose\<close> and the logger, each id behaves as a queue on its own, so for each id the messages sent are those that
  wait, are being handled, have been handled or were dropped by a handler that was disposed, and \<open>busy_count\<close> counts those being
  handled and those dropped.\<close>

theorem router_refines_queues:
  assumes "router_reachable script S"
  shows "mm_reachable (r_queue S d) \<and>
    mset (sent (r_queue S d)) = mset (queue (r_queue S d)) + mset (inflight (r_queue S d)) +
      mset (handled (r_queue S d)) + mset (dropped (r_queue S d)) \<and>
    busy_count (r_queue S d) = length (inflight (r_queue S d)) + length (dropped (r_queue S d))"
  using acct_reachable [OF router_queue_reachable [OF assms], of d] router_queue_reachable [OF assms]
  by (simp add: acct_def)

theorem router_refines_queues_witness:
  "mm_reachable (r_queue in_handler 1) \<and>
    mset (sent (r_queue in_handler 1)) = mset (queue (r_queue in_handler 1)) + mset (inflight (r_queue in_handler 1)) +
      mset (handled (r_queue in_handler 1)) + mset (dropped (r_queue in_handler 1)) \<and>
    inflight (r_queue in_handler 1) = [5]"
proof -
  have "inflight (r_queue in_handler 1) = [5]"
    by code_simp
  then show ?thesis
    using router_refines_queues [OF in_handler_reachable, of 1] by simp
qed

text \<open>The logger sees every message once. For each id, the outgoing messages in the log, those sent while no logger
  was set and those whose sender has yet to log them are together exactly the messages sent.\<close>

lemma logger_complete:
  assumes "router_reachable script S"
  shows "mset (out_log d S) + mset (r_unlogged S d) + mset (to_log (r_queue S d)) = mset (sent (r_queue S d))"
  using log_ok_reachable [OF assms] by (simp add: log_ok_def)

lemma logger_complete_witness:
  "mset (out_log 1 in_handler) + mset (r_unlogged in_handler 1) + mset (to_log (r_queue in_handler 1)) =
     mset (sent (r_queue in_handler 1)) \<and> out_log 1 in_handler = [5]"
proof -
  have "out_log 1 in_handler = [5]"
    by code_simp
  then show ?thesis
    using logger_complete [OF in_handler_reachable, of 1] by simp
qed

text \<open>C37. \<open>dispose\<close> deadlocks with a handler that sends. \<open>dispose\<close> joins the handler's thread while it holds
  \<open>_message_queues_mutex\<close>. If that thread is about to call \<open>send_message\<close>, neither ever goes on: however the program runs, the
  call of \<open>dispose\<close> stays where it is and holds the mutexes, and no call of a client that has not got past them does.\<close>

theorem dispose_send_deadlock:
  assumes "router_reachable script S" and "dispose_stuck k d j i S" and "router_run script ls S = Some S'"
  shows "(\<exists>ws. r_calls S' ! k = C_disposing d ws (Some j)) \<and> r_lock S' = Some k \<and> (\<forall>l w. call_step l w S' = None)"
proof -
  have stuck: "dispose_stuck k d j i S'"
    by (rule stuck_run [OF assms(3,1,2)])
  have "call_step l w S' = None" for l w
    by (rule stuck_call_step [OF lock_ok_reachable [OF manager_steps.run_reach [OF assms(3,1)]] stuck])
  with stuck show ?thesis
    by (auto simp: dispose_stuck_def)
qed

theorem dispose_send_deadlock_witness:
  "(\<exists>ws. r_calls disposing_state ! 2 = C_disposing 1 ws (Some 0)) \<and> r_lock disposing_state = Some 2 \<and>
     (\<forall>l w. call_step l w disposing_state = None)"
  using dispose_send_deadlock [OF disposing_state_reachable disposing_state_stuck, of "[]"] by simp


end
