(* ===== verification/Router_Dispose.thy ===== *)
theory Router_Dispose
  imports Router_Invariant
begin

text \<open>
  \<open>dispose\<close> of handlers that are idle. While no handler of the id is busy and the mutexes of the maps are free, the call and the
  threads of its handlers can go on by themselves until it returns: each handler is destroyed, its thread wakes up, leaves its loop
  and is joined, and no step is undefined.
\<close>

definition idle :: "nat \<Rightarrow> 'm mq \<Rightarrow> bool" where
  "idle i q \<longleftrightarrow> i < length (workers q) \<and> (\<exists>b. w_pc (workers q ! i) = W_wait b)"

section \<open>One handler\<close>

lemma idle_notify: "idle i q \<Longrightarrow> idle i (notify_queue_cv q)"
  by (auto simp: idle_def notify_queue_cv_def)

lemma workers_set_worker [simp]:
  "workers (set_worker i pc q) = (workers q)[i := (workers q ! i)\<lparr>w_pc := pc\<rparr>]"
  by (simp add: set_worker_def)

text \<open>The states of the queue while an idle handler is destroyed.\<close>

definition stopped_queue :: "nat \<Rightarrow> 'm mq \<Rightarrow> 'm mq" where
  "stopped_queue w q =
     (notify_queue_cv ((stop_worker w (q\<lparr>destructors := destructors q @ [D_set w]\<rparr>))\<lparr>destructors := destructors q @ [D_notify w]\<rparr>))
       \<lparr>destructors := destructors q @ [D_join w]\<rparr>"

definition at_pc :: "nat \<Rightarrow> 'm worker_pc \<Rightarrow> 'm mq \<Rightarrow> bool" where
  "at_pc w pc q \<longleftrightarrow> \<not> terminated q \<and> w < length (workers q) \<and> w_pc (workers q ! w) = pc \<and> \<not> w_running (workers q ! w)"

lemma stop_steps:
  assumes "\<not> terminated q" and "idle w q" and "w_running (workers q ! w)"
  shows "mm_next (Dispose w) q = Some (q\<lparr>destructors := destructors q @ [D_set w]\<rparr>)"
    and "mm_next (Run_Destructor (length (destructors q))) (q\<lparr>destructors := destructors q @ [D_set w]\<rparr>) =
      Some ((stop_worker w (q\<lparr>destructors := destructors q @ [D_set w]\<rparr>))\<lparr>destructors := destructors q @ [D_notify w]\<rparr>)"
    and "mm_next (Run_Destructor (length (destructors q)))
        ((stop_worker w (q\<lparr>destructors := destructors q @ [D_set w]\<rparr>))\<lparr>destructors := destructors q @ [D_notify w]\<rparr>) =
      Some (stopped_queue w q)"
    and "at_pc w (W_wait True) (stopped_queue w q)"
  using assms
  by (auto simp: mm_next_def idle_def destructor_step_def stopped_queue_def at_pc_def notify_queue_cv_def stop_worker_def)

text \<open>A stopped worker leaves its loop in four steps.\<close>

lemma leave_steps:
  assumes "at_pc w pc q" and "pc \<in> {W_wait True, W_got None, W_loop, W_exit}"
  defines "next_pc \<equiv> (case pc of W_wait b \<Rightarrow> W_got None | W_got x \<Rightarrow> W_loop | W_loop \<Rightarrow> W_exit | _ \<Rightarrow> W_done)"
  shows "mm_next (Run_Worker False False 0 w) q = Some (set_worker w next_pc q)" and "at_pc w next_pc (set_worker w next_pc q)"
  using assms by (auto simp: at_pc_def mm_next_def worker_step_def worker_take_def)

definition left_queue :: "nat \<Rightarrow> 'm mq \<Rightarrow> 'm mq" where
  "left_queue w q = set_worker w W_done (set_worker w W_exit (set_worker w W_loop (set_worker w (W_got None) (stopped_queue w q))))"

definition joined_queue :: "nat \<Rightarrow> 'm mq \<Rightarrow> 'm mq" where
  "joined_queue w q = (left_queue w q)\<lparr>destructors := destructors q @ [D_done]\<rparr>"

lemma left_destructors: "destructors (left_queue w q) = destructors q @ [D_join w]"
  by (simp add: left_queue_def stopped_queue_def)

lemma join_step:
  assumes "at_pc w W_done (left_queue w q)"
  shows "mm_next (Run_Destructor (length (destructors q))) (left_queue w q) = Some (joined_queue w q)"
  using assms left_destructors [of w q]
  by (simp add: at_pc_def mm_next_def destructor_step_def joined_queue_def)

text \<open>The other workers are woken at most.\<close>

lemma joined_others:
  assumes "i \<noteq> w"
  shows "idle i q \<Longrightarrow> idle i (joined_queue w q)" and "i < length (workers q) \<Longrightarrow> w_running (workers q ! i) \<Longrightarrow> w_running (workers (joined_queue w q) ! i)"
  using assms
  by (auto simp: idle_def joined_queue_def left_queue_def stopped_queue_def notify_queue_cv_def stop_worker_def)

lemma joined_terminated: "terminated (joined_queue w q) = terminated q"
  by (simp add: joined_queue_def left_queue_def stopped_queue_def)

section \<open>The call\<close>

text \<open>A state in which call \<open>k\<close> has yet to destroy the idle handlers \<open>ws\<close> of \<open>d\<close>.\<close>

definition disposing_idle :: "nat \<Rightarrow> nat \<Rightarrow> nat list \<Rightarrow> 'm router \<Rightarrow> bool" where
  "disposing_idle k d ws S \<longleftrightarrow> \<not> r_undefined S \<and> \<not> r_terminated S \<and> r_lock S = Some k \<and> k < length (r_calls S) \<and>
     r_calls S ! k = C_disposing d ws None \<and> \<not> terminated (r_queue S d) \<and> distinct ws \<and>
     (\<forall>w\<in>set ws. idle w (r_queue S d) \<and> w_running (workers (r_queue S d) ! w))"

lemma flags_sel [simp]:
  "r_undefined (put_call k c S) = r_undefined S" "r_undefined (set_queue d q S) = r_undefined S"
  "r_terminated (put_call k c S) = r_terminated S" "r_terminated (set_queue d q S) = r_terminated S"
  by (simp_all add: put_call_def set_queue_def)

lemma set_queue_twice [simp]: "set_queue d q' (set_queue d q S) = set_queue d q' S"
  by (simp add: set_queue_def)

text \<open>A step of a stopped worker outside its handler is the step of the queue.\<close>

lemma worker_turn_stopped:
  assumes "mm_next (Run_Worker False False 0 w) q = Some q'" and "at_pc w pc q" and "pc \<in> {W_wait True, W_got None, W_loop, W_exit}"
    and "\<not> r_undefined T" and "\<not> r_terminated T"
  shows "router_next script (Worker_Turn False False 0 d w) (set_queue d q T) = Some (set_queue d q' T)"
  using assms by (auto simp: router_next_def worker_turn_def at_pc_def)

lemma destructor_turn:
  assumes "mm_next (Run_Destructor j) q = Some q'" and "\<not> r_undefined T" and "\<not> r_terminated T"
  shows "router_next script (Destructor_Turn d j) (set_queue d q T) = Some (set_queue d q' T)"
  using assms by (simp add: router_next_def)

lemma destroy_one:
  assumes "disposing_idle k d ws S" and "w \<in> set ws"
  defines "j \<equiv> length (destructors (r_queue S d))"
  shows "\<exists>S'. router_run script
      ([Go k w, Destructor_Turn d j, Destructor_Turn d j] @ replicate 4 (Worker_Turn False False 0 d w) @ [Destructor_Turn d j, Go k 0]) S =
      Some S' \<and> disposing_idle k d (remove1 w ws) S' \<and> r_handlers S' = r_handlers S \<and> length (r_calls S') = length (r_calls S)"
proof -
  let ?q = "r_queue S d"
  let ?D = "S\<lparr>r_destroyed := (r_destroyed S)(d := (r_destroyed S d)(w := True))\<rparr>"
  define T where "T = put_call k (C_disposing d (remove1 w ws) (Some j)) ?D"
  have S: "\<not> r_undefined S" "\<not> r_terminated S" "r_lock S = Some k" "k < length (r_calls S)" "r_calls S ! k = C_disposing d ws None"
    "\<not> terminated ?q" "idle w ?q" "w_running (workers ?q ! w)" "distinct ws"
    using assms(1,2) by (auto simp: disposing_idle_def)
  have T: "\<not> r_undefined T" "\<not> r_terminated T" "r_queue T = r_queue S"
    using S by (simp_all add: T_def)
  note stop = stop_steps [OF S(6,7,8)]
  let ?q4 = "set_worker w (W_got None) (stopped_queue w ?q)"
  let ?q5 = "set_worker w W_loop ?q4"
  let ?q6 = "set_worker w W_exit ?q5"
  have steps: "at_pc w (W_got None) ?q4" "at_pc w W_loop ?q5" "at_pc w W_exit ?q6" "at_pc w W_done (left_queue w ?q)"
    "mm_next (Run_Worker False False 0 w) (stopped_queue w ?q) = Some ?q4" "mm_next (Run_Worker False False 0 w) ?q4 = Some ?q5"
    "mm_next (Run_Worker False False 0 w) ?q5 = Some ?q6" "mm_next (Run_Worker False False 0 w) ?q6 = Some (left_queue w ?q)"
    using leave_steps [OF stop(4)] leave_steps [of w "W_got None" ?q4] leave_steps [of w W_loop ?q5] leave_steps [of w W_exit ?q6]
    by (simp_all add: left_queue_def)
  have first: "router_next script (Go k w) S = Some (set_queue d (?q\<lparr>destructors := destructors ?q @ [D_set w]\<rparr>) T)"
    using S stop(1) assms(2) unfolding j_def
    by (cases ws) (simp_all add: router_next_def call_step_def T_def j_def put_call_def set_queue_def)
  have turns:
    "router_next script (Destructor_Turn d j) (set_queue d (?q\<lparr>destructors := destructors ?q @ [D_set w]\<rparr>) T) =
      Some (set_queue d ((stop_worker w (?q\<lparr>destructors := destructors ?q @ [D_set w]\<rparr>))
        \<lparr>destructors := destructors ?q @ [D_notify w]\<rparr>) T)"
    "router_next script (Destructor_Turn d j)
        (set_queue d ((stop_worker w (?q\<lparr>destructors := destructors ?q @ [D_set w]\<rparr>))\<lparr>destructors := destructors ?q @ [D_notify w]\<rparr>) T) =
      Some (set_queue d (stopped_queue w ?q) T)"
    "router_next script (Worker_Turn False False 0 d w) (set_queue d (stopped_queue w ?q) T) = Some (set_queue d ?q4 T)"
    "router_next script (Worker_Turn False False 0 d w) (set_queue d ?q4 T) = Some (set_queue d ?q5 T)"
    "router_next script (Worker_Turn False False 0 d w) (set_queue d ?q5 T) = Some (set_queue d ?q6 T)"
    "router_next script (Worker_Turn False False 0 d w) (set_queue d ?q6 T) = Some (set_queue d (left_queue w ?q) T)"
    "router_next script (Destructor_Turn d j) (set_queue d (left_queue w ?q) T) = Some (set_queue d (joined_queue w ?q) T)"
    using destructor_turn [OF stop(2) [folded j_def] T(1,2)] destructor_turn [OF stop(3) [folded j_def] T(1,2)]
      worker_turn_stopped [OF steps(5) stop(4) _ T(1,2)] worker_turn_stopped [OF steps(6) steps(1) _ T(1,2)]
      worker_turn_stopped [OF steps(7) steps(2) _ T(1,2)] worker_turn_stopped [OF steps(8) steps(3) _ T(1,2)]
      destructor_turn [OF join_step [OF steps(4), folded j_def] T(1,2)]
    by simp_all
  have last: "router_next script (Go k 0) (set_queue d (joined_queue w ?q) T) =
      Some (put_call k (C_disposing d (remove1 w ws) None) (set_queue d (joined_queue w ?q) T))" (is "_ = Some ?S'")
    using S by (simp add: router_next_def call_step_def T_def j_def joined_queue_def split: list.split)
  have "router_run script
      ([Go k w, Destructor_Turn d j, Destructor_Turn d j] @ replicate 4 (Worker_Turn False False 0 d w) @ [Destructor_Turn d j, Go k 0]) S =
      Some ?S'"
    using first turns last by (simp add: numeral_eq_Suc)
  moreover have "disposing_idle k d (remove1 w ws) ?S'"
    using assms(1) S joined_others [of _ w ?q] joined_terminated [of w ?q]
    by (auto simp: disposing_idle_def T_def idle_def)
  ultimately show ?thesis
    by (auto simp: T_def)
qed

text \<open>All of them, one after the other, and the return.\<close>

lemma dispose_idle:
  "disposing_idle k d ws S \<Longrightarrow> \<exists>ls S'. router_run script ls S = Some S' \<and> r_calls S' ! k = C_done \<and> r_lock S' = None \<and>
     \<not> r_undefined S' \<and> \<not> r_terminated S' \<and> r_handlers S' = r_handlers S"
proof (induction "length ws" arbitrary: ws S)
  case 0
  then have S: "\<not> r_undefined S" "\<not> r_terminated S" "k < length (r_calls S)" "r_calls S ! k = C_disposing d [] None"
    by (simp_all add: disposing_idle_def)
  then have "router_next script (Go k 0) S = Some (put_call k C_done (S\<lparr>r_lock := None\<rparr>))"
    by (simp add: router_next_def call_step_def)
  with S show ?case
    by (intro exI [of _ "[Go k 0]"] exI [of _ "put_call k C_done (S\<lparr>r_lock := None\<rparr>)"]) (simp add: put_call_def)
next
  case (Suc n)
  then obtain w where w: "w \<in> set ws"
    by (cases ws) auto
  from destroy_one [OF Suc.prems w] obtain ls S1 where S1: "router_run script ls S = Some S1"
      "disposing_idle k d (remove1 w ws) S1" "r_handlers S1 = r_handlers S"
    by blast
  have "n = length (remove1 w ws)"
    using Suc.hyps(2) w by (simp add: length_remove1)
  from Suc.hyps(1) [OF this S1(2)] obtain ms S' where "router_run script ms S1 = Some S'" "r_calls S' ! k = C_done" "r_lock S' = None"
      "\<not> r_undefined S'" "\<not> r_terminated S'" "r_handlers S' = r_handlers S1"
    by blast
  with manager_steps.run_trans [OF S1(1)] S1(3) show ?case by metis
qed

section \<open>Termination of the process\<close>

text \<open>A queue in which the program was terminated is a program that was.\<close>

definition ends_ok :: "'m router \<Rightarrow> bool" where
  "ends_ok S \<longleftrightarrow> (\<forall>d. terminated (r_queue S d) \<longrightarrow> r_terminated S)"

lemma ends_worker_turn:
  assumes "worker_turn script th ex rnd d i S = Some S'" and "\<And>e. \<not> terminated (r_queue S e)" and "terminated (r_queue S' e)"
  shows "r_terminated S'"
proof -
  obtain q where q: "mm_next (Run_Worker th ex rnd i) (r_queue S d) = Some q" "r_queue S' = (r_queue S)(d := q)" "terminated q"
    using worker_turn_step [OF assms(1)] assms(2,3) by (auto split: if_splits)
  then obtain m where "w_pc (workers (r_queue S d) ! i) = W_handle m"
    using mm_next_terminated [OF q(1,3)] by auto
  with assms(1) q(1,3) show ?thesis
    using q(2) assms(2) [of d] by (auto simp: worker_turn_def Let_def split: if_splits dest: fun_cong [of _ _ d])
qed

lemma ends_calm: "(\<And>e. \<not> terminated (r_queue S e)) \<Longrightarrow> calm S S' \<Longrightarrow> ends_ok S'"
  by (auto simp: ends_ok_def calm_def)

lemma nested_turn_calm:
  assumes "nested_turn d i S = Some S'"
  shows "\<exists>S1. calm S S1 \<and> r_queue S' = r_queue S1"
proof (cases "r_nested S d i")
  case (Cons n rest)
  then show ?thesis
    using assms by (cases n) (auto simp: nested_turn_def split: if_splits intro: calm_same start_calm)
qed (use assms in \<open>simp add: nested_turn_def\<close>)

lemma ends_ok_reachable: "router_reachable script S \<Longrightarrow> ends_ok S"
proof (induction rule: router_reachable.induct)
  case init
  show ?case by (simp add: ends_ok_def router_empty_def mq_empty_def)
next
  case (step S l S')
  have "\<not> r_terminated S"
    using step.hyps(2) by (auto simp: router_next_def split: if_splits)
  then have alive: "\<not> terminated (r_queue S e)" for e
    using step.IH by (auto simp: ends_ok_def)
  note calm = ends_calm [OF alive]
  from step.hyps(2) show ?case
  proof (cases rule: router_next_cases)
    case (worker th ex rnd d i)
    then show ?thesis
      using ends_worker_turn [OF worker alive] by (auto simp: ends_ok_def)
  next
    case (nested d i)
    then obtain S1 where "calm S S1" and "r_queue S' = r_queue S1"
      using nested_turn_calm by blast
    then show ?thesis
      using alive by (simp add: ends_ok_def calm_def)
  next
    case (queue d lq q)
    then show ?thesis
      by (intro calm calmI [of lq S d q]) auto
  qed (rule calm; auto intro: calm_same call_step_calm sender_turn_calm)+
qed

section \<open>Properties\<close>

text \<open>C32. \<open>dispose\<close> returns when its handlers are idle. In every reachable state in which nobody holds the mutexes of the maps and every
  handler of the id sleeps, a call of \<open>dispose\<close> can be completed by its own steps and those of the handlers' threads: there is a run
  at whose end the call has returned, the mutexes are free, the id has no handlers left and nothing undefined has happened.\<close>

theorem dispose_idle_returns:
  assumes "router_reachable script S" and "\<not> r_undefined S" and "\<not> r_terminated S" and "r_lock S = None"
    and "\<forall>w\<in>set (r_handlers S d). idle w (r_queue S d)"
  shows "\<exists>ls S'. router_run script (Call (C_dispose d) # ls) S = Some S' \<and> r_calls S' ! length (r_calls S) = C_done \<and>
    r_lock S' = None \<and> r_handlers S' d = [] \<and> \<not> r_undefined S' \<and> \<not> r_terminated S'"
proof -
  let ?k = "length (r_calls S)"
  let ?S1 = "S\<lparr>r_calls := r_calls S @ [C_dispose d]\<rparr>"
  let ?S2 = "put_call ?k (C_disposing d (r_handlers S d) None) (?S1\<lparr>r_lock := Some ?k, r_handlers := (r_handlers S)(d := [])\<rparr>)"
  have call: "router_next script (Call (C_dispose d)) S = Some ?S1"
    using assms(2,3) by (simp add: router_next_def)
  have enter: "router_next script (Go ?k 0) ?S1 = Some ?S2"
    using assms(2-4) by (simp add: router_next_def call_step_def)
  have "owners_ok S d"
    using router_ok_reachable [OF assms(1)] by (simp add: router_ok_def)
  then have "distinct (r_handlers S d)" and "\<forall>w\<in>set (r_handlers S d). w_running (workers (r_queue S d) ! w)"
    using assms(4) by (auto simp: owners_ok_def live_free)
  moreover have "\<not> terminated (r_queue S d)"
    using ends_ok_reachable [OF assms(1)] assms(3) by (auto simp: ends_ok_def)
  ultimately have "disposing_idle ?k d (r_handlers S d) ?S2"
    using assms(2,3,5) by (simp add: disposing_idle_def)
  from dispose_idle [OF this] obtain ls S' where "router_run script ls ?S2 = Some S'" "r_calls S' ! ?k = C_done"
    "r_lock S' = None" "\<not> r_undefined S'" "\<not> r_terminated S'" "r_handlers S' = r_handlers ?S2"
    by blast
  then show ?thesis
    using call enter by (intro exI [of _ "Go ?k 0 # ls"] exI [of _ S']) simp
qed

definition sleeping_labels :: "nat rlabel list" where
  "sleeping_labels = [Call (C_add 1 FIFO), Go 0 0, Worker_Turn False False 0 1 0, Worker_Turn False False 0 1 0]"

definition sleeping_state :: "nat router" where
  "sleeping_state = the (router_run relay sleeping_labels router_empty)"

lemma sleeping_state_run: "router_run relay sleeping_labels router_empty = Some sleeping_state"
proof -
  have "router_run relay sleeping_labels router_empty \<noteq> None"
    by code_simp
  then show ?thesis by (simp add: sleeping_state_def)
qed

theorem dispose_idle_returns_witness:
  "\<exists>ls S'. router_run relay (Call (C_dispose 1) # ls) sleeping_state = Some S' \<and> r_calls S' ! 1 = C_done \<and>
    r_lock S' = None \<and> r_handlers S' 1 = [] \<and> \<not> r_undefined S' \<and> \<not> r_terminated S'"
proof -
  have S: "\<not> r_undefined sleeping_state" "\<not> r_terminated sleeping_state" "r_lock sleeping_state = None"
    "length (r_calls sleeping_state) = 1" "r_handlers sleeping_state 1 = [0]" "length (workers (r_queue sleeping_state 1)) = 1"
    "w_pc (workers (r_queue sleeping_state 1) ! 0) = W_wait False"
    by code_simp+
  then have "\<forall>w\<in>set (r_handlers sleeping_state 1). idle w (r_queue sleeping_state 1)"
    by (auto simp: idle_def intro: exI [of _ False])
  from dispose_idle_returns [OF manager_steps.run_start [OF sleeping_state_run] S(1-3) this] show ?thesis
    using S(4) by simp
qed

end
