(* ===== verification/Segment_Opening.thy ===== *)
theory Segment_Opening
  imports Shared_Memory
begin

text \<open>
  The constructor of \<open>named_recursive_mutex\<close> (\<^verbatim>\<open>concurrency/named_recursive_mutex.hpp\<close>), system call by system call, run by any
  number of threads and processes that open the same name. Alone, a constructor does what the single step of \<^verbatim>\<open>Shared_Memory\<close>
  does. Together, at most one of them ever returns: another one initializes a mutex that is initialized, or touches an object that
  its maker has not given its size yet.
\<close>

datatype opener =
    O_start
  | O_exists
  | O_opened bool nat
  | O_sized nat
  | O_mapped nat
  | O_done nat
  | O_failed failure

definition opener_step :: "nat \<Rightarrow> sys_choice \<Rightarrow> string \<Rightarrow> opener \<Rightarrow> kernel \<Rightarrow> (opener \<times> kernel) option" where
  "opener_step name_max c name pc K =
     (case pc of
        O_start \<Rightarrow>
          if length name > name_max
          then Some (O_failed (system_error (mutex_message ('': '' @ [CHR 0x27] @ name @ [CHR 0x27] @
            '' exceeds maximum lengths for shm names of '' @ dec_nat name_max))), K)
          else if \<not> open_ok c then Some (O_failed (system_error (mutex_message ('': Failed to open shared memory: '' @ name))), K)
          else if k_names K name \<noteq> None then Some (O_exists, K)
          else (case shm_open_create name K of (i, K1) \<Rightarrow> Some (O_opened True i, K1))
      | O_exists \<Rightarrow>
          (case k_names K name of
             Some i \<Rightarrow>
               if reopen_ok c then Some (O_opened False i, K)
               else Some (O_failed (system_error (mutex_message ('': Failed to open existing shared memory: '' @ name))), K)
           | None \<Rightarrow> Some (O_failed (system_error (mutex_message ('': Failed to open existing shared memory: '' @ name))), K))
      | O_opened is_new i \<Rightarrow>
          if \<not> is_new then Some (O_sized i, K)
          else if truncate_ok c
          then Some (O_sized i, set_bytes i (resize sizeof_pthread_mutex (obj_bytes (k_objects K i))) K)
          else Some (O_failed (system_error (mutex_message ('': Failed to truncate shared memory: '' @ name))), K)
      | O_sized i \<Rightarrow>
          if map_ok c then Some (O_mapped i, K)
          else Some (O_failed (system_error (mutex_message ('': Failed to map shared memory: '' @ name))), K)
      | O_mapped i \<Rightarrow>
          if length (obj_bytes (k_objects K i)) < sizeof_pthread_mutex
          then Some (O_failed (undefined_behaviour out_of_bounds), K)
          else if obj_mutex (k_objects K i) \<noteq> Uninit then Some (O_failed (undefined_behaviour invalid_mutex), K)
          else if init_ok c then Some (O_done i, set_mutex i Unlocked K)
          else Some (O_failed (system_error (mutex_message ('': Failed to initialize mutex: '' @ name))), K)
      | O_done i \<Rightarrow> None
      | O_failed e \<Rightarrow> None)"

section \<open>One constructor alone\<close>

fun opener_alone :: "nat \<Rightarrow> nat \<Rightarrow> sys_choice \<Rightarrow> string \<Rightarrow> opener \<Rightarrow> kernel \<Rightarrow> opener \<times> kernel" where
  "opener_alone 0 name_max c name pc K = (pc, K)"
| "opener_alone (Suc n) name_max c name pc K =
     (case opener_step name_max c name pc K of
        None \<Rightarrow> (pc, K)
      | Some (pc', K') \<Rightarrow> opener_alone n name_max c name pc' K')"

lemma opener_alone_ends [simp]:
  "opener_alone n name_max c name (O_done i) K = (O_done i, K)"
  "opener_alone n name_max c name (O_failed e) K = (O_failed e, K)"
  by (cases n; simp add: opener_step_def)+

section \<open>Any number of constructors\<close>

record openings =
  op_kernel :: kernel
  op_pcs :: "opener list"

definition openings_start :: "kernel \<Rightarrow> nat \<Rightarrow> openings" where
  "openings_start K n = \<lparr>op_kernel = K, op_pcs = replicate n O_start\<rparr>"

definition openings_step :: "nat \<Rightarrow> (nat \<Rightarrow> sys_choice) \<Rightarrow> string \<Rightarrow> nat \<Rightarrow> openings \<Rightarrow> openings option" where
  "openings_step name_max cs name t s =
     (if t < length (op_pcs s) then
        (case opener_step name_max (cs t) name (op_pcs s ! t) (op_kernel s) of
           None \<Rightarrow> None
         | Some (pc, K) \<Rightarrow> Some \<lparr>op_kernel = K, op_pcs = (op_pcs s)[t := pc]\<rparr>)
      else None)"

inductive openings_reachable :: "nat \<Rightarrow> (nat \<Rightarrow> sys_choice) \<Rightarrow> string \<Rightarrow> kernel \<Rightarrow> nat \<Rightarrow> openings \<Rightarrow> bool"
  for name_max cs name K n where
  start: "openings_reachable name_max cs name K n (openings_start K n)"
| step: "openings_reachable name_max cs name K n s \<Longrightarrow> openings_step name_max cs name t s = Some s' \<Longrightarrow>
    openings_reachable name_max cs name K n s'"

fun openings_run :: "nat \<Rightarrow> (nat \<Rightarrow> sys_choice) \<Rightarrow> string \<Rightarrow> nat list \<Rightarrow> openings \<Rightarrow> openings option" where
  "openings_run name_max cs name [] s = Some s"
| "openings_run name_max cs name (t # ts) s =
     (case openings_step name_max cs name t s of None \<Rightarrow> None | Some s' \<Rightarrow> openings_run name_max cs name ts s')"

interpretation opening_steps: step_system "openings_start K n" "openings_step name_max cs name"
    "openings_reachable name_max cs name K n" "openings_run name_max cs name" for name_max cs name K n
  by unfold_locales (auto intro: openings_reachable.intros elim: openings_reachable.induct)

section \<open>At most one returns\<close>

fun object_of :: "opener \<Rightarrow> nat option" where
  "object_of (O_opened b i) = Some i"
| "object_of (O_sized i) = Some i"
| "object_of (O_mapped i) = Some i"
| "object_of (O_done i) = Some i"
| "object_of pc = None"

definition openings_ok :: "string \<Rightarrow> openings \<Rightarrow> bool" where
  "openings_ok name s \<longleftrightarrow> (\<forall>pc\<in>set (op_pcs s). \<forall>i. object_of pc = Some i \<longrightarrow> k_names (op_kernel s) name = Some i) \<and>
     (\<forall>t i. t < length (op_pcs s) \<and> op_pcs s ! t = O_done i \<longrightarrow> obj_mutex (k_objects (op_kernel s) i) \<noteq> Uninit) \<and>
     (\<forall>t u i j. t < length (op_pcs s) \<and> u < length (op_pcs s) \<and> op_pcs s ! t = O_done i \<and> op_pcs s ! u = O_done j \<longrightarrow> t = u)"

text \<open>What a step of a constructor does to the name, the mutexes and its own position.\<close>

lemma opener_step_effect:
  assumes "opener_step name_max c name pc K = Some (pc', K')" and "\<And>i. object_of pc = Some i \<Longrightarrow> k_names K name = Some i"
  shows "object_of pc' = Some i \<Longrightarrow> k_names K' name = Some i"
    and "k_names K name = Some i \<Longrightarrow> k_names K' name = Some i"
    and "k_names K name = Some i \<Longrightarrow> obj_mutex (k_objects K i) \<noteq> Uninit \<Longrightarrow> obj_mutex (k_objects K' i) \<noteq> Uninit"
    and "pc' = O_done i \<Longrightarrow> k_names K name = Some i \<and> obj_mutex (k_objects K i) = Uninit \<and> obj_mutex (k_objects K' i) \<noteq> Uninit"
    and "pc \<noteq> O_done i"
  using assms
  by (cases pc; auto simp: opener_step_def shm_open_create_def split: if_splits option.splits)+

lemma openings_ok_step:
  assumes ok: "openings_ok name s" and step: "openings_step name_max cs name t s = Some s'"
  shows "openings_ok name s'"
proof -
  obtain pc' K' where t: "t < length (op_pcs s)"
    and op: "opener_step name_max (cs t) name (op_pcs s ! t) (op_kernel s) = Some (pc', K')"
    and s': "s' = \<lparr>op_kernel = K', op_pcs = (op_pcs s)[t := pc']\<rparr>"
    using step by (auto simp: openings_step_def split: if_splits option.splits)
  have objs: "k_names (op_kernel s) name = Some i" if "u < length (op_pcs s)" "object_of (op_pcs s ! u) = Some i" for u i
    using ok that by (auto simp: openings_ok_def)
  note eff = opener_step_effect [OF op objs [OF t]]
  have named: "k_names K' name = Some i" if pc: "pc \<in> set (op_pcs s')" "object_of pc = Some i" for pc i
  proof -
    obtain u where "u < length (op_pcs s)" "pc = (op_pcs s)[t := pc'] ! u"
      using pc(1) s' by (auto simp: in_set_conv_nth)
    then show ?thesis
      using pc(2) eff(1,2) objs by (cases "u = t") auto
  qed
  have init: "obj_mutex (k_objects K' i) \<noteq> Uninit" if "u < length (op_pcs s')" "op_pcs s' ! u = O_done i" for u i
    using that eff(3,4) objs [of u i] ok s' by (cases "u = t") (auto simp: openings_ok_def nth_list_update)
  have fresh: False if "u < length (op_pcs s)" "op_pcs s ! u = O_done i" "pc' = O_done j" for u i j
    using that eff(4) objs [of u i] ok by (auto simp: openings_ok_def)
  have "u = v" if "u < length (op_pcs s')" "v < length (op_pcs s')" "op_pcs s' ! u = O_done i" "op_pcs s' ! v = O_done j" for u v i j
    using that fresh ok s' by (cases "u = t"; cases "v = t") (auto simp: openings_ok_def)
  then show ?thesis
    using named init s' by (auto simp: openings_ok_def)
qed

lemma openings_ok_start: "openings_ok name (openings_start K n)"
  by (auto simp: openings_ok_def openings_start_def)

lemma openings_ok_reachable: "openings_reachable name_max cs name K n s \<Longrightarrow> openings_ok name s"
  by (induction rule: openings_reachable.induct) (auto simp: openings_ok_start intro: openings_ok_step)

text \<open>With system calls that succeed, a constructor fails only by undefined behaviour.\<close>

definition all_succeed :: "sys_choice \<Rightarrow> bool" where
  "all_succeed c \<longleftrightarrow> open_ok c \<and> reopen_ok c \<and> truncate_ok c \<and> map_ok c \<and> init_ok c"

fun sound_pc :: "kernel \<Rightarrow> string \<Rightarrow> opener \<Rightarrow> bool" where
  "sound_pc K name O_exists \<longleftrightarrow> k_names K name \<noteq> None"
| "sound_pc K name (O_failed e) \<longleftrightarrow> (\<exists>u. e = undefined_behaviour u)"
| "sound_pc K name pc \<longleftrightarrow> True"

lemma opener_step_sound:
  assumes "opener_step name_max c name pc K = Some (pc', K')" and "all_succeed c" and "length name \<le> name_max"
    and "sound_pc K name pc"
  shows "sound_pc K' name pc'" and "k_names K name \<noteq> None \<Longrightarrow> k_names K' name \<noteq> None"
  using assms
  by (cases pc; auto simp: opener_step_def all_succeed_def shm_open_create_def split: if_splits option.splits)+

lemma sound_pc_names: "sound_pc K name pc \<Longrightarrow> (k_names K name \<noteq> None \<Longrightarrow> k_names K' name \<noteq> None) \<Longrightarrow> sound_pc K' name pc"
  by (cases pc) auto

lemma openings_sound:
  assumes "openings_reachable name_max cs name K n s" and "\<And>t. all_succeed (cs t)" and "length name \<le> name_max"
  shows "\<forall>pc\<in>set (op_pcs s). sound_pc (op_kernel s) name pc"
  using assms(1)
proof (induction rule: openings_reachable.induct)
  case start
  then show ?case
    by (simp add: openings_start_def)
next
  case (step s t s')
  obtain pc' K' where t: "t < length (op_pcs s)"
    and op: "opener_step name_max (cs t) name (op_pcs s ! t) (op_kernel s) = Some (pc', K')"
    and s': "s' = \<lparr>op_kernel = K', op_pcs = (op_pcs s)[t := pc']\<rparr>"
    using step.hyps(2) by (auto simp: openings_step_def split: if_splits option.splits)
  note sound = opener_step_sound [OF op assms(2,3), of]
  have "sound_pc (op_kernel s) name (op_pcs s ! t)"
    using step.IH t by simp
  then have "sound_pc K' name pc'" and "\<And>pc. sound_pc (op_kernel s) name pc \<Longrightarrow> sound_pc K' name pc"
    using sound sound_pc_names by blast+
  then show ?case
    using step.IH s' set_update_subset_insert [of "op_pcs s" t pc'] by auto
qed

lemma openings_length: "openings_reachable name_max cs name K n s \<Longrightarrow> length (op_pcs s) = n"
  by (induction rule: openings_reachable.induct)
    (auto simp: openings_start_def openings_step_def split: if_splits option.splits)

section \<open>What the constructors do alone and together\<close>

lemma opener_alone_refines:
  "opener_alone 5 name_max c name O_start K =
     (case named_recursive_mutex_ctor name_max c name K of (Inl e, K') \<Rightarrow> (O_failed e, K') | (Inr i, K') \<Rightarrow> (O_done i, K'))"
  by (cases "k_names K name"; cases "length name > name_max"; cases "open_ok c"; cases "reopen_ok c"; cases "truncate_ok c";
      cases "map_ok c"; cases "init_ok c")
    (simp_all add: numeral_eq_Suc opener_step_def named_recursive_mutex_ctor_def mutex_open_def shm_open_create_def Let_def)

definition ended :: "opener \<Rightarrow> bool" where
  "ended pc \<longleftrightarrow> (case pc of O_done _ \<Rightarrow> True | O_failed _ \<Rightarrow> True | _ \<Rightarrow> False)"

text \<open>C34. Opening a name from two threads or processes. However the system calls of the constructors interleave, and although
  all of them succeed, of two constructors of the same name that have ended one has run into undefined behaviour: it initialized
  a mutex that was initialized, or touched the object before its maker had given it a size.\<close>

theorem concurrent_openings_undefined:
  assumes "openings_reachable name_max cs name K n s" and "\<And>t. all_succeed (cs t)" and "length name \<le> name_max"
    and "t < n" and "u < n" and "t \<noteq> u" and "ended (op_pcs s ! t)" and "ended (op_pcs s ! u)"
  shows "\<exists>v\<in>{t, u}. \<exists>e. op_pcs s ! v = O_failed (undefined_behaviour e)"
proof -
  have "\<not> (\<exists>i j. op_pcs s ! t = O_done i \<and> op_pcs s ! u = O_done j)"
    using openings_ok_reachable [OF assms(1)] openings_length [OF assms(1)] assms(4-6) unfolding openings_ok_def by blast
  moreover have "sound_pc (op_kernel s) name (op_pcs s ! v)" if "v < n" for v
    using openings_sound [OF assms(1-3)] openings_length [OF assms(1)] that by simp
  from this [OF assms(4)] this [OF assms(5)]
  have "op_pcs s ! v = O_failed e \<Longrightarrow> \<exists>u. e = undefined_behaviour u" if "v \<in> {t, u}" for v e
    using that by auto
  ultimately show ?thesis
    using assms(7,8) by (auto simp: ended_def split: opener.splits)
qed

text \<open>The second opens the object that the first has made and maps it before the first gives it its size.\<close>

definition demo_race :: openings where
  "demo_race = the (openings_run 255 (\<lambda>_. demo_choice) ''m'' [0, 1, 1, 1, 1, 1, 0, 0, 0] (openings_start demo_kernel 2))"

lemma demo_race_run:
  "openings_run 255 (\<lambda>_. demo_choice) ''m'' [0, 1, 1, 1, 1, 1, 0, 0, 0] (openings_start demo_kernel 2) = Some demo_race"
proof -
  have "\<not> Option.is_none (openings_run 255 (\<lambda>_. demo_choice) ''m'' [0, 1, 1, 1, 1, 1, 0, 0, 0] (openings_start demo_kernel 2))"
    by code_simp
  then show ?thesis
    by (auto simp: demo_race_def Option.is_none_def)
qed

lemma demo_race_pcs: "op_pcs demo_race = [O_done 0, O_failed (undefined_behaviour out_of_bounds)]"
  by code_simp

theorem concurrent_openings_undefined_witness:
  "op_pcs demo_race = [O_done 0, O_failed (undefined_behaviour out_of_bounds)] \<and>
   (\<exists>v\<in>{0, 1}. \<exists>e. op_pcs demo_race ! v = O_failed (undefined_behaviour e))"
  using concurrent_openings_undefined [OF opening_steps.run_start [OF demo_race_run], of 0 1] demo_race_pcs
  by (simp add: all_succeed_def demo_choice_def ended_def)

end
