(* ===== verification/Wide_String.thy ===== *)
theory Wide_String
  imports Xpod Utf8
begin

text \<open>
  The rest of \<^verbatim>\<open>convert/string.hpp\<close>: wide strings, integers from text, time points.

  A \<open>std::wstring\<close> is a list of 32-bit elements that hold UTF-16 code units. \<open>from_bytes\<close> and \<open>to_bytes\<close> are
  \<open>std::wstring_convert<std::codecvt_utf8_utf16<wchar_t>>\<close>, with \<open>None\<close> for \<open>std::range_error\<close>. What that library class does
  with input it leaves open is the record \<open>codecvt\<close>: \<open>cut8\<close> and \<open>cut16\<close> say whether a rest that is not well formed is taken
  for a character cut off at the end, which stops the conversion without an error, and \<open>beyond\<close> is the encoding of an element
  that is no 16-bit code unit.

  The reference is the encoding of Unicode scalar values in UTF-8 (\<open>utf8_encode\<close> of \<^verbatim>\<open>Utf8\<close>) and in UTF-16.
\<close>

type_synonym wchar = "32 word"
type_synonym wstring = "wchar list"

record codecvt =
  cut8 :: "bytes \<Rightarrow> bool"
  cut16 :: "wstring \<Rightarrow> bool"
  beyond :: "wchar \<Rightarrow> bytes option"

section \<open>The conversion of the library\<close>

definition scalar :: "nat \<Rightarrow> bool" where
  "scalar n \<longleftrightarrow> n < 0xD800 \<or> 0xE000 \<le> n \<and> n < 0x110000"

definition low6 :: "byte \<Rightarrow> nat" where
  "low6 b = unat b - 0x80"

fun utf8_next :: "bytes \<Rightarrow> (nat \<times> bytes) option" where
  "utf8_next [] = None"
| "utf8_next (a # s) =
     (if a < 0x80 then Some (unat a, s)
      else if 0xC2 \<le> a \<and> a \<le> 0xDF then
        (case s of
           b # r \<Rightarrow> if continuation b then Some ((unat a - 0xC0) * 64 + low6 b, r) else None
         | _ \<Rightarrow> None)
      else if 0xE0 \<le> a \<and> a \<le> 0xEF then
        (case s of
           b # c # r \<Rightarrow>
             (let n = (unat a - 0xE0) * 4096 + low6 b * 64 + low6 c
              in if continuation b \<and> continuation c \<and> 0x800 \<le> n \<and> scalar n then Some (n, r) else None)
         | _ \<Rightarrow> None)
      else if 0xF0 \<le> a \<and> a \<le> 0xF4 then
        (case s of
           b # c # d # r \<Rightarrow>
             (let n = (unat a - 0xF0) * 262144 + low6 b * 4096 + low6 c * 64 + low6 d
              in if continuation b \<and> continuation c \<and> continuation d \<and> 0x10000 \<le> n \<and> scalar n then Some (n, r) else None)
         | _ \<Rightarrow> None)
      else None)"

declare utf8_next.simps(2) [simp del]

lemma utf8_next_length: "utf8_next s = Some (n, r) \<Longrightarrow> length r < length s"
  by (cases s) (auto simp: utf8_next.simps Let_def split: if_splits list.splits)

definition utf16_encode :: "nat \<Rightarrow> wstring" where
  "utf16_encode n =
     (if n < 0x10000 then [of_nat n]
      else [of_nat (0xD800 + (n - 0x10000) div 1024), of_nat (0xDC00 + (n - 0x10000) mod 1024)])"

function from_bytes :: "codecvt \<Rightarrow> bytes \<Rightarrow> wstring option" where
  "from_bytes cv s =
     (if s = [] then Some []
      else (case utf8_next s of
              None \<Rightarrow> if cut8 cv s then Some [] else None
            | Some (n, r) \<Rightarrow> map_option (\<lambda>w. utf16_encode n @ w) (from_bytes cv r)))"
  by auto
termination
  by (relation "measure (length \<circ> snd)") (auto dest: utf8_next_length)

declare from_bytes.simps [simp del]

fun to_bytes :: "codecvt \<Rightarrow> wstring \<Rightarrow> bytes option" where
  "to_bytes cv [] = Some []"
| "to_bytes cv [c] =
     (if unat c < 0x10000 then
        if scalar (unat c) then Some (utf8_encode (unat c))
        else if unat c < 0xDC00 \<and> cut16 cv [c] then Some [] else None
      else beyond cv c)"
| "to_bytes cv (c # d # s) =
     (if unat c < 0x10000 then
        if scalar (unat c) then map_option ((@) (utf8_encode (unat c))) (to_bytes cv (d # s))
        else if unat c < 0xDC00 \<and> 0xDC00 \<le> unat d \<and> unat d < 0xE000 then
          map_option ((@) (utf8_encode (0x10000 + (unat c - 0xD800) * 1024 + (unat d - 0xDC00)))) (to_bytes cv s)
        else None
      else (case beyond cv c of None \<Rightarrow> None | Some bs \<Rightarrow> map_option ((@) bs) (to_bytes cv (d # s))))"

section \<open>The functions of Cbeam\<close>

definition from_string_wstring :: "codecvt \<Rightarrow> bytes \<Rightarrow> wstring" where
  "from_string_wstring cv str =
     (case from_bytes cv str of
        Some w \<Rightarrow> w
      | None \<Rightarrow> map (\<lambda>c. ucast c) str)"

definition wchar_bytes :: "wchar \<Rightarrow> bytes" where
  "wchar_bytes c =
     (if drop_bit 8 c \<noteq> 0 then [ucast (drop_bit 8 c)] else []) @
     (if c AND 0xff \<noteq> 0 then [ucast (c AND 0xff)] else [])"

definition wstring_to_string :: "codecvt \<Rightarrow> wstring \<Rightarrow> bytes" where
  "wstring_to_string cv str =
     (case to_bytes cv str of
        Some s \<Rightarrow> s
      | None \<Rightarrow> concat (map wchar_bytes str))"

definition to_wstring :: "codecvt \<Rightarrow> ('a \<Rightarrow> bytes) \<Rightarrow> 'a \<Rightarrow> wstring" where
  "to_wstring cv to_string value = from_string_wstring cv (to_string value)"

section \<open>The two encodings\<close>

lemma unat_byte: "k < 256 \<Longrightarrow> unat (of_nat k :: byte) = k"
  by (simp add: unat_of_nat)

lemma continuation_iff: "continuation b \<longleftrightarrow> 0x80 \<le> unat b \<and> unat b < 0xC0"
  by (simp add: continuation_def word_le_nat_alt word_less_nat_alt)

lemma byte_le_iff: "(a :: byte) \<le> b \<longleftrightarrow> unat a \<le> unat b" "(a :: byte) < b \<longleftrightarrow> unat a < unat b"
  by (simp_all add: word_le_nat_alt word_less_nat_alt)

text \<open>The decoder on sequences of two to four bytes, by the values of their payload bits.\<close>

lemma utf8_next_two:
  assumes "unat a = 0xC0 + x" "unat b = 0x80 + y" "2 \<le> x" "x < 32" "y < 64"
  shows "utf8_next (a # b # r) = Some (x * 64 + y, r)"
  using assms by (simp add: utf8_next.simps byte_le_iff continuation_iff low6_def)

lemma utf8_next_three:
  assumes "unat a = 0xE0 + x" "unat b = 0x80 + y" "unat c = 0x80 + z" "x < 16" "y < 64" "z < 64"
    and "n = x * 4096 + y * 64 + z"
  shows "utf8_next (a # b # c # r) = (if 0x800 \<le> n \<and> scalar n then Some (n, r) else None)"
  using assms by (simp add: utf8_next.simps byte_le_iff continuation_iff low6_def Let_def)

lemma utf8_next_four:
  assumes "unat a = 0xF0 + x" "unat b = 0x80 + y" "unat c = 0x80 + z" "unat d = 0x80 + u" "x < 5" "y < 64" "z < 64" "u < 64"
    and "n = x * 262144 + y * 4096 + z * 64 + u"
  shows "utf8_next (a # b # c # d # r) = (if 0x10000 \<le> n \<and> scalar n then Some (n, r) else None)"
  using assms by (simp add: utf8_next.simps byte_le_iff continuation_iff low6_def Let_def)

lemma div_4096: "n div 4096 = n div 64 div (64 :: nat)" and div_262144: "n div 262144 = n div 64 div 64 div (64 :: nat)"
  by (simp_all add: div_mult2_eq [symmetric])

lemma split_64: "(n :: nat) = n div 64 * 64 + n mod 64"
  by (rule div_mult_mod_eq [symmetric])

lemma split_three: "(n :: nat) = n div 4096 * 4096 + n div 64 mod 64 * 64 + n mod 64"
proof -
  have *: "(q * 64 + y) * 64 + z = q * 4096 + y * 64 + z" for q y z :: nat by simp
  show ?thesis
    using split_64 [of n] split_64 [of "n div 64"] * unfolding div_4096 by metis
qed

lemma split_four: "(n :: nat) = n div 262144 * 262144 + n div 4096 mod 64 * 4096 + n div 64 mod 64 * 64 + n mod 64"
proof -
  have *: "((x * 64 + y) * 64 + z) * 64 + u = x * 262144 + y * 4096 + z * 64 + u" for x y z u :: nat by simp
  show ?thesis
    using split_64 [of n] split_64 [of "n div 64"] split_64 [of "n div 64 div 64"] *
    unfolding div_262144 div_4096 by metis
qed

lemma digits_64: "z < 64 \<Longrightarrow> (m * 64 + z) div 64 = (m :: nat)" "z < 64 \<Longrightarrow> (m * 64 + z) mod 64 = (z :: nat)"
  by simp_all

lemma utf8_next_encode:
  assumes "scalar n"
  shows "utf8_next (utf8_encode n @ r) = Some (n, r)"
proof -
  consider "n < 0x80" | "0x80 \<le> n" "n < 0x800" | "0x800 \<le> n" "n < 0x10000" | "0x10000 \<le> n" "n < 0x110000"
    using assms by (force simp: scalar_def)
  then show ?thesis
  proof cases
    case 1
    then show ?thesis
      by (simp add: utf8_encode_def utf8_next.simps byte_le_iff unat_byte)
  next
    case 2
    then have "2 \<le> n div 64" "n div 64 < 32" by auto
    with 2 utf8_next_two [OF unat_byte unat_byte, of "n div 64" "n mod 64" r] show ?thesis
      by (simp add: utf8_encode_def)
  next
    case 3
    then have "n div 4096 < 16" by auto
    with 3 assms utf8_next_three [OF unat_byte unat_byte unat_byte _ _ _ split_three, of n r] show ?thesis
      by (simp add: utf8_encode_def)
  next
    case 4
    then have "n div 262144 < 5" by auto
    with 4 assms utf8_next_four [OF unat_byte unat_byte unat_byte unat_byte _ _ _ _ split_four, of n r] show ?thesis
      by (simp add: utf8_encode_def)
  qed
qed

lemma byte_eq: "unat b = k \<Longrightarrow> (of_nat k :: byte) = b"
  by auto

lemma continuation_payload:
  assumes "continuation b"
  obtains y where "unat b = 0x80 + y" and "y < 64"
  using assms that [of "unat b - 0x80"] by (auto simp: continuation_iff)

lemma lead_payload:
  assumes "k \<le> unat (a :: byte)" and "unat a < k + m"
  obtains x where "unat a = k + x" and "x < m"
  using assms that [of "unat a - k"] by auto

text \<open>A sequence that the decoder takes is the encoding of the scalar value it gives.\<close>

lemma encode_two:
  assumes "unat a = 0xC0 + x" "unat b = 0x80 + y" "2 \<le> x" "x < 32" "y < 64"
  shows "utf8_encode (x * 64 + y) = [a, b]"
  using assms byte_eq [OF assms(1)] byte_eq [OF assms(2)] by (simp add: utf8_encode_def)

lemma encode_three:
  assumes "unat a = 0xE0 + x" "unat b = 0x80 + y" "unat c = 0x80 + z" "x < 16" "y < 64" "z < 64"
    and "n = x * 4096 + y * 64 + z" "0x800 \<le> n"
  shows "utf8_encode n = [a, b, c]"
proof -
  have n: "n = (x * 64 + y) * 64 + z"
    using assms(7) by simp
  have "n div 4096 = x" "n div 64 mod 64 = y" "n mod 64 = z"
    unfolding n div_4096 by (simp_all only: digits_64 assms(4-6))
  moreover have "n < 0x10000"
    using assms(4-7) by linarith
  ultimately show ?thesis
    using assms(8) byte_eq [OF assms(1)] byte_eq [OF assms(2)] byte_eq [OF assms(3)] by (simp add: utf8_encode_def)
qed

lemma encode_four:
  assumes "unat a = 0xF0 + x" "unat b = 0x80 + y" "unat c = 0x80 + z" "unat d = 0x80 + u" "y < 64" "z < 64" "u < 64"
    and "n = x * 262144 + y * 4096 + z * 64 + u" "0x10000 \<le> n"
  shows "utf8_encode n = [a, b, c, d]"
proof -
  have n: "n = ((x * 64 + y) * 64 + z) * 64 + u"
    using assms(8) by simp
  have "n div 262144 = x" "n div 4096 mod 64 = y" "n div 64 mod 64 = z" "n mod 64 = u"
    unfolding n div_262144 div_4096 by (simp_all only: digits_64 assms(5-7))
  then show ?thesis
    using assms(9) byte_eq [OF assms(1)] byte_eq [OF assms(2)] byte_eq [OF assms(3)] byte_eq [OF assms(4)]
    by (simp add: utf8_encode_def)
qed

lemma utf8_next_sound:
  assumes "utf8_next s = Some (n, r)"
  shows "scalar n \<and> s = utf8_encode n @ r"
proof -
  obtain a t where s: "s = a # t"
    using assms by (cases s) auto
  note next_a = assms [unfolded s utf8_next.simps byte_le_iff]
  consider "unat a < 0x80" "n = unat a" "r = t"
    | b where "t = b # r" "0xC2 \<le> unat a" "unat a \<le> 0xDF" "continuation b"
    | b c where "t = b # c # r" "0xE0 \<le> unat a" "unat a \<le> 0xEF" "continuation b" "continuation c"
    | b c d where "t = b # c # d # r" "0xF0 \<le> unat a" "unat a \<le> 0xF4" "continuation b" "continuation c" "continuation d"
    using next_a by (auto simp: Let_def split: if_splits list.splits)
  then show ?thesis
  proof cases
    case 1
    then show ?thesis
      using byte_eq [of a n] by (simp add: s scalar_def utf8_encode_def)
  next
    case (2 b)
    then obtain x where x: "unat a = 0xC0 + x" "2 \<le> x" "x < 32"
      using lead_payload [of "0xC0" a 32] by auto
    obtain y where y: "unat b = 0x80 + y" "y < 64"
      using 2(4) by (rule continuation_payload)
    show ?thesis
      using assms utf8_next_two [OF x(1) y(1) x(2,3) y(2)] encode_two [OF x(1) y(1) x(2,3) y(2)] x y 2(1)
      by (simp add: s scalar_def)
  next
    case (3 b c)
    then obtain x where x: "unat a = 0xE0 + x" "x < 16"
      using lead_payload [of "0xE0" a 16] by auto
    obtain y where y: "unat b = 0x80 + y" "y < 64"
      using 3(4) by (rule continuation_payload)
    obtain z where z: "unat c = 0x80 + z" "z < 64"
      using 3(5) by (rule continuation_payload)
    show ?thesis
      using assms utf8_next_three [OF x(1) y(1) z(1) x(2) y(2) z(2) refl]
        encode_three [OF x(1) y(1) z(1) x(2) y(2) z(2) refl] 3(1)
      by (auto simp: s split: if_splits)
  next
    case (4 b c d)
    then obtain x where x: "unat a = 0xF0 + x" "x < 5"
      using lead_payload [of "0xF0" a 5] by auto
    obtain y where y: "unat b = 0x80 + y" "y < 64"
      using 4(4) by (rule continuation_payload)
    obtain z where z: "unat c = 0x80 + z" "z < 64"
      using 4(5) by (rule continuation_payload)
    obtain u where u: "unat d = 0x80 + u" "u < 64"
      using 4(6) by (rule continuation_payload)
    show ?thesis
      using assms utf8_next_four [OF x(1) y(1) z(1) u(1) x(2) y(2) z(2) u(2) refl]
        encode_four [OF x(1) y(1) z(1) u(1) y(2) z(2) u(2) refl] 4(1)
      by (auto simp: s split: if_splits)
  qed
qed

section \<open>Well-formed text\<close>

definition utf8_text :: "nat list \<Rightarrow> bytes" where
  "utf8_text code_points = concat (map utf8_encode code_points)"

definition utf16_text :: "nat list \<Rightarrow> wstring" where
  "utf16_text code_points = concat (map utf16_encode code_points)"

definition well_formed :: "bytes \<Rightarrow> bool" where
  "well_formed s \<longleftrightarrow> (\<exists>code_points. list_all scalar code_points \<and> s = utf8_text code_points)"

lemma text_simps [simp]:
  "utf8_text [] = []" "utf8_text (n # ns) = utf8_encode n @ utf8_text ns"
  "utf16_text [] = []" "utf16_text (n # ns) = utf16_encode n @ utf16_text ns"
  by (simp_all add: utf8_text_def utf16_text_def)

lemma utf8_encode_not_Nil [simp]: "utf8_encode n \<noteq> []"
  by (simp add: utf8_encode_def)

lemma from_bytes_text: "list_all scalar ns \<Longrightarrow> from_bytes cv (utf8_text ns) = Some (utf16_text ns)"
  by (induction ns) (simp_all add: from_bytes.simps utf8_next_encode)

lemma unat_wchar: "k < 0x110000 \<Longrightarrow> unat (of_nat k :: wchar) = k"
  by (simp add: unat_of_nat)

lemma to_bytes_encode:
  assumes "scalar n"
  shows "to_bytes cv (utf16_encode n @ w) = map_option ((@) (utf8_encode n)) (to_bytes cv w)"
proof (cases "n < 0x10000")
  case True
  with assms show ?thesis
    by (cases w) (simp_all add: utf16_encode_def unat_wchar)
next
  case False
  with assms have n: "n < 0x110000" by (simp add: scalar_def)
  have d: "(n - 0x10000) div 1024 < 1024" "(n - 0x10000) mod 1024 < 1024"
    using n by auto
  have "unat (of_nat (0xD800 + (n - 0x10000) div 1024) :: wchar) = 0xD800 + (n - 0x10000) div 1024"
    "unat (of_nat (0xDC00 + (n - 0x10000) mod 1024) :: wchar) = 0xDC00 + (n - 0x10000) mod 1024"
    by (rule unat_wchar, use d in linarith)+
  moreover have "0x10000 + (n - 0x10000) div 1024 * 1024 + (n - 0x10000) mod 1024 = n"
    using False by (simp add: add.assoc)
  ultimately show ?thesis
    using False d by (simp add: utf16_encode_def scalar_def del: of_nat_add)
qed

lemma to_bytes_text: "list_all scalar ns \<Longrightarrow> to_bytes cv (utf16_text ns) = Some (utf8_text ns)"
  by (induction ns) (simp_all add: to_bytes_encode)

text \<open>A library that reports every error converts nothing else.\<close>

lemma from_bytes_well_formed:
  assumes "from_bytes cv s = Some w" and "\<And>s. \<not> cut8 cv s"
  shows "well_formed s"
  using assms(1)
proof (induction "length s" arbitrary: s w rule: less_induct)
  case less
  show ?case
  proof (cases "s = []")
    case True
    then show ?thesis by (auto simp: well_formed_def intro: exI [of _ "[]"])
  next
    case False
    with less.prems assms(2) obtain n r w' where n: "utf8_next s = Some (n, r)" and w': "from_bytes cv r = Some w'"
      unfolding from_bytes.simps [of cv s] by (auto split: option.splits)
    from less.hyps [OF utf8_next_length [OF n] w'] obtain ns where "list_all scalar ns" "r = utf8_text ns"
      by (auto simp: well_formed_def)
    with utf8_next_sound [OF n] show ?thesis
      by (auto simp: well_formed_def intro: exI [of _ "n # ns"])
  qed
qed

text \<open>The element-wise conversion and back: every byte from \<open>0x80\<close> on becomes two.\<close>

lemma to_bytes_elements: "to_bytes cv (map (\<lambda>c. ucast c) (s :: bytes)) = Some (utf8_text (map unat s))"
proof (induction s)
  case (Cons c s)
  have "unat (ucast c :: wchar) = unat c"
    using byte_less [of c] by (simp add: unsigned_ucast_eq take_bit_nat_eq_self)
  then show ?case
    using Cons byte_less [of c] by (cases s) (simp_all add: scalar_def)
qed simp

lemma length_utf8_elements:
  "length s \<le> length (utf8_text (map unat (s :: bytes)))"
  "length (utf8_text (map unat s)) = length s \<Longrightarrow> list_all (\<lambda>c. c < 0x80) s"
proof -
  have one: "length (utf8_encode (unat c)) = (if c < 0x80 then 1 else 2)" for c :: byte
    using byte_less [of c] by (simp add: utf8_encode_def byte_le_iff)
  show le: "length s \<le> length (utf8_text (map unat s))" for s :: bytes
    by (induction s) (auto simp: one)
  show "length (utf8_text (map unat s)) = length s \<Longrightarrow> list_all (\<lambda>c. c < 0x80) s"
  proof (induction s)
    case (Cons c s)
    with le [of s] show ?case
      by (simp add: one split: if_splits)
  qed simp
qed

lemma ascii_well_formed: "list_all (\<lambda>c. c < 0x80) s \<Longrightarrow> well_formed s"
proof -
  assume ascii: "list_all (\<lambda>c. c < 0x80) s"
  then have "s = utf8_text (map unat s)" and "list_all scalar (map unat s)"
    by (induction s) (simp_all add: utf8_encode_def scalar_def byte_le_iff)
  then show ?thesis by (auto simp: well_formed_def)
qed

section \<open>Integers from text\<close>

text \<open>Extraction of an integer in base ten. When no character is left the variable keeps its indeterminate value; with no
  digit the result is zero; outside the range of the type it is the nearest bound. \<open>tail\<close> is what the library stores
  when the digits are followed by a character it collects but does not convert (a hexadecimal digit, \<open>x\<close> or a sign).\<close>

definition is_digit :: "char \<Rightarrow> bool" where
  "is_digit c \<longleftrightarrow> of_char c \<in> {48..57::nat}"

fun dec_prefix :: "string \<Rightarrow> nat \<Rightarrow> nat" where
  "dec_prefix [] acc = acc"
| "dec_prefix (c # s) acc = (if is_digit c then dec_prefix s (10 * acc + (of_char c - 48)) else acc)"

definition collected :: "char \<Rightarrow> bool" where
  "collected c \<longleftrightarrow> hex_value c \<noteq> None \<or> c \<in> {CHR ''x'', CHR ''X'', CHR ''+'', CHR ''-''}"

definition int_from_string :: "(string \<Rightarrow> int) \<Rightarrow> string \<Rightarrow> int result" where
  "int_from_string tail s =
     (let t = dropWhile is_space s; (neg, u) = skip_sign t; rest = dropWhile is_digit u; n = int (dec_prefix u 0)
      in if t = [] then Inl (undefined_behaviour invalid_value)
         else if rest \<noteq> [] \<and> collected (hd rest) then Inr (tail t)
         else Inr (max (- (2 ^ 31)) (min (2 ^ 31 - 1) (if neg then - n else n))))"

section \<open>Time points\<close>

text \<open>\<open>duration_cast\<close> rounds towards zero.\<close>

definition duration_cast :: "int \<Rightarrow> int \<Rightarrow> int" where
  "duration_cast ticks t = (if t < 0 then - (- t div ticks) else t div ticks)"

definition pad3 :: "string \<Rightarrow> string" where
  "pad3 s = replicate (3 - length s) (CHR ''0'') @ s"

text \<open>\<open>t\<close> counts nanoseconds since the epoch. \<open>to_time_t\<close> is the clock's; \<open>date\<close> is the text that \<open>localtime\<close> and \<open>strftime\<close>
  make, or \<open>None\<close> when \<open>localtime\<close> returns a null pointer, which \<open>strftime\<close> dereferences.\<close>

definition time_to_string :: "(int \<Rightarrow> int) \<Rightarrow> (int \<Rightarrow> string option) \<Rightarrow> int \<Rightarrow> string result" where
  "time_to_string to_time_t date t =
     (case date (to_time_t t) of
        None \<Rightarrow> Inl (undefined_behaviour null_dereference)
      | Some sRep \<Rightarrow>
          (let ms = duration_cast 1000000 (t - duration_cast 1000000000 t * 1000000000)
           in Inr (sRep @ ''.'' @ pad3 (dec_int ms))))"

lemma dec_prefix_append: "list_all is_digit s \<Longrightarrow> dec_prefix (s @ t) acc = dec_prefix t (dec_prefix s acc)"
  by (induction s arbitrary: acc) simp_all

lemma digit_char: "k < 10 \<Longrightarrow> is_digit (char_of (48 + k)) \<and> of_char (char_of (48 + k) :: char) = (48 + k :: nat)" for k :: nat
  by (simp add: is_digit_def of_char_of)

lemma dec_nat_digits: "list_all is_digit (dec_nat n)"
proof (induction n rule: dec_nat.induct)
  case (1 n)
  have "n mod 10 < 10" by simp
  with 1 digit_char [of n] digit_char [of "n mod 10"] show ?case
    by (subst dec_nat.simps) auto
qed

lemma dec_prefix_dec_nat: "dec_prefix (dec_nat n) 0 = n"
proof (induction n rule: dec_nat.induct)
  case (1 n)
  show ?case
  proof (cases "n < 10")
    case True
    then show ?thesis
      using digit_char [of n] by (subst dec_nat.simps) simp
  next
    case False
    then show ?thesis
      using 1 digit_char [of "n mod 10"] dec_prefix_append [OF dec_nat_digits, of "n div 10"]
      by (subst dec_nat.simps) simp
  qed
qed

lemma digits_no_rest: "list_all is_digit s \<Longrightarrow> dropWhile is_digit s = []"
  by (simp add: list_all_iff)

lemma digit_not_special: "is_digit c \<Longrightarrow> \<not> is_space c \<and> c \<noteq> CHR ''-'' \<and> c \<noteq> CHR ''+''"
  by (auto simp: is_digit_def is_space_def)

lemma int_from_string_all:
  assumes "dropWhile is_space s = t" "t \<noteq> []" "skip_sign t = (neg, u)" "dropWhile is_digit u = []" "dec_prefix u 0 = n"
  shows "int_from_string tail s = Inr (max (- (2 ^ 31)) (min (2 ^ 31 - 1) (if neg then - int n else int n)))"
  using assms by (simp add: int_from_string_def Let_def)

lemma int_from_string_dec_int:
  assumes "- (2 ^ 31) \<le> i" and "i < 2 ^ 31"
  shows "int_from_string tail (dec_int i) = Inr i"
proof -
  obtain c s where cs: "dec_nat (nat \<bar>i\<bar>) = c # s"
    using dec_nat_first by blast
  then have "is_digit c"
    using dec_nat_digits [of "nat \<bar>i\<bar>"] by simp
  note c = digit_not_special [OF this]
  have rest: "dropWhile is_digit (c # s) = []" and num: "dec_prefix (c # s) 0 = nat \<bar>i\<bar>"
    using digits_no_rest [OF dec_nat_digits, of "nat \<bar>i\<bar>"] dec_prefix_dec_nat [of "nat \<bar>i\<bar>"] by (simp_all only: cs)
  show ?thesis
  proof (cases "i < 0")
    case True
    then have "dec_int i = CHR ''-'' # c # s"
      using cs by (simp add: dec_int_def)
    moreover have "int_from_string tail (CHR ''-'' # c # s) = Inr (max (- (2 ^ 31)) (min (2 ^ 31 - 1) (- int (nat \<bar>i\<bar>))))"
      using int_from_string_all [OF _ _ _ rest num, of "CHR ''-'' # c # s" "CHR ''-'' # c # s" True tail]
      by (simp add: is_space_def)
    ultimately show ?thesis
      using True assms by simp
  next
    case False
    then have "dec_int i = c # s"
      using cs by (simp add: dec_int_def)
    moreover have "int_from_string tail (c # s) = Inr (max (- (2 ^ 31)) (min (2 ^ 31 - 1) (int (nat \<bar>i\<bar>))))"
      using int_from_string_all [OF _ _ _ rest num, of "c # s" "c # s" False tail] c by simp
    ultimately show ?thesis
      using False assms by simp
  qed
qed

lemma dec_nat_small: "n < 1000 \<Longrightarrow> length (dec_nat n) \<le> 3"
  by (subst dec_nat.simps, subst dec_nat.simps, subst dec_nat.simps) auto

lemma dec_prefix_zeros: "dec_prefix (replicate k (CHR ''0'') @ s) 0 = dec_prefix s 0"
  by (induction k) (simp_all add: is_digit_def)

lemma pad3_dec_nat:
  assumes "n < 1000"
  shows "length (pad3 (dec_nat n)) = 3 \<and> list_all is_digit (pad3 (dec_nat n)) \<and> dec_prefix (pad3 (dec_nat n)) 0 = n"
proof -
  have "list_all is_digit (pad3 (dec_nat n))"
    using dec_nat_digits [of n] by (auto simp: pad3_def is_digit_def list_all_iff)
  then show ?thesis
    using dec_nat_small [OF assms] by (simp add: pad3_def dec_prefix_zeros dec_prefix_dec_nat)
qed

text \<open>From the epoch on the text is the date, a dot, and exactly three digits that are the milliseconds within the second.\<close>

lemma time_text:
  assumes "0 \<le> t" and "date (to_time_t t) = Some sRep"
  shows "\<exists>ms. time_to_string to_time_t date t = Inr (sRep @ ''.'' @ ms) \<and> length ms = 3 \<and> list_all is_digit ms \<and>
    dec_prefix ms 0 = nat (t div 1000000 mod 1000)"
proof -
  let ?n = "nat (t div 1000000 mod 1000)"
  have "t - t div 1000000000 * 1000000000 = t mod 1000000000"
    by (simp add: minus_div_mult_eq_mod)
  moreover have "t mod 1000000000 div 1000000 = t div 1000000 mod 1000"
    using zmod_zmult2_eq [of 1000 t 1000000] by simp
  moreover have "\<not> t mod 1000000000 < 0" "\<not> t div 1000000 mod 1000 < 0"
    by (simp_all add: not_less)
  ultimately have "time_to_string to_time_t date t = Inr (sRep @ ''.'' @ pad3 (dec_nat ?n))"
    using assms by (simp add: time_to_string_def duration_cast_def dec_int_def Let_def)
  moreover have "?n < 1000"
    using pos_mod_bound [of 1000 "t div 1000000"] by linarith
  ultimately show ?thesis
    using pad3_dec_nat by metis
qed

section \<open>Properties\<close>


definition strict_codecvt :: codecvt where
  "strict_codecvt = \<lparr>cut8 = (\<lambda>_. False), cut16 = (\<lambda>_. False), beyond = (\<lambda>_. None)\<rparr>"


text \<open>The element-wise conversion of a wide string that is not UTF-16 drops every zero byte and does not tell two elements from
  one.\<close>

lemma fallback_loses:
  "wstring_to_string strict_codecvt [0xD800, 0] = [0xD8]"
  "wstring_to_string strict_codecvt [0xD841] = [0xD8, 0x41]"
  "wstring_to_string strict_codecvt [0xD800, 0x41] = [0xD8, 0x41]"
  by (simp_all add: wstring_to_string_def strict_codecvt_def wchar_bytes_def scalar_def)

text \<open>Integers. Every \<open>int\<close> that is printed is read back as the same value; text without a character to read leaves the
  result uninitialised.\<close>

lemma int_string_roundtrip:
  "(- (2 ^ 31) \<le> i \<and> i < 2 ^ 31 \<longrightarrow> int_from_string tail (dec_int i) = Inr i) \<and>
   (list_all is_space s \<longrightarrow> int_from_string tail s = Inl (undefined_behaviour invalid_value))"
  by (simp add: int_from_string_dec_int) (simp add: int_from_string_def list_all_iff Let_def split: prod.split)

lemma int_string_roundtrip_witness:
  "int_from_string (\<lambda>_. 0) (dec_int (-123)) = Inr (-123) \<and>
   int_from_string (\<lambda>_. 0) '' '' = Inl (undefined_behaviour invalid_value)"
  using int_string_roundtrip [of "-123" "\<lambda>_. 0" "'' ''"] by (simp add: is_space_def)

text \<open>Before the epoch the milliseconds are negative, and the sign stands among the zeros that pad them.\<close>

lemma time_before_epoch:
  "time_to_string (\<lambda>t. t div 1000000000) (\<lambda>_. Some ''1969-12-31 23:59:59'') (-5000000) = Inr ''1969-12-31 23:59:59.0-5''"
  by code_simp

end
