(* ===== verification/Thread_Name.thy ===== *)
theory Thread_Name
  imports Wide_String
begin

text \<open>
  \<^verbatim>\<open>concurrency/thread.hpp\<close> on Linux, and the header of a log line that \<^verbatim>\<open>logging/detail/logging_impl.hpp\<close> makes of the time,
  the thread's number and its name.

  The names of threads are state of the operating system: \<open>setname\<close> and \<open>getname\<close> are \<open>pthread_setname_np\<close> and
  \<open>pthread_getname_np\<close>, \<open>prctl\<close> is the call with \<open>PR_SET_NAME\<close> for the calling thread. The hash of \<open>std::hash<pthread_t>\<close> is the
  argument \<open>hasher\<close>.
\<close>

type_synonym thread_id = "64 word"

record 's thread_os =
  setname :: "thread_id \<Rightarrow> bytes \<Rightarrow> 's \<Rightarrow> int \<times> 's"
  prctl_name :: "thread_id \<Rightarrow> bytes \<Rightarrow> 's \<Rightarrow> int \<times> 's"
  getname :: "thread_id \<Rightarrow> 's \<Rightarrow> bytes option"

section \<open>Names\<close>

text \<open>Both overloads ignore the result of the call.\<close>

definition set_thread_name :: "'s thread_os \<Rightarrow> thread_id \<Rightarrow> bytes \<Rightarrow> 's \<Rightarrow> 's" where
  "set_thread_name os thread thread_name s = snd (setname os thread thread_name s)"

definition set_current_thread_name :: "'s thread_os \<Rightarrow> thread_id \<Rightarrow> bytes \<Rightarrow> 's \<Rightarrow> 's" where
  "set_current_thread_name os current thread_name s = snd (prctl_name os current thread_name s)"

definition get_thread_name :: "codecvt \<Rightarrow> 's thread_os \<Rightarrow> thread_id \<Rightarrow> 's \<Rightarrow> wstring" where
  "get_thread_name cv os tid s =
     (case getname os tid s of
        Some thread_name \<Rightarrow> from_string_wstring cv thread_name
      | None \<Rightarrow> [])"

section \<open>Numbers\<close>

definition hex_digit_upper :: "nat \<Rightarrow> char" where
  "hex_digit_upper d = (if d < 10 then char_of (48 + d) else char_of (55 + d))"

fun hex_upper :: "nat \<Rightarrow> string" where
  "hex_upper n = (if n < 16 then [hex_digit_upper n] else hex_upper (n div 16) @ [hex_digit_upper (n mod 16)])"

declare hex_upper.simps [simp del]

definition widen :: "string \<Rightarrow> wstring" where
  "widen s = map (\<lambda>c. of_nat (of_char c)) s"

definition thread_id_text :: "(thread_id \<Rightarrow> 64 word) \<Rightarrow> thread_id \<Rightarrow> 64 word \<Rightarrow> string" where
  "thread_id_text hasher tid bits =
     (let t = hex_upper (unat (hasher tid AND bits)) in replicate (4 - length t) (CHR ''0'') @ t)"

definition thread_id_to_string :: "(thread_id \<Rightarrow> 64 word) \<Rightarrow> thread_id \<Rightarrow> 64 word \<Rightarrow> wstring" where
  "thread_id_to_string hasher tid bits = widen (thread_id_text hasher tid bits)"

section \<open>The header of a log line\<close>

definition narrow_text :: "string \<Rightarrow> bytes" where
  "narrow_text s = map (\<lambda>c. of_nat (of_char c)) s"

definition current_time_to_wstring :: "codecvt \<Rightarrow> (int \<Rightarrow> int) \<Rightarrow> (int \<Rightarrow> string option) \<Rightarrow> int \<Rightarrow> wstring result" where
  "current_time_to_wstring cv to_time_t date now =
     (case time_to_string to_time_t date now of
        Inl e \<Rightarrow> Inl e
      | Inr s \<Rightarrow> Inr (from_string_wstring cv (narrow_text s)))"

definition create_header ::
  "codecvt \<Rightarrow> 's thread_os \<Rightarrow> (thread_id \<Rightarrow> 64 word) \<Rightarrow> (int \<Rightarrow> int) \<Rightarrow> (int \<Rightarrow> string option) \<Rightarrow> int \<Rightarrow> thread_id \<Rightarrow> 's \<Rightarrow>
   wstring result" where
  "create_header cv os hasher to_time_t date now thread_id s =
     (case current_time_to_wstring cv to_time_t date now of
        Inl e \<Rightarrow> Inl e
      | Inr time \<Rightarrow>
          Inr (time @ widen '' ('' @ thread_id_to_string hasher thread_id 0xFFFF @ widen '' '' @
            get_thread_name cv os thread_id s @ widen ''): ''))"

text \<open>\<open>append\<close> of a narrow string builds the wide one from the iterators: each \<open>char\<close> is sign-extended.\<close>

definition append_narrow_text :: "bytes \<Rightarrow> wstring" where
  "append_narrow_text str = map (\<lambda>c. scast c) str"

section \<open>Printed numbers\<close>

lemma hex_value_upper: "d < 16 \<Longrightarrow> hex_value (hex_digit_upper d) = Some d"
  by (auto simp: hex_value_def hex_digit_upper_def of_char_of)

lemma hex_upper_digits: "\<forall>c\<in>set (hex_upper n). hex_value c \<noteq> None"
proof (induction n rule: hex_upper.induct)
  case (1 n)
  have "n mod 16 < 16" by simp
  with 1 show ?case
    by (subst hex_upper.simps) (auto simp: hex_value_upper)
qed

lemma hex_prefix_hex_upper: "hex_prefix (hex_upper n) 0 = n"
proof (induction n rule: hex_upper.induct)
  case (1 n)
  show ?case
  proof (cases "n < 16")
    case True
    then show ?thesis
      by (subst hex_upper.simps) (simp add: hex_value_upper)
  next
    case False
    have "n mod 16 < 16" by simp
    with 1 False show ?thesis
      using hex_prefix_append [OF hex_upper_digits]
      by (subst hex_upper.simps) (simp add: hex_value_upper)
  qed
qed

lemma length_hex_upper: "n < 16 ^ Suc k \<Longrightarrow> length (hex_upper n) \<le> Suc k"
proof (induction k arbitrary: n)
  case 0
  then show ?case by (subst hex_upper.simps) simp
next
  case (Suc k)
  then have "n div 16 < 16 ^ Suc k"
    by (simp add: less_mult_imp_div_less mult.commute)
  with Suc.IH [of "n div 16"] show ?case
    by (subst hex_upper.simps) simp
qed

lemma hex_prefix_zeros: "hex_prefix (replicate k (CHR ''0'') @ s) 0 = hex_prefix s 0"
  by (induction k) (simp_all add: hex_value_def)

lemma hex_prefix_thread_id: "hex_prefix (thread_id_text hasher tid bits) 0 = unat (hasher tid AND bits)"
  by (simp add: thread_id_text_def Let_def hex_prefix_zeros hex_prefix_hex_upper)

lemma unat_widen: "unat (of_nat (of_char c) :: wchar) = of_char c"
proof (rule unat_wchar)
  have "(of_char c :: nat) < 256" by (rule of_char_less_256)
  then show "(of_char c :: nat) < 0x110000" by linarith
qed

lemma widen_inj: "widen s = widen t \<Longrightarrow> s = t"
proof -
  have "inj (\<lambda>c. of_nat (of_char c) :: wchar)"
    by (rule injI) (metis unat_widen of_char_eq_iff)
  then show "widen s = widen t \<Longrightarrow> s = t"
    by (simp add: widen_def inj_map_eq_map)
qed

text \<open>ASCII text has the same elements in every form.\<close>

definition is_ascii :: "string \<Rightarrow> bool" where
  "is_ascii s \<longleftrightarrow> list_all (\<lambda>c. (of_char c :: nat) < 128) s"

lemma ascii_text:
  assumes "is_ascii s"
  shows "list_all scalar (map of_char s)" "utf8_text (map of_char s) = narrow_text s" "utf16_text (map of_char s) = widen s"
  using assms
  by (induction s) (auto simp: is_ascii_def scalar_def narrow_text_def widen_def utf8_encode_def utf16_encode_def)

lemma from_string_ascii: "is_ascii s \<Longrightarrow> from_string_wstring cv (narrow_text s) = widen s"
  using from_bytes_text [OF ascii_text(1)] ascii_text(2,3) by (simp add: from_string_wstring_def)

lemma digits_ascii: "list_all is_digit s \<Longrightarrow> is_ascii s"
  by (auto simp: is_ascii_def is_digit_def list_all_iff)

lemma length_thread_id_short: "length (thread_id_text hasher tid 0xFFFF) = 4"
proof -
  have "unat (hasher tid AND 0xFFFF) < 16 ^ Suc 3"
    using word_and_le1 [of "hasher tid" "0xFFFF"] by (simp add: word_le_nat_alt)
  then have "length (hex_upper (unat (hasher tid AND 0xFFFF))) \<le> 4"
    using length_hex_upper [of _ 3] by simp
  then show ?thesis
    by (simp add: thread_id_text_def Let_def)
qed

section \<open>Properties\<close>

text \<open>The number of a thread in text. Two threads get the same text exactly when their masked hashes are equal; with the
  mask of the log header the text has four characters.\<close>

lemma thread_id_text_faithful:
  "(thread_id_to_string hasher a bits = thread_id_to_string hasher b bits \<longleftrightarrow> hasher a AND bits = hasher b AND bits) \<and>
   length (thread_id_to_string hasher a 0xFFFF) = 4"
proof
  show "thread_id_to_string hasher a bits = thread_id_to_string hasher b bits \<longleftrightarrow> hasher a AND bits = hasher b AND bits"
    using widen_inj hex_prefix_thread_id [of hasher a bits] hex_prefix_thread_id [of hasher b bits]
    by (metis thread_id_text_def thread_id_to_string_def unsigned_word_eqI)
  show "length (thread_id_to_string hasher a 0xFFFF) = 4"
    by (simp add: thread_id_to_string_def widen_def length_thread_id_short)
qed

text \<open>The header of a log line from the epoch on: the date, a dot, three digits that are the milliseconds, the
  thread's number in four characters and its name in parentheses, a colon and a blank.\<close>

lemma log_header_shape:
  assumes "0 \<le> now" and "date (to_time_t now) = Some sRep" and "is_ascii sRep"
  shows "\<exists>ms num. create_header cv os hasher to_time_t date now tid s =
      Inr (widen (sRep @ ''.'' @ ms @ '' ('' @ num @ '' '') @ get_thread_name cv os tid s @ widen ''): '') \<and>
    length ms = 3 \<and> dec_prefix ms 0 = nat (now div 1000000 mod 1000) \<and>
    length num = 4 \<and> hex_prefix num 0 = unat (hasher tid AND 0xFFFF)"
proof -
  obtain ms where ms: "time_to_string to_time_t date now = Inr (sRep @ ''.'' @ ms)" "length ms = 3" "list_all is_digit ms"
    "dec_prefix ms 0 = nat (now div 1000000 mod 1000)"
    using time_text [of now date to_time_t, OF assms(1,2)] by blast
  have "is_ascii (sRep @ ''.'' @ ms)"
    using assms(3) digits_ascii [OF ms(3)] by (simp add: is_ascii_def)
  then have "current_time_to_wstring cv to_time_t date now = Inr (widen (sRep @ ''.'' @ ms))"
    using from_string_ascii ms(1) by (simp add: current_time_to_wstring_def)
  then show ?thesis
    using ms(2,4) length_thread_id_short [of hasher tid] hex_prefix_thread_id [of hasher tid "0xFFFF"]
    by (intro exI [of _ ms] exI [of _ "thread_id_text hasher tid 0xFFFF"])
      (simp add: create_header_def widen_def thread_id_to_string_def)
qed

definition demo_os :: "(thread_id \<rightharpoonup> bytes) thread_os" where
  "demo_os = \<lparr>setname = (\<lambda>t n s. if length n \<le> 15 then (0, s(t \<mapsto> n)) else (34, s)),
     prctl_name = (\<lambda>t n s. (0, s(t \<mapsto> take 15 n))), getname = (\<lambda>t s. s t)\<rparr>"

lemma log_header_shape_witness:
  "\<exists>ms num. create_header strict_codecvt demo_os (\<lambda>t. t) (\<lambda>t. t div 1000000000) (\<lambda>_. Some ''1970-01-01 00:00:07'') 7042000000 0xABC12
      [0xABC12 \<mapsto> utf8_text [0x6D]] =
      Inr (widen (''1970-01-01 00:00:07'' @ ''.'' @ ms @ '' ('' @ num @ '' '') @
        get_thread_name strict_codecvt demo_os 0xABC12 [0xABC12 \<mapsto> utf8_text [0x6D]] @ widen ''): '') \<and>
    length ms = 3 \<and> dec_prefix ms 0 = 42 \<and> length num = 4 \<and> hex_prefix num 0 = 0xBC12"
  using log_header_shape [of 7042000000 "\<lambda>_. Some ''1970-01-01 00:00:07''" "\<lambda>t. t div 1000000000" "''1970-01-01 00:00:07''"
      strict_codecvt demo_os "\<lambda>t. t" "0xABC12" "[0xABC12 \<mapsto> utf8_text [0x6D]]"]
  by (simp add: is_ascii_def)

text \<open>A name set by \<open>set_thread_name\<close> is found again if the system keeps it, which Linux does for up to 15 bytes.\<close>

lemma thread_name_kept:
  assumes "\<And>name s. length name \<le> 15 \<Longrightarrow> getname os tid (snd (setname os tid name s)) = Some name"
    and "list_all scalar code_points" and "length (utf8_text code_points) \<le> 15"
  shows "get_thread_name cv os tid (set_thread_name os tid (utf8_text code_points) s) = utf16_text code_points"
  using assms from_bytes_text [OF assms(2)] by (simp add: get_thread_name_def set_thread_name_def from_string_wstring_def)

text \<open>\<open>append\<close> of a narrow string does not decode it, and a byte from \<open>0x80\<close> on becomes a wide character that is no code unit.\<close>

lemma append_narrow_not_utf8:
  "append_narrow_text [0xC3, 0xA4] = [0xFFFFFFC3, 0xFFFFFFA4]" "from_string_wstring cv (utf8_text [0xE4]) = [0xE4]"
  using from_bytes_text [of "[0xE4]" cv]
  by (simp_all add: append_narrow_text_def from_string_wstring_def scalar_def utf16_encode_def)

end
