(* ===== verification/File_Io.thy ===== *)
theory File_Io
  imports Filesystem_Path "HOL-Library.Sublist"
begin

text \<open>
  \<^verbatim>\<open>filesystem/io.hpp\<close> and \<^verbatim>\<open>filesystem/stdout_redirector.hpp\<close>.

  \<open>read_file\<close> takes the outcomes of the stream operations it makes (\<open>read_env\<close>); \<open>disk_env\<close> gives them for a file that nobody
  changes meanwhile. \<open>write_file\<close> and \<open>touch\<close> work on a \<open>disk\<close> of files with a number of free bytes. A stream passes a string
  of at least \<open>chunk\<close> bytes to the system at once and keeps a shorter one until it is closed.

  The search for an unused name is a loop that need not end, so it is a partial function with \<open>None\<close> for a search without
  end; the answers of \<open>exists\<close> may change from one query to the next.
\<close>

record disk =
  files :: "string \<rightharpoonup> bytes"
  dirs :: "string \<Rightarrow> bool"
  free_bytes :: nat

section \<open>Reading and writing\<close>

record read_env =
  opened :: bool
  told :: int
  sought :: bool
  got :: bytes
  bad :: bool

text \<open>A read that ends early at the end of the file is no error; the rest of the string keeps its zeros.\<close>

definition read_file :: "read_env \<Rightarrow> string \<Rightarrow> bytes result" where
  "read_file env file_path =
     (if \<not> opened env then Inl (runtime_error (''Could not open file '' @ [CHR 0x27] @ file_path @ [CHR 0x27] @ '' for reading.''))
      else if told env = -1 then
        Inl (runtime_error (''Could not determine the size of file '' @ [CHR 0x27] @ file_path @ [CHR 0x27] @ ''.''))
      else if \<not> sought env then
        Inl (runtime_error (''Could not seek to the beginning of file '' @ [CHR 0x27] @ file_path @ [CHR 0x27] @ ''.''))
      else if bad env then
        Inl (runtime_error (''Could not read from file '' @ [CHR 0x27] @ file_path @ [CHR 0x27] @ ''.''))
      else (let fileSize = nat (told env); bs = take fileSize (got env)
            in Inr (bs @ replicate (fileSize - length bs) 0)))"

definition disk_env :: "disk \<Rightarrow> string \<Rightarrow> read_env" where
  "disk_env d p =
     (case files d p of
        None \<Rightarrow> \<lparr>opened = False, told = -1, sought = False, got = [], bad = False\<rparr>
      | Some c \<Rightarrow> \<lparr>opened = True, told = int (length c), sought = True, got = c, bad = False\<rparr>)"

definition room :: "disk \<Rightarrow> string \<Rightarrow> nat" where
  "room d p = free_bytes d + (case files d p of None \<Rightarrow> 0 | Some c \<Rightarrow> length c)"

text \<open>Opening truncates the file. The error flag is tested before \<open>close\<close> and not after it.\<close>

definition write_file :: "nat \<Rightarrow> (string \<Rightarrow> bool) \<Rightarrow> string \<Rightarrow> bytes \<Rightarrow> disk \<Rightarrow> unit result \<times> disk" where
  "write_file chunk writable file_path content d =
     (if \<not> writable file_path then
        (Inl (runtime_error (''Could not open file '' @ [CHR 0x27] @ file_path @ [CHR 0x27] @ '' for writing.'')), d)
      else
        (let written = take (room d file_path) content;
             d' = d\<lparr>files := (files d)(file_path \<mapsto> written), free_bytes := room d file_path - length written\<rparr>
         in if chunk \<le> length content \<and> length written < length content
            then (Inl (runtime_error (''Could not write to file '' @ [CHR 0x27] @ file_path @ [CHR 0x27] @ ''.'')), d')
            else (Inr (), d')))"

text \<open>An existing file keeps its content; a failure to open is not reported.\<close>

definition touch :: "(string \<Rightarrow> bool) \<Rightarrow> string \<Rightarrow> disk \<Rightarrow> disk" where
  "touch writable p d = (if writable p \<and> files d p = None then d\<lparr>files := (files d)(p \<mapsto> [])\<rparr> else d)"

section \<open>Unused names\<close>

definition file_name :: "string \<Rightarrow> string" where
  "file_name p = last (split_slash p)"

definition extension :: "string \<Rightarrow> string" where
  "extension p =
     (let f = file_name p
      in if f \<noteq> [] \<and> CHR ''.'' \<in> set (tl f) \<and> f \<noteq> ''..'' then CHR ''.'' # rev (takeWhile (\<lambda>c. c \<noteq> CHR ''.'') (rev f)) else [])"

definition replace_extension :: "string \<Rightarrow> string \<Rightarrow> string" where
  "replace_extension p e =
     take (length p - length (extension p)) p @ (if e = [] \<or> hd e = CHR ''.'' then [] else ''.'') @ e"

text \<open>The loops of \<open>unique_temp_file\<close> and \<open>unique_temp_dir\<close>; \<open>candidate\<close> makes the path of a random string, \<open>exists_at k\<close> is the
  answer to the \<open>k\<close>-th query.\<close>

partial_function (option) unique_loop ::
  "(string \<Rightarrow> string) \<Rightarrow> 'g picker \<Rightarrow> (nat \<Rightarrow> string \<Rightarrow> bool) \<Rightarrow> nat \<Rightarrow> 'g \<Rightarrow> (string \<times> nat \<times> 'g) option" where
  "unique_loop candidate pick exists_at k gen =
     (case random_string pick 16 gen of (s, gen') \<Rightarrow>
        if exists_at k (candidate s) then unique_loop candidate pick exists_at (k + 1) gen'
        else Some (candidate s, k, gen'))"

declare unique_loop.simps [code]

definition unique_temp_file ::
  "string \<Rightarrow> 'g picker \<Rightarrow> (nat \<Rightarrow> string \<Rightarrow> bool) \<Rightarrow> string \<Rightarrow> 'g \<Rightarrow> (string \<times> nat \<times> 'g) option" where
  "unique_temp_file temp_directory pick exists_at ext gen =
     unique_loop (\<lambda>s. replace_extension (path_append temp_directory s) ext) pick exists_at 0 gen"

definition unique_temp_dir ::
  "string \<Rightarrow> 'g picker \<Rightarrow> (nat \<Rightarrow> string \<Rightarrow> bool) \<Rightarrow> 'g \<Rightarrow> (string \<times> nat \<times> 'g) option" where
  "unique_temp_dir temp_directory pick exists_at gen = unique_loop (path_append temp_directory) pick exists_at 0 gen"

definition file_exists :: "disk \<Rightarrow> string \<Rightarrow> bool" where
  "file_exists d p \<longleftrightarrow> files d p \<noteq> None \<or> dirs d p"

text \<open>\<open>others\<close> is what other processes do to the disk between the search and the creation.\<close>

definition create_unique_temp_file ::
  "string \<Rightarrow> 'g picker \<Rightarrow> (string \<Rightarrow> bool) \<Rightarrow> (disk \<Rightarrow> disk) \<Rightarrow> string \<Rightarrow> disk \<Rightarrow> 'g \<Rightarrow> (string \<times> disk \<times> 'g) option" where
  "create_unique_temp_file temp_directory pick writable others ext d gen =
     (case unique_temp_file temp_directory pick (\<lambda>_. file_exists d) ext gen of
        None \<Rightarrow> None
      | Some (p, k, gen') \<Rightarrow> Some (p, touch writable p (others d), gen'))"

text \<open>\<open>create_directories\<close> of a name in an existing directory: it reports an error by exception.\<close>

definition create_unique_temp_dir ::
  "string \<Rightarrow> 'g picker \<Rightarrow> (string \<Rightarrow> string option) \<Rightarrow> (disk \<Rightarrow> disk) \<Rightarrow> disk \<Rightarrow> 'g \<Rightarrow> (string result \<times> disk \<times> 'g) option" where
  "create_unique_temp_dir temp_directory pick mkdir_error others d gen =
     (case unique_temp_dir temp_directory pick (\<lambda>_. file_exists d) gen of
        None \<Rightarrow> None
      | Some (p, k, gen') \<Rightarrow>
          (case mkdir_error p of
             Some msg \<Rightarrow> Some (Inl (system_error msg), others d, gen')
           | None \<Rightarrow> Some (Inr p, (others d)\<lparr>dirs := (dirs (others d))(p := True)\<rparr>, gen')))"

section \<open>Redirecting the standard output\<close>

datatype out_target =
    Initial
  | Terminal
  | To_File string
  | Closed

text \<open>\<open>freopen\<close> closes the old stream also when it cannot open the new one. It returns the stream it was given, so the test before
  \<open>fclose\<close> never succeeds.\<close>

definition stdout_redirector_ctor :: "bool \<Rightarrow> string \<Rightarrow> out_target \<Rightarrow> unit result \<times> out_target" where
  "stdout_redirector_ctor reopened file_path out =
     (if reopened then (Inr (), To_File file_path)
      else (Inl (runtime_error (''cbeam::filesystem::stdout_redirector: Could not redirect stdout to file '' @ file_path)), Closed))"

definition stdout_redirector_dtor :: "bool \<Rightarrow> out_target \<Rightarrow> string list \<times> out_target" where
  "stdout_redirector_dtor reopened out =
     (if reopened then ([], Terminal)
      else ([''cbeam::filesystem::stdout_redirector: Could not set stdout to default''], Closed))"

text \<open>Of two redirectors the inner one ends the redirection of the outer one as well.\<close>

lemma redirectors_do_not_nest:
  assumes "stdout_redirector_ctor True outer o0 = (Inr (), o1)" and "stdout_redirector_ctor True inner o1 = (Inr (), o2)"
    and "stdout_redirector_dtor True o2 = ([], o3)"
  shows "o1 = To_File outer \<and> o2 = To_File inner \<and> o3 = Terminal"
  using assms by (simp add: stdout_redirector_ctor_def stdout_redirector_dtor_def)

section \<open>The search for an unused name\<close>

text \<open>The state of the generator after \<open>j\<close> rejected names.\<close>

fun gen_after :: "'g picker \<Rightarrow> nat \<Rightarrow> 'g \<Rightarrow> 'g" where
  "gen_after pick 0 gen = gen"
| "gen_after pick (Suc j) gen = gen_after pick j (snd (random_string pick 16 gen))"

definition nth_candidate :: "(string \<Rightarrow> string) \<Rightarrow> 'g picker \<Rightarrow> nat \<Rightarrow> 'g \<Rightarrow> string" where
  "nth_candidate candidate pick j gen = candidate (fst (random_string pick 16 (gen_after pick j gen)))"

lemma unique_loop_step:
  "unique_loop candidate pick exists_at k gen =
     (if exists_at k (nth_candidate candidate pick 0 gen)
      then unique_loop candidate pick exists_at (k + 1) (snd (random_string pick 16 gen))
      else Some (nth_candidate candidate pick 0 gen, k, snd (random_string pick 16 gen)))"
  by (subst unique_loop.simps) (simp add: nth_candidate_def split: prod.split)

lemma unique_loop_finds:
  assumes "\<not> exists_at (k + j) (nth_candidate candidate pick j gen)"
    and "\<And>i. i < j \<Longrightarrow> exists_at (k + i) (nth_candidate candidate pick i gen)"
  shows "unique_loop candidate pick exists_at k gen = Some (nth_candidate candidate pick j gen, k + j, gen_after pick (Suc j) gen)"
  using assms
proof (induction j arbitrary: k gen)
  case 0
  then show ?case by (subst unique_loop_step) simp
next
  case (Suc j)
  let ?gen = "snd (random_string pick 16 gen)"
  have shift: "nth_candidate candidate pick (Suc i) gen = nth_candidate candidate pick i ?gen" for i
    by (simp add: nth_candidate_def)
  have "unique_loop candidate pick exists_at (k + 1) ?gen =
      Some (nth_candidate candidate pick j ?gen, k + 1 + j, gen_after pick (Suc j) ?gen)"
    using Suc.prems(1) Suc.prems(2) [of "Suc _"] by (intro Suc.IH) (simp_all add: shift)
  moreover have "exists_at k (nth_candidate candidate pick 0 gen)"
    using Suc.prems(2) [of 0] by simp
  ultimately show ?case
    by (subst unique_loop_step) (simp add: shift)
qed

lemma unique_loop_result:
  assumes "unique_loop candidate pick exists_at k gen = Some r"
  shows "case r of (p, m, gen') \<Rightarrow> \<exists>j. m = k + j \<and> p = nth_candidate candidate pick j gen \<and> \<not> exists_at m p"
proof (rule unique_loop.raw_induct [OF _ assms])
  fix loop :: "(string \<Rightarrow> string) \<Rightarrow> 'a picker \<Rightarrow> (nat \<Rightarrow> string \<Rightarrow> bool) \<Rightarrow> nat \<Rightarrow> 'a \<Rightarrow> (string \<times> nat \<times> 'a) option"
  fix candidate pick exists_at k gen r
  assume IH: "\<And>candidate pick exists_at k gen r. loop candidate pick exists_at k gen = Some r \<Longrightarrow>
      case r of (p, m, gen') \<Rightarrow> \<exists>j. m = k + j \<and> p = nth_candidate candidate pick j gen \<and> \<not> exists_at m p"
    and body: "(case random_string pick 16 gen of (s, gen') \<Rightarrow>
        if exists_at k (candidate s) then loop candidate pick exists_at (k + 1) gen'
        else Some (candidate s, k, gen')) = Some r"
  obtain s gen1 where s: "random_string pick 16 gen = (s, gen1)" by force
  obtain p m gen' where r: "r = (p, m, gen')" by (cases r)
  show "case r of (p, m, gen') \<Rightarrow> \<exists>j. m = k + j \<and> p = nth_candidate candidate pick j gen \<and> \<not> exists_at m p"
  proof (cases "exists_at k (candidate s)")
    case True
    with body s have "loop candidate pick exists_at (k + 1) gen1 = Some r" by simp
    from IH [OF this] obtain j where "m = k + 1 + j" "p = nth_candidate candidate pick j gen1" "\<not> exists_at m p"
      by (auto simp: r)
    then show ?thesis
      using s by (auto simp: r nth_candidate_def intro!: exI [of _ "Suc j"])
  next
    case False
    with body s show ?thesis
      by (auto simp: r nth_candidate_def intro!: exI [of _ 0])
  qed
qed

text \<open>The search ends exactly when one of the names it tries is unused at that moment.\<close>

lemma unique_loop_ends:
  "(\<exists>r. unique_loop candidate pick exists_at k gen = Some r) \<longleftrightarrow>
   (\<exists>j. \<not> exists_at (k + j) (nth_candidate candidate pick j gen))"
proof
  assume "\<exists>r. unique_loop candidate pick exists_at k gen = Some r"
  then obtain p m gen' where "unique_loop candidate pick exists_at k gen = Some (p, m, gen')" by auto
  from unique_loop_result [OF this] show "\<exists>j. \<not> exists_at (k + j) (nth_candidate candidate pick j gen)" by auto
next
  assume ex: "\<exists>j. \<not> exists_at (k + j) (nth_candidate candidate pick j gen)"
  let ?j = "LEAST j. \<not> exists_at (k + j) (nth_candidate candidate pick j gen)"
  have "\<not> exists_at (k + ?j) (nth_candidate candidate pick ?j gen)"
    by (rule LeastI_ex [OF ex])
  moreover have "exists_at (k + i) (nth_candidate candidate pick i gen)" if "i < ?j" for i
    using not_less_Least [OF that] by simp
  ultimately show "\<exists>r. unique_loop candidate pick exists_at k gen = Some r"
    by (intro exI) (rule unique_loop_finds)
qed

section \<open>Names\<close>

lemma split_slash_plain: "slash \<notin> set s \<Longrightarrow> split_slash s = [s]"
  by (induction s) auto

lemma split_slash_not_Nil [simp]: "split_slash s \<noteq> []"
  by (cases s) (auto split: list.split)

lemma split_slash_at: "split_slash (a @ slash # s) = split_slash a @ split_slash s"
  by (induction a) (auto split: list.splits)

lemma last_split_append: "slash \<notin> set s \<Longrightarrow> last (split_slash (a @ slash # s)) = s"
  by (simp add: split_slash_at split_slash_plain)

lemma extension_random:
  assumes "a \<noteq> []" and "last a \<noteq> slash" and "s \<noteq> []" and "slash \<notin> set s" and "CHR ''.'' \<notin> set s"
  shows "replace_extension (path_append a s) e = a @ slash # s @ (if e = [] \<or> hd e = CHR ''.'' then [] else ''.'') @ e"
proof -
  have "hd s \<noteq> slash"
    using assms(3,4) by (cases s) auto
  then have p: "path_append a s = a @ slash # s"
    using assms(1,2) by (simp add: path_append_def)
  have "CHR ''.'' \<notin> set (tl s)"
    using assms(5) by (cases s) auto
  then have "extension (a @ slash # s) = []"
    using assms(4) by (simp add: extension_def file_name_def last_split_append)
  with p show ?thesis
    by (simp add: replace_extension_def)
qed

lemma random_chars_plain: "slash \<notin> set random_chars" "CHR ''.'' \<notin> set random_chars"
  by (simp_all add: random_chars_def)

lemma read_disk: "files d p = Some c \<Longrightarrow> read_file (disk_env d p) p = Inr c"
  by (simp add: read_file_def disk_env_def)

section \<open>Properties\<close>



text \<open>A full disk can go unnoticed. Content too short to be passed on at once and too long for the disk is cut off when
  the stream is closed; \<open>write_file\<close> returns without an exception and the file holds a proper prefix of the content.\<close>

lemma short_write_unnoticed:
  assumes "writable p" and "room d p < length content" and "length content < chunk"
    and "write_file chunk writable p content d = (r, d')"
  shows "r = Inr () \<and> (\<exists>c. read_file (disk_env d' p) p = Inr c \<and> strict_prefix c content)"
proof -
  have "files d' p = Some (take (room d p) content)" and r: "r = Inr ()"
    using assms by (auto simp: write_file_def Let_def split: if_splits)
  then have "read_file (disk_env d' p) p = Inr (take (room d p) content)"
    by (simp add: read_disk)
  moreover have "strict_prefix (take (room d p) content) content"
    using assms(2) by (auto simp: strict_prefix_def take_is_prefix dest: arg_cong [of _ _ length])
  ultimately show ?thesis using r by blast
qed

lemma short_write_unnoticed_witness:
  "fst (write_file 1024 (\<lambda>_. True) ''a'' [1, 2, 3] \<lparr>files = Map.empty, dirs = \<lambda>_. False, free_bytes = 2\<rparr>) = Inr ()"
  using short_write_unnoticed [of "\<lambda>_. True" "''a''" "\<lparr>files = Map.empty, dirs = \<lambda>_. False, free_bytes = 2\<rparr>" "[1, 2, 3]" 1024
      "fst (write_file 1024 (\<lambda>_. True) ''a'' [1, 2, 3] \<lparr>files = Map.empty, dirs = \<lambda>_. False, free_bytes = 2\<rparr>)"
      "snd (write_file 1024 (\<lambda>_. True) ''a'' [1, 2, 3] \<lparr>files = Map.empty, dirs = \<lambda>_. False, free_bytes = 2\<rparr>)"]
  by (simp add: room_def)


definition counting :: "nat picker" where
  "counting lo hi g = (lo + g mod (hi - lo + 1), g + 1)"

lemma counting_ok: "picker_ok counting"
proof -
  have "lo + g mod (hi - lo + 1) \<le> hi" if "lo \<le> hi" for lo hi g :: nat
    using that mod_less_divisor [of "hi - lo + 1" g] by linarith
  then show ?thesis by (simp add: picker_ok_def counting_def)
qed


text \<open>The file that \<open>create_unique_temp_file\<close> returns is new and empty unless another process interferes; if that creates
  the file first, the caller gets the other's file.\<close>

lemma temp_file_created:
  assumes "create_unique_temp_file tmp pick (\<lambda>_. True) id ext d gen = Some (p, d', gen')"
  shows "files d p = None \<and> files d' p = Some [] \<and> (\<forall>q. q \<noteq> p \<longrightarrow> files d' q = files d q)"
  using assms unique_loop_result [of "\<lambda>s. replace_extension (path_append tmp s) ext" pick "\<lambda>_. file_exists d" 0 gen]
  by (auto simp: create_unique_temp_file_def unique_temp_file_def touch_def file_exists_def split: option.splits)

lemma temp_file_race:
  assumes "create_unique_temp_file tmp pick (\<lambda>_. True) others ext d gen = Some (p, d', gen')" and "files (others d) p = Some c"
  shows "files d' p = Some c"
  using assms by (auto simp: create_unique_temp_file_def touch_def split: option.splits)

end
