(* ===== verification/Platform.thy ===== *)
theory Platform
  imports File_Io Xpod Complex_Main
begin

text \<open>
  \<^verbatim>\<open>platform/system_folders.hpp\<close>, \<^verbatim>\<open>platform/info.hpp\<close>, \<^verbatim>\<open>platform/clock_precision.hpp\<close> and \<^verbatim>\<open>platform/runtime.hpp\<close>, in
  their Linux branches. What the system answers (the entry of the user in the password file, whether a path exists, the
  target of \<^verbatim>\<open>/proc/self/exe\<close>, the resolution of the clock, the macros the compiler defines) is an argument; the static variables of
  the functions are the state. A loop that need not end is a partial function. A \<open>double\<close> is a rational number.
\<close>

section \<open>Folders\<close>

record folders =
  home_folder :: string
  cached_full_path :: string

definition quoted :: "string \<Rightarrow> string" where
  "quoted s = CHR 0x27 # s @ [CHR 0x27]"

definition get_home_dir :: "string option \<Rightarrow> folders \<Rightarrow> string result \<times> folders" where
  "get_home_dir pw_dir F =
     (if home_folder F = [] then
        (case pw_dir of
           None \<Rightarrow> (Inl (runtime_error (''Failed to determine path to user'' @ [CHR 0x27] @ ''s home directory (passwd::pw_dir)'')), F)
         | Some d \<Rightarrow> (Inr d, F\<lparr>home_folder := d\<rparr>))
      else (Inr (home_folder F), F))"

definition expect_exists :: "(string \<Rightarrow> bool) \<Rightarrow> string \<Rightarrow> string result" where
  "expect_exists exists_path p =
     (if exists_path p then Inr p
      else Inl (runtime_error (''Path '' @ quoted p @ '' is expected to exist on this system.'')))"

definition get_user_data_dir :: "string option \<Rightarrow> (string \<Rightarrow> bool) \<Rightarrow> folders \<Rightarrow> string result \<times> folders" where
  "get_user_data_dir pw_dir exists_path F =
     (case get_home_dir pw_dir F of
        (Inl e, F') \<Rightarrow> (Inl e, F')
      | (Inr h, F') \<Rightarrow> (expect_exists exists_path (path_append (path_append h ''.local'') ''share''), F'))"

definition get_user_cache_dir :: "string option \<Rightarrow> (string \<Rightarrow> bool) \<Rightarrow> folders \<Rightarrow> string result \<times> folders" where
  "get_user_cache_dir pw_dir exists_path F =
     (case get_home_dir pw_dir F of
        (Inl e, F') \<Rightarrow> (Inl e, F')
      | (Inr h, F') \<Rightarrow> (expect_exists exists_path (path_append h ''.cache''), F'))"

definition readlink_failed :: failure where
  "readlink_failed = runtime_error ''Failed to determine path to current binary via /proc/self/exe''"

text \<open>The loop around \<open>readlink\<close>: \<open>link k\<close> is the target at the \<open>k\<close>-th call, of which the call stores at most \<open>size - 1\<close> bytes.\<close>

partial_function (option) binary_loop :: "(nat \<Rightarrow> string option) \<Rightarrow> nat \<Rightarrow> nat \<Rightarrow> string result option" where
  "binary_loop link k size_of_buffer =
     (case link k of
        None \<Rightarrow> Some (Inl readlink_failed)
      | Some target \<Rightarrow>
          (let len = min (length target) (size_of_buffer - 1)
           in if len \<ge> size_of_buffer - 1 then binary_loop link (k + 1) (size_of_buffer * 2)
              else Some (Inr (take len target))))"

declare binary_loop.simps [code]

definition parent_path :: "string \<Rightarrow> string" where
  "parent_path p =
     (let q = take (length p - length (file_name p)) p
      in if path_names q = [] then q else rev (dropWhile (\<lambda>c. c = slash) (rev q)))"

text \<open>The path found once is kept; \<open>found\<close> is what the search of the platform gives.\<close>

definition cached_binary_path ::
  "string result option \<Rightarrow> (string \<Rightarrow> bool) \<Rightarrow> bool \<Rightarrow> folders \<Rightarrow> (string result \<times> folders) option" where
  "cached_binary_path found exists_path include_filename F =
     (case (if cached_full_path F = [] then found else Some (Inr (cached_full_path F))) of
        None \<Rightarrow> None
      | Some (Inl e) \<Rightarrow> Some (Inl e, F)
      | Some (Inr p) \<Rightarrow>
          Some (expect_exists exists_path (if include_filename then p else parent_path p), F\<lparr>cached_full_path := p\<rparr>))"

definition get_current_binary_path ::
  "(nat \<Rightarrow> string option) \<Rightarrow> (string \<Rightarrow> bool) \<Rightarrow> bool \<Rightarrow> folders \<Rightarrow> (string result \<times> folders) option" where
  "get_current_binary_path link exists_path include_filename F =
     cached_binary_path (binary_loop link 0 1024) exists_path include_filename F"

text \<open>\<open>dladdr\<close> gives nothing, or the file name of the object that contains the symbol, which may be missing.\<close>

definition get_path_to_runtime_binary :: "string option option \<Rightarrow> (string \<Rightarrow> string option) \<Rightarrow> string result" where
  "get_path_to_runtime_binary dladdr realpath =
     (case dladdr of
        None \<Rightarrow> Inl (runtime_error ''cbeam::platform::get_path_to_runtime_binary: Could not resolve symbol'')
      | Some None \<Rightarrow>
          Inl (runtime_error
            ''cbeam::platform::get_path_to_runtime_binary: Symbol is not associated with a shared library or executable'')
      | Some (Some dli_fname) \<Rightarrow>
          (case realpath dli_fname of
             Some p \<Rightarrow> Inr p
           | None \<Rightarrow>
               Inl (runtime_error (''cbeam::platform::get_path_to_runtime_binary: Could not resolve symbolic link '' @ quoted dli_fname))))"

section \<open>The platform\<close>

definition get_bit_architecture :: "nat \<Rightarrow> string" where
  "get_bit_architecture sizeof_size_t = dec_nat (sizeof_size_t * 8)"

definition get_platform_architecture :: "(string \<Rightarrow> bool) \<Rightarrow> string" where
  "get_platform_architecture is_defined =
     (if is_defined ''__arm__'' \<or> is_defined ''__aarch64__'' then ''ARM''
      else if is_defined ''__powerpc64__'' \<or> is_defined ''__powerpc__'' then ''PowerPC''
      else if is_defined ''__x86_64__'' \<or> is_defined ''_M_X64'' \<or> is_defined ''__i386'' \<or> is_defined ''_M_IX86'' then ''x86''
      else if is_defined ''__mips__'' \<or> is_defined ''__mips64'' then ''MIPS''
      else if is_defined ''__riscv'' then ''RISC-V''
      else if is_defined ''__sparc__'' \<or> is_defined ''__sparc'' then ''SPARC''
      else if is_defined ''__AVR__'' then ''AVR''
      else if is_defined ''__pic__'' \<or> is_defined ''__PIC__'' then ''PIC''
      else if is_defined ''ESP32'' \<or> is_defined ''ESP8266'' then ''ESP''
      else if is_defined ''__MSP430__'' then ''MSP430''
      else if is_defined ''__SH1__'' \<or> is_defined ''__SH2__'' \<or> is_defined ''__SH3__'' \<or> is_defined ''__SH4__'' then ''SuperH''
      else ''Unknown'')"

definition get_architecture :: "(string \<Rightarrow> bool) \<Rightarrow> nat \<Rightarrow> string" where
  "get_architecture is_defined sizeof_size_t =
     (let platform = get_platform_architecture is_defined; bit_text = get_bit_architecture sizeof_size_t
      in if platform \<noteq> [] \<and> of_char (last platform) \<in> {48..57::nat} then platform @ ''_'' @ bit_text else platform @ bit_text)"

definition get_kernel_name :: "(string \<Rightarrow> bool) \<Rightarrow> string" where
  "get_kernel_name is_defined =
     (if is_defined ''_WIN32'' then ''Windows''
      else if is_defined ''__linux__'' then ''Linux''
      else if is_defined ''__APPLE__'' then ''Darwin''
      else if is_defined ''__MACH__'' then ''Mach''
      else if is_defined ''__FreeBSD__'' then ''FreeBSD''
      else if is_defined ''__sun'' \<and> is_defined ''__SVR4'' then ''Solaris''
      else if is_defined ''__NetBSD__'' then ''NetBSD''
      else if is_defined ''__OpenBSD__'' then ''OpenBSD''
      else if is_defined ''__vxworks'' then ''VxWorks''
      else if is_defined ''__QNX__'' then ''QNX''
      else ''Unknown'')"

section \<open>The resolution of the clock\<close>

text \<open>The inner loop reads the clock until it has moved on; \<open>elapsed j\<close> is the time from its start to the \<open>j\<close>-th reading.\<close>

partial_function (option) first_tick :: "(nat \<Rightarrow> rat) \<Rightarrow> nat \<Rightarrow> rat option" where
  "first_tick elapsed j = (if elapsed j = 0 then first_tick elapsed (j + 1) else Some (elapsed j))"

declare first_tick.simps [code]

fun fallback_precision :: "nat \<Rightarrow> (nat \<Rightarrow> nat \<Rightarrow> rat) \<Rightarrow> rat \<Rightarrow> rat option" where
  "fallback_precision 0 elapsed clock_precision = Some clock_precision"
| "fallback_precision (Suc iterations) elapsed clock_precision =
     (case first_tick (elapsed iterations) 0 of
        None \<Rightarrow> None
      | Some r \<Rightarrow> fallback_precision iterations elapsed (min clock_precision r))"

text \<open>\<open>clock_getres\<close> gives seconds and nanoseconds, or fails. The static variable is argument and second result.\<close>

definition get_clock_precision :: "(int \<times> int) option \<Rightarrow> (nat \<Rightarrow> nat \<Rightarrow> rat) \<Rightarrow> rat \<Rightarrow> (rat \<times> rat) option" where
  "get_clock_precision clock_getres elapsed clock_precision =
     (if clock_precision = -1 then
        (let c = (case clock_getres of None \<Rightarrow> -1 | Some (sec, nsec) \<Rightarrow> of_int sec + of_int nsec / 10 ^ 9)
         in map_option (\<lambda>c. (c, c)) (if c = -1 then fallback_precision 100 elapsed c else Some c))
      else Some (clock_precision, clock_precision))"

section \<open>Lemmas\<close>

lemma binary_loop_found:
  assumes "link k = Some target" and "length target < n - 1"
  shows "binary_loop link k n = Some (Inr target)"
  using assms by (subst binary_loop.simps) (simp add: Let_def)

lemma binary_loop_grows:
  assumes "link k = Some target" and "n - 1 \<le> length target"
  shows "binary_loop link k n = binary_loop link (k + 1) (n * 2)"
  using assms by (subst binary_loop.simps) (simp add: Let_def)

text \<open>The buffer doubles, so it passes every bound on the length of the target.\<close>

lemma binary_loop_ends:
  assumes bound: "\<forall>k target. link k = Some target \<longrightarrow> length target < L" and "2 \<le> n"
  shows "\<exists>j. link j = None \<and> binary_loop link k n = Some (Inl readlink_failed) \<or>
    (\<exists>target. link j = Some target \<and> binary_loop link k n = Some (Inr target))"
  using assms(2)
proof (induction "L + 2 - n" arbitrary: k n rule: less_induct)
  case less
  show ?case
  proof (cases "link k")
    case None
    then have "binary_loop link k n = Some (Inl readlink_failed)"
      by (subst binary_loop.simps) simp
    with None show ?thesis by blast
  next
    case (Some target)
    show ?thesis
    proof (cases "length target < n - 1")
      case True
      with Some binary_loop_found [of link k target n] show ?thesis by blast
    next
      case False
      moreover have "length target < L"
        using bound Some by blast
      ultimately have "L + 2 - n * 2 < L + 2 - n"
        using less.prems by linarith
      from less.hyps [OF this, of "k + 1"] less.prems show ?thesis
        using binary_loop_grows [of link k target n] Some False by simp
    qed
  qed
qed

lemma first_tick_ends: "\<exists>i. elapsed (j + i) \<noteq> 0 \<Longrightarrow> \<exists>i. first_tick elapsed j = Some (elapsed (j + i))"
proof -
  assume ex: "\<exists>i. elapsed (j + i) \<noteq> 0"
  then obtain i where "elapsed (j + i) \<noteq> 0" by blast
  then show ?thesis
  proof (induction i arbitrary: j)
    case 0
    then have "first_tick elapsed j = Some (elapsed (j + 0))"
      by (subst first_tick.simps) simp
    then show ?case by blast
  next
    case (Suc i)
    show ?case
    proof (cases "elapsed j = 0")
      case True
      from Suc.IH [of "j + 1"] Suc.prems obtain i' where "first_tick elapsed (j + 1) = Some (elapsed (j + 1 + i'))" by auto
      with True have "first_tick elapsed j = Some (elapsed (j + Suc i'))"
        by (subst first_tick.simps) simp
      then show ?thesis by blast
    next
      case False
      then have "first_tick elapsed j = Some (elapsed (j + 0))"
        by (subst first_tick.simps) simp
      then show ?thesis by blast
    qed
  qed
qed

lemma fallback_useless:
  assumes "\<And>i j. 0 \<le> elapsed i j" and "\<And>i. \<exists>j. elapsed i j \<noteq> 0" and "c < 0"
  shows "fallback_precision n elapsed c = Some c"
  using assms(3)
proof (induction n)
  case (Suc n)
  obtain i where "first_tick (elapsed n) 0 = Some (elapsed n i)"
    using first_tick_ends [of "elapsed n" 0] assms(2) by auto
  moreover have "min c (elapsed n i) = c"
    using Suc.prems assms(1) [of n i] by (simp add: min_def)
  ultimately show ?case
    using Suc by simp
qed simp

section \<open>Properties\<close>

text \<open>C31. The path of the binary. Whatever the length of the link's target, as long as it is bounded, the loop ends; the first call
  then returns a complete target, never a truncated one, or reports the failure of \<open>readlink\<close>, and later calls return the
  same path whatever the link says by then.\<close>

theorem binary_path_complete:
  assumes "\<forall>k target. link k = Some target \<longrightarrow> length target < L" and "cached_full_path F = []"
  shows "\<exists>r F'. get_current_binary_path link exists_path True F = Some (r, F') \<and>
    ((\<exists>k. link k = None) \<and> r = Inl readlink_failed \<and> F' = F \<or>
     (\<exists>k target. link k = Some target \<and> r = expect_exists exists_path target \<and>
       (target \<noteq> [] \<longrightarrow> get_current_binary_path link' exists_path True F' = Some (r, F'))))"
proof -
  from binary_loop_ends [OF assms(1), of 1024 0]
  consider k where "link k = None" "binary_loop link 0 1024 = Some (Inl readlink_failed)"
    | k target where "link k = Some target" "binary_loop link 0 1024 = Some (Inr target)" by auto
  then show ?thesis
  proof cases
    case 1
    then show ?thesis
      using assms(2) by (intro exI [of _ "Inl readlink_failed"] exI [of _ F]) (auto simp: get_current_binary_path_def cached_binary_path_def)
  next
    case (2 k target)
    then show ?thesis
      using assms(2)
      by (intro exI [of _ "expect_exists exists_path target"] exI [of _ "F\<lparr>cached_full_path := target\<rparr>"])
        (auto simp: get_current_binary_path_def cached_binary_path_def)
  qed
qed

theorem binary_path_complete_witness:
  "\<exists>r F'. get_current_binary_path (\<lambda>_. Some (replicate 5000 CHR ''x'')) (\<lambda>_. True) True \<lparr>home_folder = [], cached_full_path = []\<rparr> =
     Some (r, F') \<and> r = Inr (replicate 5000 CHR ''x'')"
  using binary_path_complete [of "\<lambda>_. Some (replicate 5000 CHR ''x'')" 5001 "\<lparr>home_folder = [], cached_full_path = []\<rparr>"
      "\<lambda>_. True" "\<lambda>_. None"]
  by (auto simp: expect_exists_def)

text \<open>C40. The fallback for the resolution of the clock is without effect. If the system does not report the resolution, then however the
  clock runs, the function returns the initial value -1, which is below every resolution, and measures again at the next call.\<close>

theorem clock_fallback_fails:
  assumes "\<And>i j. 0 \<le> elapsed i j" and "\<And>i. \<exists>j. elapsed i j \<noteq> 0"
  shows "get_clock_precision None elapsed (-1) = Some (-1, -1)"
  using fallback_useless [of elapsed "-1" 100] assms by (simp add: get_clock_precision_def Let_def)

theorem clock_fallback_fails_witness: "get_clock_precision None (\<lambda>i j. of_nat j / 10 ^ 9) (-1) = Some (-1, -1)"
proof (rule clock_fallback_fails)
  show "0 \<le> of_nat j / (10 ^ 9 :: rat)" for i j :: nat by simp
  have "of_nat 1 / (10 ^ 9 :: rat) \<noteq> 0" by simp
  then show "\<exists>j. of_nat j / (10 ^ 9 :: rat) \<noteq> 0" for i :: nat by blast
qed

text \<open>The home directory is asked for once; until then each failure is reported anew.\<close>

lemma home_dir_cached:
  "get_home_dir pw F = (Inr h, F') \<Longrightarrow> h \<noteq> [] \<Longrightarrow> get_home_dir pw' F' = (Inr h, F')"
  by (auto simp: get_home_dir_def split: if_splits option.splits)

text \<open>\<open>__pic__\<close> is what compilers define for position independent code on every processor.\<close>

lemma position_independent_code_is_PIC:
  "get_architecture (\<lambda>m. m \<in> {''__s390x__'', ''__linux__'', ''__pic__''}) 8 = ''PIC64''"
  by (simp add: get_architecture_def get_platform_architecture_def get_bit_architecture_def Let_def) code_simp

end
