(* ===== verification/Windows_Code.thy ===== *)
theory Windows_Code
  imports Shared_Memory
begin

text \<open>
  The Windows branches of \<^verbatim>\<open>concurrency/named_recursive_mutex.hpp\<close> and \<^verbatim>\<open>memory/interprocess_shared_memory.hpp\<close>, with
  \<^verbatim>\<open>platform/windows_config.hpp\<close> and \<^verbatim>\<open>platform/com_initializer.hpp\<close>.

  The state is the named objects of the system: each lives as long as somebody has a handle to it, a mutex has an owner, and a
  mutex whose owner ended without unlocking it is abandoned. A handle and the view made through it count as one reference. Whether
  a call of the system succeeds, and the texts it has for its errors, are arguments.
\<close>

section \<open>Error texts\<close>

text \<open>\<open>format_message code\<close> is the text for a code, empty when there is none, and the last error afterwards.\<close>

fun format_attempts :: "nat \<Rightarrow> (nat \<Rightarrow> string \<times> nat) \<Rightarrow> nat \<Rightarrow> string \<Rightarrow> string" where
  "format_attempts 0 format_message last_error message = message"
| "format_attempts (Suc n) format_message last_error message =
     (case format_message last_error of
        (text, last_error') \<Rightarrow> format_attempts n format_message last_error' (if text \<noteq> [] then text else message))"

definition get_last_windows_error_message :: "(nat \<Rightarrow> string \<times> nat) \<Rightarrow> nat \<Rightarrow> string" where
  "get_last_windows_error_message format_message last_error =
     (let message = format_attempts 2 format_message last_error []
      in if message = [] then ''unknown error'' else message)"

section \<open>Named objects\<close>

datatype win_mutex_state = Win_free | Win_owned nat nat | Win_abandoned

record win_object =
  wo_references :: nat
  wo_mutex :: win_mutex_state
  wo_bytes :: bytes

record winkernel =
  wk_names :: "string \<Rightarrow> nat option"
  wk_objects :: "nat \<Rightarrow> win_object"
  wk_next :: nat

text \<open>Creating a name that exists opens its object.\<close>

definition win_create :: "string \<Rightarrow> bytes \<Rightarrow> winkernel \<Rightarrow> nat \<times> winkernel" where
  "win_create name bs K =
     (case wk_names K name of
        Some i \<Rightarrow> (i, K\<lparr>wk_objects := (wk_objects K)(i := (wk_objects K i)\<lparr>wo_references := wo_references (wk_objects K i) + 1\<rparr>)\<rparr>)
      | None \<Rightarrow>
          (wk_next K,
           K\<lparr>wk_names := (wk_names K)(name := Some (wk_next K)),
             wk_objects := (wk_objects K)(wk_next K := \<lparr>wo_references = 1, wo_mutex = Win_free, wo_bytes = bs\<rparr>),
             wk_next := wk_next K + 1\<rparr>))"

definition CloseHandle :: "nat \<Rightarrow> winkernel \<Rightarrow> winkernel" where
  "CloseHandle i K =
     (let n = wo_references (wk_objects K i) - 1
      in K\<lparr>wk_objects := (wk_objects K)(i := (wk_objects K i)\<lparr>wo_references := n\<rparr>),
           wk_names := (\<lambda>name. if n = 0 \<and> wk_names K name = Some i then None else wk_names K name)\<rparr>)"

definition win_set_mutex :: "nat \<Rightarrow> win_mutex_state \<Rightarrow> winkernel \<Rightarrow> winkernel" where
  "win_set_mutex i m K = K\<lparr>wk_objects := (wk_objects K)(i := (wk_objects K i)\<lparr>wo_mutex := m\<rparr>)\<rparr>"

definition thread_ends :: "nat \<Rightarrow> winkernel \<Rightarrow> winkernel" where
  "thread_ends t K =
     K\<lparr>wk_objects := (\<lambda>i. case wo_mutex (wk_objects K i) of
          Win_owned u n \<Rightarrow> if u = t then (wk_objects K i)\<lparr>wo_mutex := Win_abandoned\<rparr> else wk_objects K i
        | _ \<Rightarrow> wk_objects K i)\<rparr>"

section \<open>The named recursive mutex\<close>

definition win_mutex_ctor :: "nat \<Rightarrow> bool \<Rightarrow> string \<Rightarrow> winkernel \<Rightarrow> nat result \<times> winkernel" where
  "win_mutex_ctor name_max create_ok name K =
     (if length name > name_max
      then (Inl (system_error (mutex_message ('': '' @ [CHR 0x27] @ name @ [CHR 0x27] @
        '' exceeds maximum lengths for shm names of '' @ dec_nat name_max))), K)
      else if \<not> create_ok then (Inl (system_error (''Failed to create mutex: '' @ name)), K)
      else (case win_create name [] K of (i, K1) \<Rightarrow> (Inr i, K1)))"

text \<open>The wait can fail, which \<open>lock\<close> does not look at. Waiting for an abandoned mutex makes the caller its owner.\<close>

definition win_lock :: "bool \<Rightarrow> nat \<Rightarrow> nat \<Rightarrow> winkernel \<Rightarrow> (unit result \<times> winkernel) option" where
  "win_lock wait_fails t i K =
     (if wait_fails then Some (Inr (), K)
      else (case wo_mutex (wk_objects K i) of
              Win_free \<Rightarrow> Some (Inr (), win_set_mutex i (Win_owned t 0) K)
            | Win_abandoned \<Rightarrow> Some (Inl (system_error (mutex_message ''::lock()'')), win_set_mutex i (Win_owned t 0) K)
            | Win_owned u n \<Rightarrow> if u = t then Some (Inr (), win_set_mutex i (Win_owned t (n + 1)) K) else None))"

definition win_unlock :: "nat \<Rightarrow> nat \<Rightarrow> winkernel \<Rightarrow> unit result \<times> winkernel" where
  "win_unlock t i K =
     (case wo_mutex (wk_objects K i) of
        Win_owned u n \<Rightarrow>
          if u = t then (Inr (), win_set_mutex i (if n = 0 then Win_free else Win_owned t (n - 1)) K)
          else (Inl (system_error (mutex_message ''::unlock()'')), K)
      | _ \<Rightarrow> (Inl (system_error (mutex_message ''::unlock()'')), K))"

section \<open>The shared memory segment\<close>

record win_choice =
  w_create_ok :: bool
  w_already_exists :: bool
  w_open_ok :: bool
  w_view_ok :: bool
  w_format_message :: "nat \<Rightarrow> string \<times> nat"
  w_last_error :: nat

record win_segment =
  ws_object :: nat
  ws_view :: nat
  ws_mutex :: nat

definition page_size :: nat where
  "page_size = 4096"

definition round_page :: "nat \<Rightarrow> nat" where
  "round_page n = (n + page_size - 1) div page_size * page_size"

definition win_message :: "win_choice \<Rightarrow> string \<Rightarrow> string \<Rightarrow> failure" where
  "win_message c s unique_identifier =
     sm_message (s @ '' for '' @ [CHR 0x27] @ unique_identifier @ [CHR 0x27] @ '': '' @
       get_last_windows_error_message (w_format_message c) (w_last_error c))"

definition win_segment_name :: "string \<Rightarrow> string" where
  "win_segment_name unique_identifier = ''Local'' @ [CHR 0x5C] @ ''s_'' @ unique_identifier"

text \<open>The handle of the mapping. A mapping that exists keeps its size; a new one has zeros on whole pages, and cannot be empty.\<close>

definition win_mapping :: "win_choice \<Rightarrow> string \<Rightarrow> nat \<Rightarrow> winkernel \<Rightarrow> nat result \<times> winkernel" where
  "win_mapping c unique_identifier seg_size K =
     (let name = win_segment_name unique_identifier; known = wk_names K name \<noteq> None
      in if w_create_ok c \<and> (0 < seg_size \<or> known)
         then (case win_create name (replicate (round_page seg_size) 0) K of (i, K1) \<Rightarrow> (Inr i, K1))
         else if w_already_exists c
         then (if w_open_ok c \<and> known then (case win_create name [] K of (i, K1) \<Rightarrow> (Inr i, K1))
               else (Inl (win_message c ''Failed to open existing shared memory'' unique_identifier), K))
         else (Inl (win_message c ''Failed to create file mapping'' unique_identifier), K))"

text \<open>Mapping zero bytes maps the whole object, and more than there is fails.\<close>

definition win_sm_body :: "win_choice \<Rightarrow> nat \<Rightarrow> string \<Rightarrow> nat \<Rightarrow> winkernel \<Rightarrow> win_segment result \<times> winkernel" where
  "win_sm_body c m unique_identifier seg_size K =
     (case win_mapping c unique_identifier seg_size K of
        (Inl e, K1) \<Rightarrow> (Inl e, K1)
      | (Inr i, K1) \<Rightarrow>
          (let available = length (wo_bytes (wk_objects K1 i)); view = (if seg_size = 0 then available else round_page seg_size)
           in if w_view_ok c \<and> view \<le> available then (Inr \<lparr>ws_object = i, ws_view = view, ws_mutex = m\<rparr>, K1)
              else (Inl (win_message c ''Failed to map view'' unique_identifier), CloseHandle i K1)))"

text \<open>When the body or the lock throws, the handle of the mutex is closed.\<close>

definition win_sm_ctor ::
  "nat \<Rightarrow> bool \<Rightarrow> bool \<Rightarrow> win_choice \<Rightarrow> nat \<Rightarrow> string \<Rightarrow> nat \<Rightarrow> winkernel \<Rightarrow> (win_segment guard_end \<times> winkernel) option" where
  "win_sm_ctor name_max create_ok wait_fails c t unique_identifier seg_size K =
     (case win_mutex_ctor name_max create_ok (''m_'' @ unique_identifier) K of
        (Inl e, K1) \<Rightarrow> Some (Ended (Inl e), K1)
      | (Inr m, K1) \<Rightarrow>
          (case with_guard (\<lambda>t. win_lock wait_fails t m) (\<lambda>t. win_unlock t m) t (win_sm_body c m unique_identifier seg_size) K1 of
             Some (Ended (Inl e), K2) \<Rightarrow> Some (Ended (Inl e), CloseHandle m K2)
           | r \<Rightarrow> r))"

text \<open>A lock that throws is caught, and the view stays.\<close>

definition win_sm_dtor :: "bool \<Rightarrow> nat \<Rightarrow> win_segment \<Rightarrow> winkernel \<Rightarrow> (unit guard_end \<times> winkernel) option" where
  "win_sm_dtor wait_fails t s K =
     (case with_guard (\<lambda>t. win_lock wait_fails t (ws_mutex s)) (\<lambda>t. win_unlock t (ws_mutex s)) t
        (\<lambda>K1. (Inr (), CloseHandle (ws_object s) K1)) K of
        Some (Ended r, K2) \<Rightarrow> Some (Ended (Inr ()), CloseHandle (ws_mutex s) K2)
      | r \<Rightarrow> r)"

definition win_capacity :: "win_segment \<Rightarrow> nat" where
  "win_capacity s = ws_view s"

definition win_data :: "win_segment \<Rightarrow> winkernel \<Rightarrow> bytes" where
  "win_data s K = take (ws_view s) (wo_bytes (wk_objects K (ws_object s)))"

text \<open>Writing to the memory behind \<open>data()\<close>.\<close>

definition win_write :: "win_segment \<Rightarrow> bytes \<Rightarrow> winkernel \<Rightarrow> winkernel" where
  "win_write s bs K =
     K\<lparr>wk_objects := (wk_objects K)(ws_object s := (wk_objects K (ws_object s))
         \<lparr>wo_bytes := bs @ drop (length bs) (wo_bytes (wk_objects K (ws_object s)))\<rparr>)\<rparr>"

section \<open>COM\<close>

text \<open>Each call that initializes, also one that finds COM initialized (\<open>S_FALSE\<close>, 1), has to be balanced. Elsewhere than on Windows
  the constructor is empty and leaves the member without a value.\<close>

definition com_ctor :: "bool \<Rightarrow> (bool \<Rightarrow> int) \<Rightarrow> bool \<Rightarrow> bool \<Rightarrow> nat \<Rightarrow> bool option result \<times> nat" where
  "com_ctor on_windows initialize multi_threaded do_throw initializations =
     (if \<not> on_windows then (Inr None, initializations)
      else (let hr = initialize multi_threaded; n = (if hr < 0 then initializations else initializations + 1)
            in if hr < 0 \<and> do_throw
               then (Inl (runtime_error ''acrion::acrion::platform::com_initializer: Could not initialize COM''), n)
               else (Inr (Some (hr = 0)), n)))"

definition com_dtor :: "bool \<Rightarrow> bool option \<Rightarrow> nat \<Rightarrow> nat" where
  "com_dtor on_windows deinitialize_on_destruction initializations =
     (if on_windows \<and> deinitialize_on_destruction = Some True then initializations - 1 else initializations)"

definition should_deinitialize_on_destruction :: "bool option \<Rightarrow> bool result" where
  "should_deinitialize_on_destruction m = (case m of None \<Rightarrow> Inl (undefined_behaviour invalid_value) | Some b \<Rightarrow> Inr b)"

section \<open>The mutex\<close>

lemma win_set_mutex_simps [simp]:
  "wk_names (win_set_mutex i m K) = wk_names K" "wk_next (win_set_mutex i m K) = wk_next K"
  "wo_bytes (wk_objects (win_set_mutex i m K) j) = wo_bytes (wk_objects K j)"
  "wo_references (wk_objects (win_set_mutex i m K) j) = wo_references (wk_objects K j)"
  "wo_mutex (wk_objects (win_set_mutex i m K) j) = (if j = i then m else wo_mutex (wk_objects K j))"
  "win_set_mutex i m' (win_set_mutex i m K) = win_set_mutex i m' K"
  by (simp_all add: win_set_mutex_def)

definition win_held :: "nat \<Rightarrow> winkernel \<Rightarrow> (nat \<times> nat) option" where
  "win_held i K = (case wo_mutex (wk_objects K i) of Win_owned t n \<Rightarrow> Some (t, n) | _ \<Rightarrow> None)"

definition win_usable :: "nat \<Rightarrow> winkernel \<Rightarrow> bool" where
  "win_usable i K \<longleftrightarrow> wo_mutex (wk_objects K i) \<noteq> Win_abandoned"

interpretation win_mutex: lockable "\<lambda>t. win_lock False t i" "\<lambda>t. win_unlock t i" "win_held i" "win_usable i"
    "win_set_mutex i Win_free" max_depth for max_depth i
  by unfold_locales
    (auto simp: win_held_def win_usable_def win_lock_def win_unlock_def split: win_mutex_state.splits nat.splits)

text \<open>Calls of other threads on a mutex.\<close>

fun others_call :: "nat \<Rightarrow> (nat \<times> bool) list \<Rightarrow> winkernel \<Rightarrow> winkernel" where
  "others_call i [] K = K"
| "others_call i ((u, is_lock) # calls) K =
     others_call i calls
       (if is_lock then (case win_lock False u i K of None \<Rightarrow> K | Some (_, K1) \<Rightarrow> K1) else snd (win_unlock u i K))"

lemma others_call_owned:
  "win_held i K = Some (t, n) \<Longrightarrow> \<forall>(u, b)\<in>set calls. u \<noteq> t \<Longrightarrow> others_call i calls K = K"
proof (induction calls)
  case (Cons c calls)
  obtain u b where c: "c = (u, b)" by (cases c)
  with Cons show ?case
    using win_mutex.lock_other [of i K t n u] win_mutex.unlock_other [of i K t n u] by (auto split: if_splits)
qed simp

text \<open>The first to lock a mutex that was abandoned gets an exception and the mutex: whatever others do, it stays locked.\<close>

lemma abandoned_lock_kept:
  assumes "wo_mutex (wk_objects K i) = Win_owned v n" and "t \<noteq> v" and "\<forall>(u, b)\<in>set calls. u \<noteq> t" and "u \<noteq> t"
  shows "\<exists>e K1. win_lock False t i (thread_ends v K) = Some (Inl e, K1) \<and> win_lock False u i (others_call i calls K1) = None"
proof -
  have K1: "win_lock False t i (thread_ends v K) =
      Some (Inl (system_error (mutex_message ''::lock()'')), win_set_mutex i (Win_owned t 0) (thread_ends v K))"
    using assms(1) by (simp add: win_lock_def thread_ends_def)
  have "win_held i (win_set_mutex i (Win_owned t 0) (thread_ends v K)) = Some (t, 0)"
    by (simp add: win_held_def)
  with K1 show ?thesis
    using others_call_owned [OF _ assms(3)] win_mutex.lock_other assms(4) by metis
qed

text \<open>A wait that fails is not noticed: the guard releases a mutex it does not have, and the program ends.\<close>

lemma failed_wait_terminates:
  assumes "win_held i K = None" and "\<And>K1. win_held i (snd (body K1)) = win_held i K1"
  shows "\<exists>K1. with_guard (\<lambda>t. win_lock True t i) (\<lambda>t. win_unlock t i) t body K = Some (Terminated, K1)"
  using assms(1) assms(2) [of K]
  by (cases "body K") (auto simp: with_guard_def win_lock_def win_unlock_def win_held_def split: win_mutex_state.splits)

section \<open>The segment\<close>

lemma round_page_bounds: "n \<le> round_page n" "round_page n < n + page_size"
proof -
  have "(n + 4095) div 4096 * 4096 + (n + 4095) mod 4096 = n + 4095"
    by (rule div_mult_mod_eq)
  moreover have "(n + 4095) mod 4096 < 4096" by simp
  ultimately show "n \<le> round_page n" "round_page n < n + page_size"
    by (simp_all add: round_page_def page_size_def)
qed

text \<open>A segment open \<open>n\<close> times, with nobody at work in it.\<close>

definition win_open :: "win_segment \<Rightarrow> string \<Rightarrow> nat \<Rightarrow> winkernel \<Rightarrow> bool" where
  "win_open s ident n K \<longleftrightarrow> wk_names K (''m_'' @ ident) = Some (ws_mutex s) \<and> wk_names K (win_segment_name ident) = Some (ws_object s) \<and>
     ws_mutex s \<noteq> ws_object s \<and> wo_references (wk_objects K (ws_mutex s)) = n \<and> wo_references (wk_objects K (ws_object s)) = n \<and>
     wo_mutex (wk_objects K (ws_mutex s)) = Win_free \<and> ws_view s \<le> length (wo_bytes (wk_objects K (ws_object s)))"

definition win_succeeds :: "win_choice \<Rightarrow> bool" where
  "win_succeeds c \<longleftrightarrow> w_create_ok c \<and> w_view_ok c"

lemma segment_name_other [simp]: "win_segment_name ident \<noteq> CHR ''m'' # xs" "CHR ''m'' # xs \<noteq> win_segment_name ident"
  by (simp_all add: win_segment_name_def)

lemma win_ctor_new:
  assumes "wk_names K (''m_'' @ ident) = None" and "wk_names K (win_segment_name ident) = None"
    and "win_succeeds c" and "0 < seg_size" and "length (''m_'' @ ident) \<le> name_max"
  shows "\<exists>s K1. win_sm_ctor name_max True False c t ident seg_size K = Some (Ended (Inr s), K1) \<and> win_open s ident 1 K1 \<and>
    ws_view s = round_page seg_size \<and> wo_bytes (wk_objects K1 (ws_object s)) = replicate (round_page seg_size) 0"
  using assms
  by (simp add: win_sm_ctor_def win_mutex_ctor_def win_create_def with_guard_def win_lock_def win_sm_body_def win_mapping_def
      Let_def win_unlock_def win_succeeds_def win_open_def win_set_mutex_def)

lemma win_ctor_again:
  assumes "win_open s ident n K" and "win_succeeds c" and "length (''m_'' @ ident) \<le> name_max"
    and "round_page seg_size \<le> length (wo_bytes (wk_objects K (ws_object s)))" and "0 < seg_size"
  shows "\<exists>s' K1. win_sm_ctor name_max True False c t ident seg_size K = Some (Ended (Inr s'), K1) \<and> win_open s' ident (n + 1) K1 \<and>
    ws_object s' = ws_object s \<and> ws_mutex s' = ws_mutex s \<and> ws_view s' = round_page seg_size \<and>
    wo_bytes (wk_objects K1 (ws_object s)) = wo_bytes (wk_objects K (ws_object s))"
  using assms
  by (simp add: win_sm_ctor_def win_mutex_ctor_def win_create_def with_guard_def win_lock_def win_sm_body_def win_mapping_def
      Let_def win_unlock_def win_succeeds_def win_open_def win_set_mutex_def)

lemma win_dtor_open:
  assumes "win_open s ident (Suc n) K"
  shows "\<exists>K1. win_sm_dtor False t s K = Some (Ended (Inr ()), K1) \<and>
    (if n = 0 then wk_names K1 (''m_'' @ ident) = None \<and> wk_names K1 (win_segment_name ident) = None
     else win_open s ident n K1 \<and> wo_bytes (wk_objects K1 (ws_object s)) = wo_bytes (wk_objects K (ws_object s)))"
  using assms
  by (simp add: win_sm_dtor_def with_guard_def win_lock_def CloseHandle_def Let_def win_unlock_def win_open_def win_set_mutex_def)

lemma win_write_open:
  assumes "win_open s ident n K" and "length bs = length (wo_bytes (wk_objects K (ws_object s)))"
  shows "win_open s ident n (win_write s bs K)" and "wo_bytes (wk_objects (win_write s bs K) (ws_object s)) = bs"
  using assms by (auto simp: win_open_def win_write_def)

lemma win_open_same:
  "win_open s ident n K \<Longrightarrow> ws_object s' = ws_object s \<Longrightarrow> ws_mutex s' = ws_mutex s \<Longrightarrow> ws_view s' = ws_view s \<Longrightarrow> win_open s' ident n K"
  by (simp add: win_open_def)


definition win_demo_choice :: win_choice where
  "win_demo_choice = \<lparr>w_create_ok = True, w_already_exists = False, w_open_ok = True, w_view_ok = True,
     w_format_message = (\<lambda>code. (dec_nat code, code)), w_last_error = 0\<rparr>"

definition win_demo_kernel :: winkernel where
  "win_demo_kernel = \<lparr>wk_names = (\<lambda>_. None), wk_objects = (\<lambda>_. \<lparr>wo_references = 0, wo_mutex = Win_free, wo_bytes = []\<rparr>), wk_next = 0\<rparr>"


section \<open>Texts and COM\<close>

text \<open>The message is never empty; it is the text of the error when the system has one and keeps the code, and otherwise what
  the second attempt finds for the failure of the first.\<close>

lemma windows_error_message:
  "get_last_windows_error_message fm code \<noteq> []"
  "fm code = (text, code) \<Longrightarrow> text \<noteq> [] \<Longrightarrow> get_last_windows_error_message fm code = text"
  "fm code = ([], code') \<Longrightarrow> fm code' = (text, code'') \<Longrightarrow> text \<noteq> [] \<Longrightarrow> get_last_windows_error_message fm code = text"
  by (simp_all add: get_last_windows_error_message_def numeral_2_eq_2 Let_def split: prod.split)

text \<open>The life of a \<open>com_initializer\<close> leaves the number of initializations as it was, unless COM was initialized before.\<close>

lemma com_balance:
  assumes "com_ctor True initialize multi_threaded do_throw n = (Inr m, n')"
  shows "com_dtor True m n' = (if initialize multi_threaded > 0 then n + 1 else n)"
  using assms by (auto simp: com_ctor_def com_dtor_def Let_def split: if_splits)

lemma com_elsewhere:
  "com_ctor False initialize multi_threaded do_throw n = (Inr None, n)"
  "should_deinitialize_on_destruction None = Inl (undefined_behaviour invalid_value)"
  by (simp_all add: com_ctor_def should_deinitialize_on_destruction_def)

end
