(* ===== verification/Other_Platforms.thy ===== *)
theory Other_Platforms
  imports Platform Windows_Code
begin

text \<open>
  What \<^verbatim>\<open>platform/system_folders.hpp\<close>, \<^verbatim>\<open>platform/runtime.hpp\<close> and \<^verbatim>\<open>concurrency/thread.hpp\<close> do on Windows and macOS where \<^verbatim>\<open>Platform\<close> and
  \<^verbatim>\<open>Thread_Name\<close> have the Linux code: folders, the path of the binary, and the names of threads. The calls of the system are arguments.
\<close>

section \<open>Folders\<close>

text \<open>\<open>known_folder\<close> is the answer of \<open>SHGetKnownFolderPath\<close>.\<close>

definition win_home_dir :: "string option \<Rightarrow> folders \<Rightarrow> string result \<times> folders" where
  "win_home_dir known_folder F =
     (if home_folder F = [] then
        (case known_folder of
           None \<Rightarrow> (Inl (runtime_error (''Failed to determine path to user'' @ [CHR 0x27] @ ''s home directory (FOLDERID_Profile)'')), F)
         | Some d \<Rightarrow> (Inr d, F\<lparr>home_folder := d\<rparr>))
      else (Inr (home_folder F), F))"

definition win_user_data_dir :: "string option \<Rightarrow> (string \<Rightarrow> bool) \<Rightarrow> string result" where
  "win_user_data_dir known_folder exists_path =
     (case known_folder of
        None \<Rightarrow> Inl (runtime_error ''Failed to determine Cbeam %APPDATA% path'')
      | Some d \<Rightarrow> expect_exists exists_path d)"

definition win_user_cache_dir :: "string option \<Rightarrow> (string \<Rightarrow> bool) \<Rightarrow> string result" where
  "win_user_cache_dir known_folder exists_path =
     (case known_folder of
        None \<Rightarrow> Inl (runtime_error ''Failed to determine %LOCALAPPDATA% path'')
      | Some d \<Rightarrow> expect_exists exists_path d)"

definition mac_user_data_dir :: "string option \<Rightarrow> (string \<Rightarrow> bool) \<Rightarrow> folders \<Rightarrow> string result \<times> folders" where
  "mac_user_data_dir pw_dir exists_path F =
     (case get_home_dir pw_dir F of
        (Inl e, F') \<Rightarrow> (Inl e, F')
      | (Inr h, F') \<Rightarrow> (expect_exists exists_path (path_append (path_append h ''Library'') ''Application Support''), F'))"

definition mac_user_cache_dir :: "string option \<Rightarrow> (string \<Rightarrow> bool) \<Rightarrow> folders \<Rightarrow> string result \<times> folders" where
  "mac_user_cache_dir pw_dir exists_path F =
     (case get_home_dir pw_dir F of
        (Inl e, F') \<Rightarrow> (Inl e, F')
      | (Inr h, F') \<Rightarrow> (expect_exists exists_path (path_append (path_append h ''Library'') ''Caches''), F'))"

section \<open>The path of the binary\<close>

definition module_path_failed :: "(nat \<Rightarrow> string \<times> nat) \<Rightarrow> nat \<Rightarrow> failure" where
  "module_path_failed format_message last_error =
     runtime_error (''Failed to determine path to current binary: '' @ get_last_windows_error_message format_message last_error)"

text \<open>The loop around \<open>GetModuleFileNameW\<close>: \<open>file k\<close> is the path at the \<open>k\<close>-th call, empty when the call fails, of which it stores as
  much as fits. The size is passed as 32 bits.\<close>

partial_function (option) module_path_loop :: "failure \<Rightarrow> (nat \<Rightarrow> string) \<Rightarrow> nat \<Rightarrow> nat \<Rightarrow> string result option" where
  "module_path_loop e file k size_of_buffer =
     (let len = min (length (file k)) (size_of_buffer mod 2 ^ 32)
      in if len = 0 then Some (Inl e)
         else if len < size_of_buffer - 1 then Some (Inr (take len (file k)))
         else module_path_loop e file (k + 1) (size_of_buffer * 2))"

declare module_path_loop.simps [code]

text \<open>Without a handle of the module the path of the program is asked for.\<close>

definition win_binary_path ::
  "(nat \<Rightarrow> string \<times> nat) \<Rightarrow> nat \<Rightarrow> 'h option \<Rightarrow> ('h option \<Rightarrow> nat \<Rightarrow> string) \<Rightarrow> (string \<Rightarrow> bool) \<Rightarrow> bool \<Rightarrow> folders \<Rightarrow>
   (string result \<times> folders) option" where
  "win_binary_path format_message last_error module_handle file exists_path include_filename F =
     cached_binary_path (module_path_loop (module_path_failed format_message last_error) (file module_handle) 0 1024)
       exists_path include_filename F"

text \<open>On macOS the first call only asks for the size and has to fail.\<close>

definition mac_executable_path :: "int \<Rightarrow> int \<Rightarrow> string \<Rightarrow> (string \<Rightarrow> string option) \<Rightarrow> string result" where
  "mac_executable_path first_call second_call executable realpath =
     (if first_call \<noteq> -1 then Inl (runtime_error ''Failed to determine required buffer size for _NSGetExecutablePath'')
      else if second_call \<noteq> 0 then Inl (runtime_error ''Failed to determine path to current binary via _NSGetExecutablePath'')
      else Inr (case realpath executable of Some resolved \<Rightarrow> resolved | None \<Rightarrow> executable))"

definition mac_binary_path ::
  "int \<Rightarrow> int \<Rightarrow> string \<Rightarrow> (string \<Rightarrow> string option) \<Rightarrow> (string \<Rightarrow> bool) \<Rightarrow> bool \<Rightarrow> folders \<Rightarrow> (string result \<times> folders) option" where
  "mac_binary_path first_call second_call executable realpath exists_path include_filename F =
     cached_binary_path (Some (mac_executable_path first_call second_call executable realpath)) exists_path include_filename F"

text \<open>The other function for the path of a binary has one buffer of \<open>MAX_PATH\<close> characters, which a longer path fills except for the
  terminating zero; the call then returns the size of the buffer.\<close>

definition MAX_PATH :: nat where
  "MAX_PATH = 260"

definition win_runtime_binary ::
  "(nat \<Rightarrow> string \<times> nat) \<Rightarrow> nat \<Rightarrow> 'h option \<Rightarrow> ('h \<Rightarrow> string) \<Rightarrow> (string \<Rightarrow> string) \<Rightarrow> string result" where
  "win_runtime_binary format_message last_error module_handle file absolute =
     (case module_handle of
        Some hm \<Rightarrow>
          if min (length (file hm)) MAX_PATH \<noteq> 0 then Inr (absolute (take (MAX_PATH - 1) (file hm)))
          else Inl (runtime_error (''cbeam::platform::get_path_to_runtime_binary: Could not get path to current runtime binary: '' @
            get_last_windows_error_message format_message last_error))
      | None \<Rightarrow>
          Inl (runtime_error (''cbeam::platform::get_path_to_runtime_binary: Could not get path to current runtime binary: '' @
            get_last_windows_error_message format_message last_error)))"

section \<open>Thread names\<close>

text \<open>The conversion gives the size it needs, 0 when it fails, and then the text.\<close>

definition set_thread_name_by_handle ::
  "(string \<Rightarrow> nat) \<Rightarrow> (string \<Rightarrow> 'w list option) \<Rightarrow> nat \<Rightarrow> string \<Rightarrow> (nat \<Rightarrow> 'w list) \<Rightarrow> nat \<Rightarrow> 'w list" where
  "set_thread_name_by_handle wide_size convert thread_handle thread_name D =
     (if wide_size thread_name = 0 then D
      else (case convert thread_name of None \<Rightarrow> D | Some wide_name \<Rightarrow> D(thread_handle := wide_name)))"

section \<open>Lemmas\<close>

text \<open>As on Linux, the buffer passes every bound on the length of the path, if the bound is one that 32 bits hold.\<close>

lemma module_path_loop_ends:
  assumes bound: "\<And>k. length (file k) < L" and "L < 2 ^ 31" and "2 \<le> n" and "n < 2 ^ 32"
  shows "\<exists>j. module_path_loop e file k n = Some (if file j = [] then Inl e else Inr (file j))"
  using assms(3,4)
proof (induction "L + 2 - n" arbitrary: k n rule: less_induct)
  case less
  show ?case
  proof (cases "length (file k) < n - 1")
    case True
    then have "module_path_loop e file k n = Some (if file k = [] then Inl e else Inr (file k))"
      using less.prems by (subst module_path_loop.simps) (simp add: Let_def)
    then show ?thesis by auto
  next
    case False
    then have n: "n \<le> L" and dec: "L + 2 - n * 2 < L + 2 - n"
      using bound [of k] less.prems by linarith+
    have "module_path_loop e file k n = module_path_loop e file (k + 1) (n * 2)"
      using False less.prems by (subst module_path_loop.simps) (auto simp: Let_def)
    moreover have "\<exists>j. module_path_loop e file (k + 1) (n * 2) = Some (if file j = [] then Inl e else Inr (file j))"
      by (rule less.hyps [OF dec]) (use less.prems n assms(2) in simp_all)
    ultimately show ?thesis by (simp only:)
  qed
qed

lemma win_binary_path_complete:
  assumes "\<And>k. length (file module_handle k) < L" and "L < 2 ^ 31" and "cached_full_path F = []"
  shows "\<exists>r F'. win_binary_path fm last_error module_handle file exists_path True F = Some (r, F') \<and>
    ((\<exists>k. file module_handle k = []) \<and> r = Inl (module_path_failed fm last_error) \<or>
     (\<exists>k. file module_handle k \<noteq> [] \<and> r = expect_exists exists_path (file module_handle k)))"
proof -
  obtain j where "module_path_loop (module_path_failed fm last_error) (file module_handle) 0 1024 =
      Some (if file module_handle j = [] then Inl (module_path_failed fm last_error) else Inr (file module_handle j))"
    using module_path_loop_ends [of "file module_handle" L 1024 "module_path_failed fm last_error" 0] assms(1,2) by auto
  then show ?thesis
    using assms(3) by (auto simp: win_binary_path_def cached_binary_path_def split: if_splits)
qed

text \<open>The second call on macOS finds what the first has stored, or asks again after a failure.\<close>

lemma mac_binary_path_cached:
  assumes "mac_binary_path a b p rp exists_path True F = Some (Inr q, F')" and "q \<noteq> []"
  shows "mac_binary_path a' b' p' rp' exists_path True F' = Some (Inr q, F')"
  using assms by (auto simp: mac_binary_path_def cached_binary_path_def expect_exists_def split: if_splits sum.splits)

text \<open>A folder that is returned exists, on every platform.\<close>

lemma returned_folder_exists:
  "expect_exists exists_path p = Inr q \<Longrightarrow> exists_path q"
  "win_user_data_dir known_folder exists_path = Inr q \<Longrightarrow> exists_path q"
  "win_user_cache_dir known_folder exists_path = Inr q \<Longrightarrow> exists_path q"
  "fst (mac_user_data_dir pw_dir exists_path F) = Inr q \<Longrightarrow> exists_path q"
  "fst (mac_user_cache_dir pw_dir exists_path F) = Inr q \<Longrightarrow> exists_path q"
  by (auto simp: expect_exists_def win_user_data_dir_def win_user_cache_dir_def mac_user_data_dir_def mac_user_cache_dir_def
      split: if_splits option.splits sum.splits prod.splits)

text \<open>A path that does not fit the buffer is cut off without an exception.\<close>

lemma win_runtime_binary_truncated:
  "win_runtime_binary fm last_error (Some hm) file id = Inr p \<Longrightarrow> p = take 259 (file hm)"
  "MAX_PATH \<le> length (file hm) \<Longrightarrow> \<exists>p. win_runtime_binary fm last_error (Some hm) file id = Inr p \<and> length p < length (file hm)"
  by (auto simp: win_runtime_binary_def MAX_PATH_def split: if_splits)

lemma set_thread_name_by_handle_other:
  "u \<noteq> thread_handle \<Longrightarrow> set_thread_name_by_handle wide_size convert thread_handle thread_name D u = D u"
  by (simp add: set_thread_name_by_handle_def split: option.split)

end
