(* ===== verification/Errors.thy ===== *)
theory Errors
  imports Cbeam_Prelude
begin

text \<open>
  The exception classes of \<^verbatim>\<open>error/*.hpp\<close> with their bases: which handler catches which exception, and which text
  \<open>what()\<close> gives through the type the handler names. \<open>base_error::what\<close> is not virtual, so through a \<open>base_error\<close> the text of the
  exception is not seen. The text that \<open>std::system_error\<close> makes of a message and \<open>errno\<close>, and the texts of the standard
  exceptions that take none, are arguments.
\<close>

datatype cpp_class =
    base_error_class
  | runtime_error_class | logic_error_class | out_of_range_class | overflow_error_class | system_error_class | bad_alloc_class
  | std_exception | std_runtime_error | std_logic_error | std_out_of_range | std_overflow_error | std_system_error
  | std_bad_alloc_class | std_length_error | std_bad_function_call

fun bases :: "cpp_class \<Rightarrow> cpp_class list" where
  "bases runtime_error_class = [base_error_class, std_runtime_error]"
| "bases logic_error_class = [base_error_class, std_logic_error]"
| "bases out_of_range_class = [base_error_class, std_out_of_range]"
| "bases overflow_error_class = [base_error_class, std_overflow_error]"
| "bases system_error_class = [base_error_class, std_system_error]"
| "bases bad_alloc_class = [base_error_class, std_bad_alloc_class]"
| "bases std_runtime_error = [std_exception]"
| "bases std_logic_error = [std_exception]"
| "bases std_out_of_range = [std_logic_error]"
| "bases std_length_error = [std_logic_error]"
| "bases std_overflow_error = [std_runtime_error]"
| "bases std_system_error = [std_runtime_error]"
| "bases std_bad_alloc_class = [std_exception]"
| "bases std_bad_function_call = [std_exception]"
| "bases c = []"

inductive derived :: "cpp_class \<Rightarrow> cpp_class \<Rightarrow> bool" where
  refl: "derived c c"
| step: "b \<in> set (bases c) \<Longrightarrow> derived b d \<Longrightarrow> derived c d"

inductive_cases derivedE: "derived c d"

text \<open>The class of a thrown object; undefined behaviour is none.\<close>

fun class_of :: "failure \<Rightarrow> cpp_class option" where
  "class_of (runtime_error s) = Some runtime_error_class"
| "class_of (logic_error s) = Some logic_error_class"
| "class_of (out_of_range s) = Some out_of_range_class"
| "class_of (overflow_error s) = Some overflow_error_class"
| "class_of (system_error s) = Some system_error_class"
| "class_of bad_alloc = Some bad_alloc_class"
| "class_of std_bad_alloc = Some std_bad_alloc_class"
| "class_of bad_function_call = Some std_bad_function_call"
| "class_of length_error = Some std_length_error"
| "class_of model_out_of_fuel = None"
| "class_of (undefined_behaviour u) = None"

definition caught_by :: "cpp_class \<Rightarrow> failure \<Rightarrow> bool" where
  "caught_by c e \<longleftrightarrow> (\<exists>d. class_of e = Some d \<and> derived d c)"

text \<open>\<open>what()\<close> of the object itself, and through a reference of type \<open>c\<close>.\<close>

definition what_text :: "(string \<Rightarrow> string) \<Rightarrow> (cpp_class \<Rightarrow> string) \<Rightarrow> failure \<Rightarrow> string" where
  "what_text system_what std_text e =
     (case e of
        runtime_error s \<Rightarrow> s | logic_error s \<Rightarrow> s | out_of_range s \<Rightarrow> s | overflow_error s \<Rightarrow> s
      | system_error s \<Rightarrow> system_what s
      | _ \<Rightarrow> (case class_of e of Some c \<Rightarrow> std_text c | None \<Rightarrow> []))"

definition what_through :: "cpp_class \<Rightarrow> (string \<Rightarrow> string) \<Rightarrow> (cpp_class \<Rightarrow> string) \<Rightarrow> failure \<Rightarrow> string" where
  "what_through c system_what std_text e =
     (if c = base_error_class then ''cbeam::error::base_error'' else what_text system_what std_text e)"

fun of_cbeam :: "failure \<Rightarrow> bool" where
  "of_cbeam (runtime_error s) = True"
| "of_cbeam (logic_error s) = True"
| "of_cbeam (out_of_range s) = True"
| "of_cbeam (overflow_error s) = True"
| "of_cbeam (system_error s) = True"
| "of_cbeam bad_alloc = True"
| "of_cbeam e = False"

lemma derived_std_base: "derived c base_error_class \<Longrightarrow> c = base_error_class \<or> base_error_class \<in> set (bases c)"
proof (induction c base_error_class rule: derived.induct)
  case (step b c)
  then show ?case by (cases c) auto
qed simp

text \<open>Derivation is a partial order: a class comes after its bases.\<close>

fun class_depth :: "cpp_class \<Rightarrow> nat" where
  "class_depth base_error_class = 0"
| "class_depth std_exception = 0"
| "class_depth std_runtime_error = 1"
| "class_depth std_logic_error = 1"
| "class_depth std_bad_alloc_class = 1"
| "class_depth std_bad_function_call = 1"
| "class_depth std_out_of_range = 2"
| "class_depth std_length_error = 2"
| "class_depth std_overflow_error = 2"
| "class_depth std_system_error = 2"
| "class_depth c = 3"

lemma bases_depth: "b \<in> set (bases c) \<Longrightarrow> class_depth b < class_depth c"
  by (cases c) auto

lemma derived_depth: "derived c d \<Longrightarrow> c = d \<or> class_depth d < class_depth c"
  by (induction rule: derived.induct) (auto dest: bases_depth)

lemma derived_trans: "derived c d \<Longrightarrow> derived d e \<Longrightarrow> derived c e"
  by (induction rule: derived.induct) (auto intro: derived.step)

lemma derived_antisym: "derived c d \<Longrightarrow> derived d c \<Longrightarrow> c = d"
  using derived_depth [of c d] derived_depth [of d c] by auto

instantiation cpp_class :: order
begin

definition less_eq_cpp_class :: "cpp_class \<Rightarrow> cpp_class \<Rightarrow> bool" where
  "less_eq_cpp_class c d = derived c d"

definition less_cpp_class :: "cpp_class \<Rightarrow> cpp_class \<Rightarrow> bool" where
  "less_cpp_class c d = (derived c d \<and> \<not> derived d c)"

instance
  by standard
    (auto simp: less_eq_cpp_class_def less_cpp_class_def intro: derived.refl derived_trans derived_antisym)

end

text \<open>So a handler for a class catches whatever a handler for a class derived from it catches.\<close>

lemma caught_by_mono: "c \<le> d \<Longrightarrow> caught_by c e \<Longrightarrow> caught_by d e"
  by (auto simp: caught_by_def less_eq_cpp_class_def intro: derived_trans)

text \<open>A handler for \<open>base_error\<close> catches exactly the exceptions of Cbeam, and every exception is caught as a \<open>std::exception\<close>;
  through the former the text is lost.\<close>

lemma handlers:
  "caught_by base_error_class e \<longleftrightarrow> of_cbeam e"
  "class_of e \<noteq> None \<Longrightarrow> caught_by std_exception e"
  "what_through base_error_class system_what std_text (runtime_error s) = ''cbeam::error::base_error''"
  "what_through std_exception system_what std_text (runtime_error s) = s"
proof -
  show "caught_by base_error_class e \<longleftrightarrow> of_cbeam e"
  proof
    assume "caught_by base_error_class e"
    then obtain d where "class_of e = Some d" and "d = base_error_class \<or> base_error_class \<in> set (bases d)"
      using derived_std_base by (auto simp: caught_by_def)
    then show "of_cbeam e" by (cases e) auto
  next
    assume "of_cbeam e"
    then show "caught_by base_error_class e"
      by (cases e) (auto simp: caught_by_def intro: derived.step [OF _ derived.refl])
  qed
  have one: "derived b d" if "d \<in> set (bases b)" for b d
    using derived.step [OF that derived.refl] .
  have two: "derived c e" if "b \<in> set (bases c)" "d \<in> set (bases b)" "e \<in> set (bases d)" for b c d e
    using derived.step [OF that(1) derived.step [OF that(2) one [OF that(3)]]] .
  show "class_of e \<noteq> None \<Longrightarrow> caught_by std_exception e"
    using two [of std_out_of_range out_of_range_class std_logic_error std_exception]
      two [of std_overflow_error overflow_error_class std_runtime_error std_exception]
      two [of std_system_error system_error_class std_runtime_error std_exception]
      derived.step [OF _ one [of std_exception std_runtime_error], of runtime_error_class]
      derived.step [OF _ one [of std_exception std_logic_error], of logic_error_class]
      derived.step [OF _ one [of std_exception std_bad_alloc_class], of bad_alloc_class]
      derived.step [OF _ one [of std_exception std_logic_error], of std_length_error]
      one [of std_exception std_bad_alloc_class] one [of std_exception std_bad_function_call]
    by (cases e) (simp_all add: caught_by_def)
qed (simp_all add: what_through_def what_text_def)

end
