(* ===== verification/Shared_Array.thy ===== *)
theory Shared_Array
  imports C_Heap
begin

text \<open>
  \<^verbatim>\<open>container/shared_array.hpp\<close>: \<open>make_shared_array\<close>, an array under a \<open>std::shared_ptr\<close> whose deleter is \<open>delete[]\<close>, for elements
  without constructors. The state is the heap and, for each array, the number of owners in its control block. The allocator's choice
  for the array and whether the control block can be allocated are arguments.
\<close>

record arrays =
  ar_heap :: heap
  ar_owners :: "addr \<Rightarrow> nat"

definition delete_array :: "addr \<Rightarrow> arrays \<Rightarrow> unit result \<times> arrays" where
  "delete_array p A = (case heap_free p (ar_heap A) of (r, h) \<Rightarrow> (r, A\<lparr>ar_heap := h\<rparr>))"

text \<open>A size that does not fit throws \<open>std::bad_array_new_length\<close>, a \<open>std::bad_alloc\<close>. If the control block cannot be allocated, the
  constructor of the \<open>std::shared_ptr\<close> runs the deleter.\<close>

definition make_shared_array :: "choice \<Rightarrow> bool \<Rightarrow> nat \<Rightarrow> nat \<Rightarrow> arrays \<Rightarrow> addr result \<times> arrays" where
  "make_shared_array c control_block_ok sizeof_T n A =
     (if size_limit \<le> n * sizeof_T then (Inl std_bad_alloc, A)
      else (case heap_malloc c (n * sizeof_T) (ar_heap A) of
              (p, h) \<Rightarrow>
                if p = nullptr then (Inl std_bad_alloc, A)
                else if control_block_ok then (Inr p, A\<lparr>ar_heap := h, ar_owners := (ar_owners A)(p := 1)\<rparr>)
                else (case delete_array p (A\<lparr>ar_heap := h\<rparr>) of
                        (Inl e, A1) \<Rightarrow> (Inl e, A1)
                      | (Inr _, A1) \<Rightarrow> (Inl std_bad_alloc, A1))))"

text \<open>A \<open>std::shared_ptr\<close> to the array is copied or destroyed.\<close>

definition share_array :: "addr \<Rightarrow> arrays \<Rightarrow> unit result \<times> arrays" where
  "share_array p A =
     (if ar_owners A p = 0 then (Inl (undefined_behaviour use_after_free), A)
      else (Inr (), A\<lparr>ar_owners := (ar_owners A)(p := ar_owners A p + 1)\<rparr>))"

definition drop_array :: "addr \<Rightarrow> arrays \<Rightarrow> unit result \<times> arrays" where
  "drop_array p A =
     (if ar_owners A p = 0 then (Inl (undefined_behaviour use_after_free), A)
      else (let A1 = A\<lparr>ar_owners := (ar_owners A)(p := ar_owners A p - 1)\<rparr>
            in if ar_owners A p = 1 then delete_array p A1 else (Inr (), A1)))"

datatype array_use = Share | Drop

fun use_array :: "addr \<Rightarrow> array_use list \<Rightarrow> arrays \<Rightarrow> unit result \<times> arrays" where
  "use_array p [] A = (Inr (), A)"
| "use_array p (u # us) A =
     (case (case u of Share \<Rightarrow> share_array p A | Drop \<Rightarrow> drop_array p A) of
        (Inl e, A1) \<Rightarrow> (Inl e, A1)
      | (Inr _, A1) \<Rightarrow> use_array p us A1)"

text \<open>The owners after some uses, or nothing if one of them used an array without owners.\<close>

fun owners_after :: "array_use list \<Rightarrow> nat \<Rightarrow> nat option" where
  "owners_after [] n = Some n"
| "owners_after (u # us) n = (if n = 0 then None else owners_after us (case u of Share \<Rightarrow> n + 1 | Drop \<Rightarrow> n - 1))"

text \<open>The array is there as long as it has owners, and is freed with the last of them; nothing else changes.\<close>

lemma use_array_owners:
  assumes "owners_after us (ar_owners A p) = Some n" and "p \<noteq> nullptr" and "ar_owners A p \<noteq> 0 \<Longrightarrow> ar_heap A p = Some bs"
  shows "\<exists>A2. use_array p us A = (Inr (), A2) \<and> ar_owners A2 p = n \<and>
    ar_heap A2 = (if n = 0 \<and> ar_owners A p \<noteq> 0 then (ar_heap A)(p := None) else ar_heap A)"
  using assms
proof (induction us arbitrary: A)
  case (Cons u us)
  then have live: "ar_owners A p \<noteq> 0" "ar_heap A p = Some bs"
    by (auto split: if_splits)
  show ?case
  proof (cases u)
    case Share
    then show ?thesis
      using Cons.prems live Cons.IH [of "A\<lparr>ar_owners := (ar_owners A)(p := ar_owners A p + 1)\<rparr>"]
      by (auto simp: share_array_def split: if_splits)
  next
    case Drop
    show ?thesis
    proof (cases "ar_owners A p = 1")
      case True
      then have "us = []" "n = 0"
        using Drop Cons.prems(1) by (cases us; simp)+
      then show ?thesis
        using Drop True live Cons.prems(2) by (simp add: drop_array_def delete_array_def heap_free_live fun_eq_iff)
    next
      case False
      then show ?thesis
        using Drop Cons.prems live Cons.IH [of "A\<lparr>ar_owners := (ar_owners A)(p := ar_owners A p - 1)\<rparr>"]
        by (auto simp: drop_array_def Let_def split: if_splits)
    qed
  qed
qed auto

text \<open>From making the array to dropping its last owner the heap is the one before, and so it is when making fails.\<close>

lemma shared_array_life:
  assumes "make_shared_array c control_block_ok sizeof_T n A = (r, A1)"
  shows "case r of
      Inl e \<Rightarrow> e = std_bad_alloc \<and> ar_heap A1 = ar_heap A
    | Inr p \<Rightarrow> (\<exists>bs. ar_heap A1 p = Some bs \<and> length bs = n * sizeof_T) \<and>
        (owners_after us 1 = Some 0 \<longrightarrow> (\<exists>A2. use_array p us A1 = (Inr (), A2) \<and> ar_heap A2 = ar_heap A))"
proof (cases r)
  case (Inl e)
  with assms show ?thesis
    by (auto simp: make_shared_array_def delete_array_def heap_malloc_def heap_free_def fun_upd_idem split: if_splits)
next
  case (Inr p)
  then have A1: "A1 = A\<lparr>ar_heap := (ar_heap A)(p \<mapsto> map (snd c) [0..<n * sizeof_T]), ar_owners := (ar_owners A)(p := 1)\<rparr>"
    and p: "p \<noteq> nullptr" "ar_heap A p = None"
    using assms by (auto simp: make_shared_array_def delete_array_def heap_malloc_def heap_free_def split: if_splits)
  then show ?thesis
    using Inr use_array_owners [of us A1 p 0] by (auto simp: fun_upd_idem)
qed

end
