(* ===== verification/Spec2Isabelle.thy ===== *)
theory Spec2Isabelle
  imports Srb_System Direct_Serialize Message_Manager Circular_Buffer Item_Registry
    Serialization_Bounds Singleton Thread_Safe Pointer Json Utf8 Filesystem_Path Convert_Map Shared_Memory Logging
    Router_Dispose Segment_Opening Thread_Name Other_Platforms Errors Shared_Array
begin

text \<open>
  A model of Cbeam, a header-only C++ library for stable memory ownership across shared libraries, message
  passing between threads, serialization and file system helpers. All sources are under
  \<^verbatim>\<open>src/include/cbeam\<close>; the file names below are relative to it.

  \<^bold>\<open>The parts and how they interact.\<close> A \<open>buffer\<close> owns one block of the C heap. A \<open>stable_reference_buffer\<close> is a
  \<open>buffer\<close> whose block has a use count in a table in shared memory, so that modules with their own copies
  of the library agree on who frees it; the table is a \<open>stable_interprocess_map\<close>, which reads and writes its
  map through the binary serialization. \<open>memory::pointer\<close> keeps such a buffer alive behind a raw address, and
  \<open>serialize\<close> returns one. \<open>nested_map\<close> with values of type \<open>xpod\<close> is what applications serialize, print or write as
  JSON. \<open>message_manager\<close> with its \<open>threaded_object\<close> workers, the singletons, the item registry, the ring buffer and the
  thread-safe containers stand beside this.

  \<^bold>\<open>Conventions.\<close> Every operation is a function from the state to a result and a state; a result
  is \<open>failure + 'a\<close> (\<^verbatim>\<open>Cbeam_Prelude\<close>), with a constructor for each exception class, \<open>undefined_behaviour\<close> for
  what C++ leaves undefined (use after free, double free, access out of bounds, an invalid iterator), and
  \<open>model_out_of_fuel\<close>. \<open>std::size_t\<close> values are natural numbers with \<open>wrap64\<close> written where the code computes
  with them; addresses and \<open>int\<close> values are machine words. \<open>std::map\<close> is a list sorted by key
  (\<^verbatim>\<open>Std_Map\<close>). What the allocator, the scheduler, user callbacks and the operating system decide is an argument or
  a choice of the step relation, so the theorems hold for every decision.

  \<^bold>\<open>Theories.\<close>
  \<^item> \<^verbatim>\<open>C_Heap\<close>, \<^verbatim>\<open>Buffer\<close>: \<^verbatim>\<open>container/buffer.hpp\<close>, \<^verbatim>\<open>convert/buffer.hpp\<close>. Append, copy, assignment and release on
    an explicit heap whose allocations may fail or move; the locale \<open>byte_sink\<close> is the contract of \<open>append\<close> that the
    serializers rely on, interpreted for both buffer classes.
  \<^item> \<^verbatim>\<open>Convert_String\<close>, \<^verbatim>\<open>Convert_Map\<close>, \<^verbatim>\<open>Xpod\<close>, \<^verbatim>\<open>Nested_Map\<close>: \<^verbatim>\<open>convert/string.hpp\<close>, \<^verbatim>\<open>convert/map.hpp\<close>,
    \<^verbatim>\<open>convert/nested_map.hpp\<close>, \<^verbatim>\<open>container/xpod.hpp\<close>, \<^verbatim>\<open>convert/xpod.hpp\<close>, \<^verbatim>\<open>container/find.hpp\<close>,
    \<^verbatim>\<open>container/nested_map.hpp\<close>. Escaping and its inverse, pointers as text, the printed outline of a
    table, merge and deep copy.
  \<^item> \<^verbatim>\<open>Serialization\<close>, \<^verbatim>\<open>Serialization_Bounds\<close>, \<^verbatim>\<open>Direct_Serialize\<close>: the files of \<^verbatim>\<open>serialization\<close>. The locales \<open>codec\<close>, \<open>map_codec\<close>
    and \<open>nested_codec\<close> derive the round trip of maps and nested maps from that of keys and values;
    \<open>bounded_codec\<close> shows that a truncated object makes the reader leave its memory, \<open>consuming_reader\<close> that every
    reader ends. \<open>serialize_roundtrip\<close> puts writer, reference counted buffer and reader together.
  \<^item> \<^verbatim>\<open>Interprocess_Map\<close>: \<^verbatim>\<open>container/stable_interprocess_container.hpp\<close> and \<^verbatim>\<open>container/stable_interprocess_map.hpp\<close> on the
    bytes of the segment; the locale \<open>kv_table\<close> is what the use counts need of it.
  \<^item> \<^verbatim>\<open>Shared_Memory\<close>: \<^verbatim>\<open>concurrency/named_recursive_mutex.hpp\<close> and \<^verbatim>\<open>memory/interprocess_shared_memory.hpp\<close> on the
    names and objects of a POSIX kernel. Operations that lock, read, write and unlock in separate steps are atomic in
    every interleaving, which is why \<open>Interprocess_Map\<close> may treat each as one step; opening a segment that is open
    is undefined.
  \<^item> \<^verbatim>\<open>Segment_Opening\<close>: the constructor of the POSIX mutex system call by system call, for any number of threads and processes that
    open one name. Alone it is the single step of \<open>Shared_Memory\<close>; of two that end one has run into undefined behaviour.
  \<^item> \<^verbatim>\<open>Windows_Code\<close>, \<^verbatim>\<open>Other_Platforms\<close>: the Windows branches of the mutex, the segment, the error texts and COM, and the Windows and
    macOS branches for folders, the path of the binary and thread names. Segments are shared and live as long as a
    handle; an abandoned mutex stays locked.
  \<^item> \<^verbatim>\<open>Step_System\<close>, \<^verbatim>\<open>Lockable\<close>: interfaces. The locale \<open>step_system\<close> relates reachable states and runs for the four step relations
    of the development; \<open>lockable\<close> is the recursive mutex a lock guard needs, interpreted for POSIX and for Windows.
  \<^item> \<^verbatim>\<open>Stable_Reference_Buffer\<close>, \<^verbatim>\<open>Srb_System\<close>, \<^verbatim>\<open>Pointer\<close>: \<^verbatim>\<open>container/stable_reference_buffer.hpp\<close> and
    \<^verbatim>\<open>memory/pointer.hpp\<close>. \<open>Srb_System\<close> runs arbitrary programs over any number of objects and nested delay scopes;
    it shows memory safety, exact use counts and the refinement of a specification in which every object is
    simply a byte string.
  \<^item> \<^verbatim>\<open>Message_Manager\<close>: \<^verbatim>\<open>concurrency/message_manager.hpp\<close> and \<^verbatim>\<open>concurrency/threaded_object.hpp\<close> as a step relation over
    senders, workers, waiters and disposal with the two condition variables: conservation and order of
    messages, no lost wake-up, the meaning of \<open>wait_until_empty\<close>, progress, and the runs in which progress fails.
  \<^item> \<^verbatim>\<open>Message_Router\<close>, \<^verbatim>\<open>Router_Invariant\<close>, \<^verbatim>\<open>Router_Dispose\<close>: the whole \<open>message_manager\<close> above these queues, with its two maps and their
    mutexes, handlers that send, the logger and the destruction of handlers. Each id refines a queue of \<^verbatim>\<open>Message_Manager\<close>; the
    state is well formed in every reachable state; \<open>dispose\<close> can return when the handlers are waiting for messages, and can deadlock or
    leave a thread with destroyed members when they are not.
  \<^item> \<^verbatim>\<open>Circular_Buffer\<close>, \<^verbatim>\<open>Item_Registry\<close>, \<^verbatim>\<open>Singleton\<close>, \<^verbatim>\<open>Thread_Safe\<close>, \<^verbatim>\<open>Shared_Array\<close>: \<^verbatim>\<open>container/circular_buffer.hpp\<close>,
    \<^verbatim>\<open>container/shared_array.hpp\<close>,
    \<^verbatim>\<open>lifecycle/item_registry.hpp\<close>, \<^verbatim>\<open>lifecycle/singleton.hpp\<close>, \<^verbatim>\<open>lifecycle/scoped_set.hpp\<close> and the
    \<^verbatim>\<open>container/thread_safe_*.hpp\<close> files.
  \<^item> \<^verbatim>\<open>Json\<close>, \<^verbatim>\<open>Utf8\<close>, \<^verbatim>\<open>Filesystem_Path\<close>: the files of \<^verbatim>\<open>json\<close>, \<^verbatim>\<open>encoding/utf8.hpp\<close>, \<^verbatim>\<open>random/generators.hpp\<close> and
    \<^verbatim>\<open>filesystem/path.hpp\<close>. JSON text determines the table; the UTF-8 test is compared with the encoding; path
    normalization is a stack machine and idempotent.
  \<^item> \<^verbatim>\<open>Wide_String\<close>, \<^verbatim>\<open>Thread_Name\<close>: the rest of \<^verbatim>\<open>convert/string.hpp\<close>, \<^verbatim>\<open>concurrency/thread.hpp\<close> and the header of a log line.
    UTF-8 and UTF-16 round trips for exactly the well-formed text, integers and times as text, thread numbers and names.
  \<^item> \<^verbatim>\<open>File_Io\<close>, \<^verbatim>\<open>Platform\<close>, \<^verbatim>\<open>Errors\<close>: \<^verbatim>\<open>filesystem/io.hpp\<close>, \<^verbatim>\<open>filesystem/stdout_redirector.hpp\<close>, the Linux code of
    \<^verbatim>\<open>platform\<close>, and the classes of \<^verbatim>\<open>error\<close>. Writing and reading back, the search for unused names, the loop around
    \<open>readlink\<close>, the resolution of the clock, and which handler catches which exception.
  \<^item> \<^verbatim>\<open>Logging\<close>: \<^verbatim>\<open>logging/log_manager.hpp\<close> and \<^verbatim>\<open>logging/detail/logging_impl.hpp\<close>. What a message adds to the log file, and
    the calls that leave a mutex unlocked by the wrong thread or locked for good.

  \<^bold>\<open>Fuel and bounds.\<close> Only the reader of nested maps takes fuel: the number of bytes in front of it plus one. Each level
  of nesting reads at least one byte first, so this is enough for every input
  (\<open>table_reader_terminates\<close>). Loops that need not end (the search for an unused file name, the reading of a link or of the clock) are
  partial functions whose value \<open>None\<close> means that the loop goes on for good; lemmas say when they return. Sizes of serialized objects are assumed below \<open>2\<^sup>6\<^sup>4\<close> where a size is written.

  \<^bold>\<open>Not modelled.\<close> Thread and process numbers that only call the operating system, conversion of floating point
  numbers from and to text, and the macros of the build. The system calls of the segment's constructor itself and of both destructors are
  single steps; those of the mutex's constructor are separate in \<open>Segment_Opening\<close>. Exceptions for lack of
  memory are modelled where the code allocates blocks itself. The Windows and macOS branches for the resolution of the clock name a
  variable that does not exist and have no meaning to model. Where the platforms differ and no Windows branch is named above, the model
  is that of a 64-bit POSIX platform. The exception classes are constructors of \<open>failure\<close>, and their hierarchy is in \<^verbatim>\<open>Errors\<close>.
\<close>

end
